(* ===== verification/Prelude.thy ===== *)
theory Prelude
  imports Main "HOL-Library.Word" "HOL-Library.Monad_Syntax" "HOL-Library.Sublist"
begin

text \<open>
  Shared vocabulary of the Clearfall development: the fixed-width integer types of
  \<^verbatim>\<open>include/shared/libc/types.h\<close>, the error enumeration of
  \<^verbatim>\<open>include/shared/libc/errno.h\<close> with its numbering, the collections of simplification
  facts that the component theories extend, and generic lemmas on lists, options and
  words used by more than one component.
\<close>

unbundle bit_operations_syntax

section \<open>Fixed-width integers\<close>

text \<open>
  The kernel is built for \<^verbatim>\<open>i686-elf\<close>: \<open>usize\<close>, \<open>uptr\<close> and \<open>unsigned long\<close> are 32 bits wide.
  Unsigned arithmetic wraps around, which is the arithmetic of \<open>'n word\<close>.
\<close>

type_synonym u8 = "8 word"
type_synonym u16 = "16 word"
type_synonym u32 = "32 word"
type_synonym u64 = "64 word"
type_synonym usize = "32 word"

section \<open>Collections of facts\<close>

named_theorems link_defs \<open>unfolding the pointer operations of the intrusive lists\<close>
named_theorems refine_simps \<open>one-step abstraction equations of the components\<close>

section \<open>Error codes\<close>

text \<open>
  The enumeration \<open>Errno_t\<close>. C converts an enumerator to \<open>int\<close> implicitly where a function
  returns \<open>int\<close>; the model writes that conversion as \<open>errno_code\<close>, abbreviated \<open>err\<close>.
\<close>

datatype Errno =
    ERR_SUCCESS
  | ERR_UNKNOWN | ERR_INVALID_ARGUMENT | ERR_NOT_SUPPORTED | ERR_PERMISSION_DENIED
  | ERR_INTERRUPTED | ERR_TIMED_OUT | ERR_BUSY
  | ERR_OUT_OF_MEMORY | ERR_BAD_ADDRESS | ERR_BUFFER_TOO_SMALL
  | ERR_PAGE_FAULT | ERR_PAGE_ALREADY_MAPPED | ERR_PAGE_NOT_MAPPED
  | ERR_FRAME_UNAVAILABLE | ERR_INVALID_ALIGNMENT | ERR_HEAP_CORRUPTED | ERR_HEAP_EXHAUSTED
  | ERR_PROTECTION_FAULT | ERR_ADDRESS_IN_USE | ERR_ADDRESS_NOT_MAPPED
  | ERR_STACK_OVERFLOW | ERR_STACK_UNDERFLOW
  | ERR_SEGMENTATION_FAULT | ERR_DOUBLE_FREE | ERR_INVALID_FREE
  | ERR_NOT_FOUND | ERR_ALREADY_EXISTS | ERR_NOT_DIRECTORY | ERR_IS_DIRECTORY
  | ERR_DIRECTORY_NOT_EMPTY | ERR_READ_ONLY_FS | ERR_NO_SPACE_LEFT | ERR_NAME_TOO_LONG
  | ERR_BAD_FILE_DESCRIPTOR | ERR_TOO_MANY_OPEN_FILES | ERR_END_OF_FILE
  | ERR_IO_ERROR | ERR_DEVICE_NOT_FOUND | ERR_DEVICE_BUSY | ERR_DEVICE_FAULT
  | ERR_NO_CHILD_PROCESS | ERR_PROCESS_NOT_FOUND | ERR_EXEC_FORMAT_ERROR
  | ERR_NOT_CONNECTED | ERR_CONNECTION_REFUSED | ERR_CONNECTION_RESET | ERR_ADDRESS_IN_USE_NET
  | ERR_PANIC | ERR_INTERNAL

fun errno_code :: "Errno \<Rightarrow> int" where
  "errno_code ERR_SUCCESS = 0"
| "errno_code ERR_UNKNOWN = -1"
| "errno_code ERR_INVALID_ARGUMENT = -2"
| "errno_code ERR_NOT_SUPPORTED = -3"
| "errno_code ERR_PERMISSION_DENIED = -4"
| "errno_code ERR_INTERRUPTED = -5"
| "errno_code ERR_TIMED_OUT = -6"
| "errno_code ERR_BUSY = -7"
| "errno_code ERR_OUT_OF_MEMORY = -10"
| "errno_code ERR_BAD_ADDRESS = -11"
| "errno_code ERR_BUFFER_TOO_SMALL = -12"
| "errno_code ERR_PAGE_FAULT = -13"
| "errno_code ERR_PAGE_ALREADY_MAPPED = -14"
| "errno_code ERR_PAGE_NOT_MAPPED = -15"
| "errno_code ERR_FRAME_UNAVAILABLE = -16"
| "errno_code ERR_INVALID_ALIGNMENT = -17"
| "errno_code ERR_HEAP_CORRUPTED = -18"
| "errno_code ERR_HEAP_EXHAUSTED = -19"
| "errno_code ERR_PROTECTION_FAULT = -20"
| "errno_code ERR_ADDRESS_IN_USE = -21"
| "errno_code ERR_ADDRESS_NOT_MAPPED = -22"
| "errno_code ERR_STACK_OVERFLOW = -23"
| "errno_code ERR_STACK_UNDERFLOW = -24"
| "errno_code ERR_SEGMENTATION_FAULT = -25"
| "errno_code ERR_DOUBLE_FREE = -26"
| "errno_code ERR_INVALID_FREE = -27"
| "errno_code ERR_NOT_FOUND = -40"
| "errno_code ERR_ALREADY_EXISTS = -41"
| "errno_code ERR_NOT_DIRECTORY = -42"
| "errno_code ERR_IS_DIRECTORY = -43"
| "errno_code ERR_DIRECTORY_NOT_EMPTY = -44"
| "errno_code ERR_READ_ONLY_FS = -45"
| "errno_code ERR_NO_SPACE_LEFT = -46"
| "errno_code ERR_NAME_TOO_LONG = -47"
| "errno_code ERR_BAD_FILE_DESCRIPTOR = -60"
| "errno_code ERR_TOO_MANY_OPEN_FILES = -61"
| "errno_code ERR_END_OF_FILE = -62"
| "errno_code ERR_IO_ERROR = -80"
| "errno_code ERR_DEVICE_NOT_FOUND = -81"
| "errno_code ERR_DEVICE_BUSY = -82"
| "errno_code ERR_DEVICE_FAULT = -83"
| "errno_code ERR_NO_CHILD_PROCESS = -100"
| "errno_code ERR_PROCESS_NOT_FOUND = -101"
| "errno_code ERR_EXEC_FORMAT_ERROR = -102"
| "errno_code ERR_NOT_CONNECTED = -120"
| "errno_code ERR_CONNECTION_REFUSED = -121"
| "errno_code ERR_CONNECTION_RESET = -122"
| "errno_code ERR_ADDRESS_IN_USE_NET = -123"
| "errno_code ERR_PANIC = -200"
| "errno_code ERR_INTERNAL = -201"

abbreviation err :: "Errno \<Rightarrow> int" where
  "err \<equiv> errno_code"

abbreviation EINVAL :: int where
  "EINVAL \<equiv> err ERR_INVALID_ARGUMENT"

abbreviation ENOENT :: int where
  "ENOENT \<equiv> err ERR_NOT_FOUND"

abbreviation ENOMEM :: int where
  "ENOMEM \<equiv> err ERR_OUT_OF_MEMORY"

lemma errno_nonpos [simp]: "err e \<le> 0"
  by (cases e) simp_all

lemma errno_zero_iff [simp]: "err e = 0 \<longleftrightarrow> e = ERR_SUCCESS"
  by (cases e) simp_all

section \<open>Generic lemmas\<close>

lemma find_Some_set: "find P xs = Some x \<Longrightarrow> x \<in> set xs \<and> P x"
  by (auto simp: find_Some_iff)

lemma remove1_split: "x \<notin> set ys \<Longrightarrow> remove1 x (ys @ x # zs) = ys @ zs"
  by (simp add: remove1_append)

lemma of_nat_pos_small: "0 < n \<Longrightarrow> n < 2 ^ 32 \<Longrightarrow> (0 :: u32) < of_nat n"
  by (simp add: word_less_nat_alt unat_of_nat)

lemma map_upd_notin [simp]: "x \<notin> set xs \<Longrightarrow> map (f(x := v)) xs = map f xs"
  by auto

text \<open>
  Storing through an out-parameter: \<open>None\<close> is a \<open>NULL\<close> pointer, \<open>Some x\<close> a pointer to a variable
  holding \<open>x\<close>.
\<close>

definition store_out :: "'a \<Rightarrow> 'a option \<Rightarrow> 'a option" where
  "store_out v out = (case out of None \<Rightarrow> None | Some _ \<Rightarrow> Some v)"

lemma find_append:
  "find P (xs @ ys) = (case find P xs of None \<Rightarrow> find P ys | Some x \<Rightarrow> Some x)"
  by (induction xs) auto

lemma find_upt_Some_iff:
  "find P [0..<n] = Some g \<longleftrightarrow> P g \<and> g < n \<and> (\<forall>h < g. \<not> P h)"
  by (auto simp: find_Some_iff)

lemma find_upt_None_iff: "find P [0..<n] = None \<longleftrightarrow> (\<forall>g < n. \<not> P g)"
  by (auto simp: find_None_iff)

lemma find_upt_shift:
  "find P [k..<k + n] = map_option (\<lambda>g. k + g) (find (\<lambda>g. P (k + g)) [0..<n])"
proof -
  have "[k..<k + n] = map (\<lambda>g. k + g) [0..<n]"
    using map_add_upt [of k n] by (simp add: add.commute)
  moreover have "find P (map f xs) = map_option f (find (P \<circ> f) xs)" for f :: "nat \<Rightarrow> nat" and xs
    by (induction xs) auto
  ultimately show ?thesis by (simp add: comp_def)
qed

lemma sint_small:
  assumes "unat w < 2 ^ 31"
  shows "sint (w :: u32) = int (unat w)"
proof -
  have eq: "uint w = int (unat w)" by simp
  have "uint w < 2 ^ 31" unfolding eq using assms by (metis of_nat_less_numeral_power_cancel_iff)
  then show ?thesis
    using order.trans [OF _ uint_ge_0, of "- (2 ^ 31)" w]
    by (simp add: sint_uint signed_take_bit_int_eq_self)
qed

lemma unat_less_32: "unat (w :: u32) < 2 ^ 32"
  using unsigned_less [of w] by simp

lemma unat_max_sub:
  fixes x :: u32
  shows "unat (- 1 - x) = 2 ^ 32 - 1 - unat x"
proof -
  have "unat (- 1 :: u32) = 2 ^ 32 - 1"
    by (simp add: unsigned_minus_1_eq_mask mask_eq_exp_minus_1)
  then show ?thesis
    by (simp add: unat_sub)
qed

lemma find_range_Some_iff:
  "find P [a..<b] = Some g \<longleftrightarrow> P g \<and> a \<le> g \<and> g < b \<and> (\<forall>h. a \<le> h \<longrightarrow> h < g \<longrightarrow> \<not> P h)"
  (is "?l \<longleftrightarrow> ?r")
proof
  assume ?l
  then obtain i where "i < length [a..<b]" "P ([a..<b] ! i)" "g = [a..<b] ! i" "\<forall>j < i. \<not> P ([a..<b] ! j)"
    unfolding find_Some_iff by blast
  then have i: "a + i < b" "P (a + i)" "g = a + i" "\<forall>j < i. \<not> P (a + j)"
    by auto
  have "\<not> P h" if "a \<le> h" "h < g" for h
    using i(3,4) that by (metis add_less_cancel_left le_add_diff_inverse)
  then show ?r
    using i by auto
next
  assume ?r
  then show ?l
    by (auto simp: find_Some_iff intro!: exI [of _ "g - a"])
qed

lemma split_mask: "(x AND NOT m) + (x AND m) = x" for x m :: u32
  by (subst disjunctive_add_eq_or) (auto intro!: bit_eqI simp: bit_simps)

end
