(* ===== verification/Link_List.thy ===== *)
theory Link_List
  imports Prelude
begin

text \<open>
  The intrusive doubly-linked list of \<^verbatim>\<open>include/kernel/list.h\<close>, used by the run queue, the
  mount table, the filesystem registry, the real-time signal queue and IPC. A \<open>Link\<close> lives
  inside a larger structure, and every operation mutates links through pointers, so the
  model keeps an explicit store from link addresses to links. \<open>NULL\<close> is \<open>None\<close>;
  a write through \<open>NULL\<close> makes the whole operation \<open>None\<close>.

  \<open>ring L h xs\<close> says that the links \<open>xs\<close>, in this order, hang off the list head \<open>h\<close>. The
  lemmas show that each operation of the header acts on that sequence as the list function
  its comment promises, that it never writes through \<open>NULL\<close> then, and that iteration ends
  having visited exactly the sequence.
\<close>

section \<open>The operations\<close>

record 'a Link =
  lprev :: "'a option"
  lnext :: "'a option"

type_synonym 'a links = "'a \<Rightarrow> 'a Link"

definition write_prev :: "'a option \<Rightarrow> 'a option \<Rightarrow> 'a links \<Rightarrow> 'a links option" where
  "write_prev p v L = (case p of None \<Rightarrow> None | Some a \<Rightarrow> Some (L(a := (L a)\<lparr>lprev := v\<rparr>)))"

definition write_next :: "'a option \<Rightarrow> 'a option \<Rightarrow> 'a links \<Rightarrow> 'a links option" where
  "write_next p v L = (case p of None \<Rightarrow> None | Some a \<Rightarrow> Some (L(a := (L a)\<lparr>lnext := v\<rparr>)))"

definition LinkInit :: "'a \<Rightarrow> 'a links \<Rightarrow> 'a links" where
  "LinkInit x L = L(x := \<lparr>lprev = Some x, lnext = Some x\<rparr>)"

definition LinkAfter :: "'a \<Rightarrow> 'a \<Rightarrow> 'a links \<Rightarrow> 'a links option" where
  "LinkAfter a x L = do {
     let p = Some a;
     let n = lnext (L a);
     L \<leftarrow> write_prev n (Some x) L;
     L \<leftarrow> write_next (Some x) n L;
     L \<leftarrow> write_prev (Some x) p L;
     write_next p (Some x) L
   }"

definition LinkBefore :: "'a \<Rightarrow> 'a \<Rightarrow> 'a links \<Rightarrow> 'a links option" where
  "LinkBefore a x L = do {
     let p = lprev (L a);
     let n = Some a;
     L \<leftarrow> write_prev n (Some x) L;
     L \<leftarrow> write_next (Some x) n L;
     L \<leftarrow> write_prev (Some x) p L;
     write_next p (Some x) L
   }"

definition LinkRemove :: "'a \<Rightarrow> 'a links \<Rightarrow> 'a links option" where
  "LinkRemove x L = do {
     let p = lprev (L x);
     let n = lnext (L x);
     L \<leftarrow> write_prev n p L;
     L \<leftarrow> write_next p n L;
     L \<leftarrow> write_next (Some x) None L;
     write_prev (Some x) None L
   }"

definition LinkMoveAfter :: "'a \<Rightarrow> 'a \<Rightarrow> 'a links \<Rightarrow> 'a links option" where
  "LinkMoveAfter a x L = do { L \<leftarrow> LinkRemove x L; LinkAfter a x L }"

definition LinkMoveBefore :: "'a \<Rightarrow> 'a \<Rightarrow> 'a links \<Rightarrow> 'a links option" where
  "LinkMoveBefore a x L = do { L \<leftarrow> LinkRemove x L; LinkBefore a x L }"

definition ListIsEmpty :: "'a \<Rightarrow> 'a links \<Rightarrow> bool" where
  "ListIsEmpty x L = (lnext (L x) = Some x)"

lemmas link_op_defs [link_defs] =
  LinkAfter_def LinkBefore_def LinkRemove_def write_prev_def write_next_def

text \<open>
  The iteration macros. \<open>ListForEach\<close> follows \<open>next\<close> until it is back at the head and
  collects the links on which its body runs; \<open>ListForEachReverse\<close> follows \<open>prev\<close>. A loop whose
  body returns at the first entry that satisfies a test is \<open>ListFind\<close>. The loops
  need not end on a corrupt list, where the value is \<open>None\<close>.
\<close>

partial_function (option) list_walk ::
  "('a \<Rightarrow> 'a option) \<Rightarrow> 'a \<Rightarrow> 'a option \<Rightarrow> 'a list option" where
  "list_walk step h it =
     (case it of
        None \<Rightarrow> None
      | Some a \<Rightarrow>
          if a = h then Some []
          else do { r \<leftarrow> list_walk step h (step a); Some (a # r) })"

definition ListForEach :: "'a \<Rightarrow> 'a links \<Rightarrow> 'a list option" where
  "ListForEach h L = list_walk (\<lambda>a. lnext (L a)) h (lnext (L h))"

definition ListForEachReverse :: "'a \<Rightarrow> 'a links \<Rightarrow> 'a list option" where
  "ListForEachReverse h L = list_walk (\<lambda>a. lprev (L a)) h (lprev (L h))"

partial_function (option) list_search ::
  "'a links \<Rightarrow> 'a \<Rightarrow> ('a \<Rightarrow> bool) \<Rightarrow> 'a option \<Rightarrow> 'a option option" where
  "list_search L h P it =
     (case it of
        None \<Rightarrow> None
      | Some a \<Rightarrow>
          if a = h then Some None
          else if P a then Some (Some a)
          else list_search L h P (lnext (L a)))"

definition ListFind :: "'a \<Rightarrow> ('a \<Rightarrow> bool) \<Rightarrow> 'a links \<Rightarrow> 'a option option" where
  "ListFind h P L = list_search L h P (lnext (L h))"

section \<open>Segments and rings\<close>

primrec lseg :: "'a links \<Rightarrow> 'a \<Rightarrow> 'a list \<Rightarrow> 'a \<Rightarrow> bool" where
  "lseg L a [] b \<longleftrightarrow> lnext (L a) = Some b \<and> lprev (L b) = Some a"
| "lseg L a (x # xs) b \<longleftrightarrow> lnext (L a) = Some x \<and> lprev (L x) = Some a \<and> lseg L x xs b"

definition ring :: "'a links \<Rightarrow> 'a \<Rightarrow> 'a list \<Rightarrow> bool" where
  "ring L h xs \<longleftrightarrow> distinct (h # xs) \<and> lseg L h xs h"

lemma lseg_append_Cons [simp]:
  "lseg L a (xs @ y # ys) b \<longleftrightarrow> lseg L a xs y \<and> lseg L y ys b"
  by (induction xs arbitrary: a) auto

lemma lseg_frame:
  assumes "\<And>z. z = a \<or> z \<in> set xs \<Longrightarrow> lnext (L' z) = lnext (L z)"
    and "\<And>z. z = b \<or> z \<in> set xs \<Longrightarrow> lprev (L' z) = lprev (L z)"
  shows "lseg L' a xs b = lseg L a xs b"
  using assms by (induction xs arbitrary: a) auto

lemma ring_frame:
  assumes "\<And>z. z = h \<or> z \<in> set xs \<Longrightarrow> L' z = L z"
  shows "ring L' h xs = ring L h xs"
  using assms lseg_frame [of h xs L' L h] by (simp add: ring_def)

lemma lseg_next_prev:
  assumes "lseg L a (ys @ zs) b"
  shows "lnext (L (last (a # ys))) = Some (hd (zs @ [b]))"
    and "lprev (L (hd (zs @ [b]))) = Some (last (a # ys))"
  using assms by (cases ys rule: rev_cases; cases zs; simp)+

text \<open>A sequence on the store is determined by its head.\<close>

lemma lseg_determ:
  "lseg L a xs h \<Longrightarrow> lseg L a ys h \<Longrightarrow> h \<notin> set xs \<Longrightarrow> h \<notin> set ys \<Longrightarrow> xs = ys"
proof (induction xs arbitrary: a ys)
  case Nil
  then show ?case by (cases ys) auto
next
  case (Cons x xs)
  then show ?case by (cases ys) auto
qed

lemma ring_determ: "ring L h xs \<Longrightarrow> ring L h ys \<Longrightarrow> xs = ys"
  unfolding ring_def by (auto intro: lseg_determ)

subsection \<open>Insertion\<close>

text \<open>The four writes that \<open>LinkAfter\<close> and \<open>LinkBefore\<close> perform, once \<open>p\<close> and \<open>n\<close> are known.\<close>

definition link_splice :: "'a \<Rightarrow> 'a \<Rightarrow> 'a \<Rightarrow> 'a links \<Rightarrow> 'a links" where
  "link_splice p x n L =
     (let L1 = L(n := (L n)\<lparr>lprev := Some x\<rparr>);
          L2 = L1(x := \<lparr>lprev = Some p, lnext = Some n\<rparr>)
      in L2(p := (L2 p)\<lparr>lnext := Some x\<rparr>))"

lemma LinkAfter_splice: "lnext (L a) = Some n \<Longrightarrow> LinkAfter a x L = Some (link_splice a x n L)"
  by (auto simp: link_defs link_splice_def Let_def fun_eq_iff)

lemma LinkBefore_splice: "lprev (L a) = Some p \<Longrightarrow> LinkBefore a x L = Some (link_splice p x a L)"
  by (auto simp: link_defs link_splice_def Let_def fun_eq_iff)

lemma splice_frame: "z \<noteq> p \<Longrightarrow> z \<noteq> x \<Longrightarrow> z \<noteq> n \<Longrightarrow> link_splice p x n L z = L z"
  by (simp add: link_splice_def Let_def)

lemma splice_fields:
  assumes "x \<noteq> p" "x \<noteq> n"
  shows "lnext (link_splice p x n L p) = Some x" "lprev (link_splice p x n L n) = Some x"
    "lnext (link_splice p x n L x) = Some n" "lprev (link_splice p x n L x) = Some p"
    "z \<noteq> p \<Longrightarrow> z \<noteq> x \<Longrightarrow> lnext (link_splice p x n L z) = lnext (L z)"
    "z \<noteq> n \<Longrightarrow> z \<noteq> x \<Longrightarrow> lprev (link_splice p x n L z) = lprev (L z)"
  using assms by (auto simp: link_splice_def Let_def)

lemma ring_splice:
  assumes ring: "ring L h (ys @ zs)" and x: "x \<notin> set (h # ys @ zs)"
    and p: "p = last (h # ys)" and n: "n = hd (zs @ [h])"
  shows "ring (link_splice p x n L) h (ys @ x # zs)"
proof -
  let ?L' = "link_splice p x n L"
  have ne: "x \<noteq> p" "x \<noteq> n"
    using x p n by (cases ys rule: rev_cases; cases zs; auto)+
  note sf = splice_fields [OF ne]
  have left: "lseg ?L' h ys x"
  proof (cases ys rule: rev_cases)
    case Nil
    with p sf show ?thesis by simp
  next
    case (snoc us u)
    have "lseg ?L' h us u = lseg L h us u"
      using snoc ring x p n by (intro lseg_frame sf(5,6)) (cases zs; auto simp: ring_def)+
    with snoc p sf ring show ?thesis by (simp add: ring_def)
  qed
  have right: "lseg ?L' x zs h"
  proof (cases zs)
    case Nil
    with n sf show ?thesis by simp
  next
    case (Cons v vs)
    have "lseg ?L' v vs h = lseg L v vs h"
      using Cons ring x p n by (intro lseg_frame sf(5,6)) (cases ys rule: rev_cases; auto simp: ring_def)+
    with Cons n sf ring show ?thesis
      by (cases ys rule: rev_cases) (auto simp: ring_def)
  qed
  from left right ring x show ?thesis by (auto simp: ring_def)
qed

text \<open>The two insertions of the header, next to the list head and next to an entry.\<close>

lemma ring_splice_frame:
  assumes "p = last (h # ys)" "n = hd (zs @ [h])" "z \<notin> set (h # ys @ x # zs)"
  shows "link_splice p x n L z = L z"
  using assms by (intro splice_frame) (cases ys rule: rev_cases; cases zs; auto)+

lemma LinkAfter_ring:
  assumes "ring L h (ys @ zs)" "x \<notin> set (h # ys @ zs)" "a = last (h # ys)"
  shows "\<exists>L'. LinkAfter a x L = Some L' \<and> ring L' h (ys @ x # zs)
           \<and> (\<forall>z. z \<notin> set (h # ys @ x # zs) \<longrightarrow> L' z = L z)"
  using assms lseg_next_prev(1) [of L h ys zs h] ring_splice [of L h ys zs x a]
    ring_splice_frame [of a h ys _ zs _ x L]
  by (simp add: ring_def LinkAfter_splice)

lemma LinkBefore_ring:
  assumes "ring L h (ys @ zs)" "x \<notin> set (h # ys @ zs)" "a = hd (zs @ [h])"
  shows "\<exists>L'. LinkBefore a x L = Some L' \<and> ring L' h (ys @ x # zs)
           \<and> (\<forall>z. z \<notin> set (h # ys @ x # zs) \<longrightarrow> L' z = L z)"
  using assms lseg_next_prev(2) [of L h ys zs h] ring_splice [of L h ys zs x _ a]
    ring_splice_frame [of _ h ys a zs _ x L]
  by (simp add: ring_def LinkBefore_splice)

subsection \<open>Removal\<close>

definition unlink :: "'a \<Rightarrow> 'a \<Rightarrow> 'a \<Rightarrow> 'a links \<Rightarrow> 'a links" where
  "unlink p x n L =
     (let L1 = L(n := (L n)\<lparr>lprev := Some p\<rparr>);
          L2 = L1(p := (L1 p)\<lparr>lnext := Some n\<rparr>)
      in L2(x := \<lparr>lprev = None, lnext = None\<rparr>))"

lemma LinkRemove_unlink:
  "lprev (L x) = Some p \<Longrightarrow> lnext (L x) = Some n \<Longrightarrow> LinkRemove x L = Some (unlink p x n L)"
  by (auto simp: link_defs unlink_def Let_def fun_eq_iff)

lemma unlink_fields:
  assumes "x \<noteq> p" "x \<noteq> n"
  shows "lnext (unlink p x n L p) = Some n" "lprev (unlink p x n L n) = Some p"
    "z \<noteq> p \<Longrightarrow> z \<noteq> x \<Longrightarrow> lnext (unlink p x n L z) = lnext (L z)"
    "z \<noteq> n \<Longrightarrow> z \<noteq> x \<Longrightarrow> lprev (unlink p x n L z) = lprev (L z)"
    "lnext (unlink p x n L x) = None" "lprev (unlink p x n L x) = None"
  using assms by (auto simp: unlink_def Let_def)

lemma unlink_frame: "z \<noteq> p \<Longrightarrow> z \<noteq> x \<Longrightarrow> z \<noteq> n \<Longrightarrow> unlink p x n L z = L z"
  by (simp add: unlink_def Let_def)

lemma lseg_unlink:
  assumes ring: "ring L h (ys @ x # zs)"
    and p: "p = last (h # ys)" and n: "n = hd (zs @ [h])"
  shows "lseg (unlink p x n L) h (ys @ zs) h"
proof -
  let ?L' = "unlink p x n L"
  have ne: "x \<noteq> p" "x \<noteq> n"
    using ring p n by (cases ys rule: rev_cases; cases zs; auto simp: ring_def)+
  note uf = unlink_fields [OF ne]
  have left: "lseg ?L' h us u = lseg L h us u" if "ys = us @ [u]" for us u
    using that ring p n by (intro lseg_frame uf(3,4)) (cases zs; auto simp: ring_def)+
  have right: "lseg ?L' v vs h = lseg L v vs h" if "zs = v # vs" for v vs
    using that ring p n
    by (intro lseg_frame uf(3,4)) (cases ys rule: rev_cases; auto simp: ring_def)+
  show ?thesis
    using ring p n uf left right
    by (cases ys rule: rev_cases; cases zs) (auto simp: ring_def)
qed

lemma LinkRemove_ring:
  assumes ring: "ring L h (ys @ x # zs)"
  shows "\<exists>L'. LinkRemove x L = Some L' \<and> ring L' h (ys @ zs) \<and> L' x = \<lparr>lprev = None, lnext = None\<rparr>
           \<and> (\<forall>z. z \<notin> set (h # ys @ x # zs) \<longrightarrow> L' z = L z)"
proof -
  let ?p = "last (h # ys)" and ?n = "hd (zs @ [h])"
  have "lprev (L x) = Some ?p" "lnext (L x) = Some ?n"
    using ring lseg_next_prev(2) [of L h ys "x # zs" h] lseg_next_prev(1) [of L h "ys @ [x]" zs h]
    by (auto simp: ring_def)
  then have rm: "LinkRemove x L = Some (unlink ?p x ?n L)"
    by (rule LinkRemove_unlink)
  have dist: "distinct (h # ys @ zs)"
    using ring by (auto simp: ring_def)
  have pn: "?p \<in> set (h # ys)" "?n \<in> set (h # zs)"
    by (cases ys rule: rev_cases; cases zs; simp)+
  have "unlink ?p x ?n L z = L z" if "z \<notin> set (h # ys @ x # zs)" for z
    using that pn by (intro unlink_frame) auto
  moreover have "unlink ?p x ?n L x = \<lparr>lprev = None, lnext = None\<rparr>"
    by (simp add: unlink_def Let_def)
  ultimately show ?thesis
    using rm lseg_unlink [OF ring refl refl] dist by (auto simp: ring_def)
qed

subsection \<open>Iteration\<close>

lemma list_walk_next:
  "lseg L a xs h \<Longrightarrow> h \<notin> set xs \<Longrightarrow> list_walk (\<lambda>a. lnext (L a)) h (lnext (L a)) = Some xs"
  by (induction xs arbitrary: a) (auto simp: list_walk.simps)

lemma list_walk_prev:
  "lseg L h xs b \<Longrightarrow> h \<notin> set xs \<Longrightarrow> list_walk (\<lambda>a. lprev (L a)) h (lprev (L b)) = Some (rev xs)"
  by (induction xs arbitrary: b rule: rev_induct) (auto simp: list_walk.simps)

lemma list_search_find:
  "lseg L a xs h \<Longrightarrow> h \<notin> set xs \<Longrightarrow> list_search L h P (lnext (L a)) = Some (find P xs)"
  by (induction xs arbitrary: a) (auto simp: list_search.simps)

lemma ListForEach_ring: "ring L h xs \<Longrightarrow> ListForEach h L = Some xs"
  by (simp add: ListForEach_def ring_def list_walk_next)

lemma ListForEachReverse_ring: "ring L h xs \<Longrightarrow> ListForEachReverse h L = Some (rev xs)"
  by (simp add: ListForEachReverse_def ring_def list_walk_prev)

lemma ListFind_ring: "ring L h xs \<Longrightarrow> ListFind h P L = Some (find P xs)"
  by (simp add: ListFind_def ring_def list_search_find)

lemma ListIsEmpty_ring: "ring L h xs \<Longrightarrow> ListIsEmpty h L \<longleftrightarrow> xs = []"
  by (cases xs) (auto simp: ListIsEmpty_def ring_def)

lemma ring_first: "ring L h (x # xs) \<Longrightarrow> lnext (L h) = Some x"
  by (simp add: ring_def)

lemma LinkInit_ring: "ring (LinkInit h L) h []"
  by (simp add: LinkInit_def ring_def)

lemma LinkInit_other: "z \<noteq> h \<Longrightarrow> LinkInit h L z = L z"
  by (simp add: LinkInit_def)

section \<open>The interface of the list header\<close>

text \<open>
  What a client of \<^verbatim>\<open>list.h\<close> relies on: \<open>repr L h xs\<close> says that the head \<open>h\<close> carries
  the links \<open>xs\<close>, each operation acts on that sequence, and a list that shares no
  link with the one operated on is unchanged.
\<close>

locale intrusive_list =
  fixes init :: "'a \<Rightarrow> 's \<Rightarrow> 's"
    and after :: "'a \<Rightarrow> 'a \<Rightarrow> 's \<Rightarrow> 's option"
    and before :: "'a \<Rightarrow> 'a \<Rightarrow> 's \<Rightarrow> 's option"
    and remove :: "'a \<Rightarrow> 's \<Rightarrow> 's option"
    and is_empty :: "'a \<Rightarrow> 's \<Rightarrow> bool"
    and first :: "'a \<Rightarrow> 's \<Rightarrow> 'a option"
    and repr :: "'s \<Rightarrow> 'a \<Rightarrow> 'a list \<Rightarrow> bool"
  assumes repr_distinct: "repr L h xs \<Longrightarrow> distinct (h # xs)"
    and repr_init: "repr (init h L) h []"
    and frame_init: "repr L h' ys \<Longrightarrow> h \<notin> set (h' # ys) \<Longrightarrow> repr (init h L) h' ys"
    and push_front: "repr L h xs \<Longrightarrow> x \<notin> set (h # xs) \<Longrightarrow>
          \<exists>L'. after h x L = Some L' \<and> repr L' h (x # xs)
            \<and> (\<forall>h' ys. repr L h' ys \<longrightarrow> set (h' # ys) \<inter> set (h # x # xs) = {} \<longrightarrow> repr L' h' ys)"
    and push_back: "repr L h xs \<Longrightarrow> x \<notin> set (h # xs) \<Longrightarrow>
          \<exists>L'. before h x L = Some L' \<and> repr L' h (xs @ [x])
            \<and> (\<forall>h' ys. repr L h' ys \<longrightarrow> set (h' # ys) \<inter> set (h # x # xs) = {} \<longrightarrow> repr L' h' ys)"
    and detach: "repr L h (ys @ x # zs) \<Longrightarrow>
          \<exists>L'. remove x L = Some L' \<and> repr L' h (ys @ zs)
            \<and> (\<forall>h' us. repr L h' us \<longrightarrow> set (h' # us) \<inter> set (h # ys @ x # zs) = {} \<longrightarrow> repr L' h' us)"
    and empty_iff: "repr L h xs \<Longrightarrow> is_empty h L \<longleftrightarrow> xs = []"
    and first_hd: "repr L h (x # xs) \<Longrightarrow> first h L = Some x"
begin

text \<open>Taking the first entry of one list and appending it to another.\<close>

lemma transfer_back:
  assumes f: "repr L f (x # fs)" and u: "repr L u us"
    and disj: "set (f # x # fs) \<inter> set (u # us) = {}"
  shows "\<exists>L1 L2. remove x L = Some L1 \<and> before u x L1 = Some L2 \<and> repr L2 f fs \<and> repr L2 u (us @ [x])"
proof -
  obtain L1 where L1: "remove x L = Some L1" "repr L1 f fs" "repr L1 u us"
    using detach [of L f "[]" x fs] f u disj by (auto simp: Int_commute)
  obtain L2 where "before u x L1 = Some L2" "repr L2 u (us @ [x])" "repr L2 f fs"
    using push_back [OF L1(3), of x] L1(2) disj repr_distinct [OF f] by (auto simp: Int_commute)
  with L1 show ?thesis by blast
qed

text \<open>Taking the first entry of one list and pushing it at the front of another.\<close>

lemma transfer_front:
  assumes u: "repr L u (x # us)" and f: "repr L f fs"
    and disj: "set (u # x # us) \<inter> set (f # fs) = {}"
  shows "\<exists>L1 L2. remove x L = Some L1 \<and> after f x L1 = Some L2 \<and> repr L2 u us \<and> repr L2 f (x # fs)"
proof -
  obtain L1 where L1: "remove x L = Some L1" "repr L1 u us" "repr L1 f fs"
    using detach [of L u "[]" x us] f u disj by (auto simp: Int_commute)
  obtain L2 where "after f x L1 = Some L2" "repr L2 f (x # fs)" "repr L2 u us"
    using push_front [OF L1(3), of x] L1(2) disj repr_distinct [OF u] by (auto simp: Int_commute)
  with L1 show ?thesis by blast
qed

lemma detach_member:
  assumes "repr L h xs" "x \<in> set xs"
  shows "\<exists>L'. remove x L = Some L' \<and> repr L' h (remove1 x xs)"
proof -
  from assms(2) obtain ys zs where xs: "xs = ys @ x # zs" and "x \<notin> set ys"
    by (metis split_list_first)
  then show ?thesis
    using assms(1) detach [of L h ys x zs] by (auto simp: remove1_append)
qed

end

lemma ring_agree:
  "(\<forall>z. z \<notin> S \<longrightarrow> L' z = L z) \<Longrightarrow> set (h # xs) \<inter> S = {} \<Longrightarrow> ring L h xs \<Longrightarrow> ring L' h xs"
  by (subst ring_frame [of h xs L' L]) auto

interpretation lists: intrusive_list LinkInit LinkAfter LinkBefore LinkRemove ListIsEmpty
  "\<lambda>h L. lnext (L h)" ring
proof (unfold_locales, goal_cases)
  case (1 L h xs)
  then show ?case by (simp add: ring_def)
next
  case (2 h L)
  show ?case by (rule LinkInit_ring)
next
  case (3 L h' ys h)
  then show ?case by - (rule ring_agree [of "{h}" _ L], auto simp: LinkInit_other)
next
  case (4 L h xs x)
  then show ?case
    using LinkAfter_ring [of L h "[]" xs x h] ring_agree [of "set (h # x # xs)" _ L] by auto
next
  case (5 L h xs x)
  then show ?case
    using LinkBefore_ring [of L h xs "[]" x h] ring_agree [of "set (h # x # xs)" _ L] by auto
next
  case (6 L h ys x zs)
  then show ?case
    using LinkRemove_ring [of L h ys x zs] ring_agree [of "set (h # ys @ x # zs)" _ L] by auto
next
  case (7 L h xs)
  then show ?case by (rule ListIsEmpty_ring)
next
  case (8 L h x xs)
  then show ?case by (rule ring_first)
qed

end
