(* ===== verification/Fifo_Spec.thy ===== *)
theory Fifo_Spec
  imports Prelude
begin

text \<open>
  The contract of a bounded first-in first-out queue, stated as a locale over an
  implementation's invariant, abstraction and operations, and the client's view: any
  sequence of insertions and removals gives the answers of a plain list of bounded
  length.
\<close>

datatype 'e qop = Put 'e | Take

datatype 'e qres = Accepted | Refused | Took 'e | Nothing

text \<open>The abstract queue: a list, oldest first, of at most \<open>cap\<close> elements.\<close>

definition spec_put :: "nat \<Rightarrow> 'e \<Rightarrow> 'e list \<Rightarrow> 'e list option" where
  "spec_put cap e xs = (if length xs < cap then Some (xs @ [e]) else None)"

definition spec_take :: "'e list \<Rightarrow> ('e \<times> 'e list) option" where
  "spec_take xs = (case xs of [] \<Rightarrow> None | x # xs' \<Rightarrow> Some (x, xs'))"

text \<open>Running a sequence of operations and collecting their answers.\<close>

fun run_qops ::
  "('e \<Rightarrow> 'q \<Rightarrow> 'q option) \<Rightarrow> ('q \<Rightarrow> ('e \<times> 'q) option) \<Rightarrow> 'e qop list \<Rightarrow> 'q \<Rightarrow> 'e qres list \<times> 'q" where
  "run_qops put tk [] q = ([], q)"
| "run_qops put tk (Put e # ops) q =
     (case put e q of
        None \<Rightarrow> (let (rs, q') = run_qops put tk ops q in (Refused # rs, q'))
      | Some q1 \<Rightarrow> (let (rs, q') = run_qops put tk ops q1 in (Accepted # rs, q')))"
| "run_qops put tk (Take # ops) q =
     (case tk q of
        None \<Rightarrow> (let (rs, q') = run_qops put tk ops q in (Nothing # rs, q'))
      | Some (e, q1) \<Rightarrow> (let (rs, q') = run_qops put tk ops q1 in (Took e # rs, q')))"

fun put_ok :: "('e \<Rightarrow> bool) \<Rightarrow> 'e qop \<Rightarrow> bool" where
  "put_ok ok (Put e) = ok e"
| "put_ok ok Take = True"

locale bounded_fifo =
  fixes inv :: "'q \<Rightarrow> bool"
    and content :: "'q \<Rightarrow> 'e list"
    and ok :: "'e \<Rightarrow> bool"
    and put :: "'e \<Rightarrow> 'q \<Rightarrow> 'q option"
    and tk :: "'q \<Rightarrow> ('e \<times> 'q) option"
    and cap :: nat
  assumes content_bound: "inv q \<Longrightarrow> length (content q) \<le> cap"
    and put_accepts: "inv q \<Longrightarrow> ok e \<Longrightarrow> length (content q) < cap \<Longrightarrow>
          \<exists>q'. put e q = Some q' \<and> inv q' \<and> content q' = content q @ [e]"
    and put_refuses: "inv q \<Longrightarrow> ok e \<Longrightarrow> length (content q) = cap \<Longrightarrow> put e q = None"
    and take_first: "inv q \<Longrightarrow> content q = e # es \<Longrightarrow>
          \<exists>q'. tk q = Some (e, q') \<and> inv q' \<and> content q' = es"
    and take_empty: "inv q \<Longrightarrow> content q = [] \<Longrightarrow> tk q = None"
begin

lemma put_simulates:
  assumes "inv q" "ok e"
  shows "map_option content (put e q) = spec_put cap e (content q)
         \<and> (\<forall>q'. put e q = Some q' \<longrightarrow> inv q')"
  using content_bound [OF assms(1)] put_accepts [OF assms] put_refuses [OF assms]
  by (fastforce simp: spec_put_def)

lemma take_simulates:
  assumes "inv q"
  shows "map_option (map_prod id content) (tk q) = spec_take (content q)
         \<and> (\<forall>e q'. tk q = Some (e, q') \<longrightarrow> inv q')"
  using take_first [OF assms] take_empty [OF assms]
  by (cases "content q") (fastforce simp: spec_take_def)+

text \<open>The answers of any run, and the content it leaves, are those of the list.\<close>

lemma run_simulates:
  assumes "inv q" "list_all (put_ok ok) ops"
  shows "inv (snd (run_qops put tk ops q))
    \<and> fst (run_qops put tk ops q) = fst (run_qops (spec_put cap) spec_take ops (content q))
    \<and> content (snd (run_qops put tk ops q)) = snd (run_qops (spec_put cap) spec_take ops (content q))"
  using assms
proof (induction ops arbitrary: q)
  case Nil
  then show ?case by simp
next
  case (Cons op ops)
  show ?case
  proof (cases op)
    case (Put e)
    with Cons.prems have "ok e" "list_all (put_ok ok) ops" by auto
    then show ?thesis
      using Put Cons.IH put_simulates [OF Cons.prems(1) \<open>ok e\<close>] Cons.prems(1)
      by (cases "put e q"; cases "spec_put cap e (content q)")
         (auto simp: split_beta)
  next
    case Take
    then show ?thesis
      using Cons.IH Cons.prems take_simulates [OF Cons.prems(1)]
      by (cases "tk q"; cases "spec_take (content q)")
         (auto simp: split_beta)
  qed
qed

end

end
