(* ===== verification/Rt_Queue.thy ===== *)
theory Rt_Queue
  imports Link_List Fifo_Spec
begin

text \<open>
  The real-time signal queue of \<^verbatim>\<open>src/kernel/syscall/signal/queue.c\<close>: a pool of
  \<open>RTQ_CAPACITY\<close> entries, each on exactly one of two intrusive lists, \<open>used_head\<close> (the queue)
  and \<open>free_head\<close>. The model keeps the two list heads and the pool entries as addresses of one
  link store. It is shown to implement a bounded first-in first-out queue of
  (signal, information) pairs.
\<close>

section \<open>Data\<close>

record siginfo =
  si_signo :: int
  si_errno :: int
  si_code :: int
  si_addr :: u32
  si_status :: int

definition siginfo_zero :: siginfo where
  "siginfo_zero = \<lparr>si_signo = 0, si_errno = 0, si_code = 0, si_addr = 0, si_status = 0\<rparr>"

abbreviation SIG_MIN :: int where "SIG_MIN \<equiv> 1"
abbreviation SIGRTMIN :: int where "SIGRTMIN \<equiv> 34"
abbreviation SIGRTMAX :: int where "SIGRTMAX \<equiv> 64"
abbreviation SIG_MAX :: int where "SIG_MAX \<equiv> SIGRTMAX"

definition RTQ_CAPACITY :: nat where
  "RTQ_CAPACITY = 64"

record rtq_entry =
  e_sig :: int
  e_info :: siginfo

text \<open>
  The addresses of the \<open>Link\<close> objects inside one \<open>rtq_t\<close>. \<open>LinkData\<close> on the address of a pool
  entry's link is that entry; on a list head it would point outside the pool.
\<close>

datatype rtq_ref = UsedHead | FreeHead | Pool nat

fun entry_of :: "rtq_ref \<Rightarrow> nat option" where
  "entry_of (Pool i) = Some i"
| "entry_of _ = None"

record rtq =
  rtq_links :: "rtq_ref links"
  pool :: "rtq_entry list"
  rtq_cnt :: u32

section \<open>Operations\<close>

definition rtq_init_entry :: "nat \<Rightarrow> rtq \<Rightarrow> rtq option" where
  "rtq_init_entry i q = do {
     let q = q\<lparr>pool := (pool q)[i := \<lparr>e_sig = 0, e_info = siginfo_zero\<rparr>]\<rparr>;
     L \<leftarrow> LinkAfter FreeHead (Pool i) (LinkInit (Pool i) (rtq_links q));
     Some (q\<lparr>rtq_links := L\<rparr>)
   }"

fun rtq_init_loop :: "nat list \<Rightarrow> rtq \<Rightarrow> rtq option" where
  "rtq_init_loop [] q = Some q"
| "rtq_init_loop (i # is) q = do { q \<leftarrow> rtq_init_entry i q; rtq_init_loop is q }"

text \<open>
  A result \<open>Some r\<close> is what the call returns, with the queue afterwards (\<open>None\<close> inside it where
  the caller passed \<open>NULL\<close>); the outer \<open>None\<close> is a write through a bad pointer.
\<close>

definition rtq_init :: "rtq option \<Rightarrow> rtq option option" where
  "rtq_init qp =
     (case qp of
        None \<Rightarrow> Some None
      | Some q \<Rightarrow> do {
          let q = q\<lparr>rtq_links := LinkInit FreeHead (LinkInit UsedHead (rtq_links q))\<rparr>;
          q \<leftarrow> rtq_init_loop [0..<RTQ_CAPACITY] q;
          Some (Some (q\<lparr>rtq_cnt := 0\<rparr>))
        })"

definition rtq_is_empty :: "rtq option \<Rightarrow> bool" where
  "rtq_is_empty qp = (case qp of None \<Rightarrow> True | Some q \<Rightarrow> ListIsEmpty UsedHead (rtq_links q))"

definition rtq_is_full :: "rtq option \<Rightarrow> bool" where
  "rtq_is_full qp = (case qp of None \<Rightarrow> False | Some q \<Rightarrow> ListIsEmpty FreeHead (rtq_links q))"

definition rtq_payload :: "int \<Rightarrow> siginfo option \<Rightarrow> rtq_entry" where
  "rtq_payload sig info =
     \<lparr>e_sig = sig,
      e_info = (case info of Some x \<Rightarrow> x | None \<Rightarrow> siginfo_zero\<lparr>si_signo := sig\<rparr>)\<rparr>"

text \<open>
  The error returns are the source's \<open>-EINVAL\<close> and \<open>-ENOENT\<close>, negations of codes that are negative already.
\<close>

definition rtq_enqueue :: "rtq option \<Rightarrow> int \<Rightarrow> siginfo option \<Rightarrow> (int \<times> rtq option) option" where
  "rtq_enqueue qp sig info =
     (case qp of
        None \<Rightarrow> Some (- EINVAL, None)
      | Some q \<Rightarrow>
          if sig < SIG_MIN \<or> sig > SIG_MAX then Some (- EINVAL, Some q)
          else if rtq_is_full (Some q) then Some (err ERR_BUSY, Some q)
          else (case lnext (rtq_links q FreeHead) of
              None \<Rightarrow> Some (err ERR_BUSY, Some q)
            | Some free_node \<Rightarrow>
                if free_node = FreeHead then Some (err ERR_BUSY, Some q)
                else do {
                  L \<leftarrow> LinkRemove free_node (rtq_links q);
                  i \<leftarrow> entry_of free_node;
                  let p = (pool q)[i := rtq_payload sig info];
                  L \<leftarrow> LinkBefore UsedHead free_node L;
                  Some (0, Some (q\<lparr>rtq_links := L, pool := p, rtq_cnt := rtq_cnt q + 1\<rparr>))
                }))"

text \<open>
  \<open>out_sig\<close> and \<open>out_info\<close> are the objects the caller's pointers refer to, \<open>None\<close> for \<open>NULL\<close>.
\<close>

definition rtq_dequeue :: "rtq option \<Rightarrow> int option \<Rightarrow> siginfo option
    \<Rightarrow> (int \<times> rtq option \<times> int option \<times> siginfo option) option" where
  "rtq_dequeue qp out_sig out_info =
     (case qp of
        None \<Rightarrow> Some (- EINVAL, None, out_sig, out_info)
      | Some q \<Rightarrow>
          if rtq_is_empty (Some q) then Some (- ENOENT, Some q, out_sig, out_info)
          else (case lnext (rtq_links q UsedHead) of
              None \<Rightarrow> Some (- ENOENT, Some q, out_sig, out_info)
            | Some node \<Rightarrow>
                if node = UsedHead then Some (- ENOENT, Some q, out_sig, out_info)
                else do {
                  L \<leftarrow> LinkRemove node (rtq_links q);
                  i \<leftarrow> entry_of node;
                  let entry = pool q ! i;
                  let out_sig = store_out (e_sig entry) out_sig;
                  let out_info = store_out (e_info entry) out_info;
                  let p = (pool q)[i := \<lparr>e_sig = 0, e_info = siginfo_zero\<rparr>];
                  L \<leftarrow> LinkAfter FreeHead node L;
                  let c = (if rtq_cnt q > 0 then rtq_cnt q - 1 else rtq_cnt q);
                  Some (0, Some (q\<lparr>rtq_links := L, pool := p, rtq_cnt := c\<rparr>), out_sig, out_info)
                }))"

definition rtq_peek :: "rtq option \<Rightarrow> int option \<Rightarrow> siginfo option
    \<Rightarrow> (int \<times> int option \<times> siginfo option) option" where
  "rtq_peek qp out_sig out_info =
     (case qp of
        None \<Rightarrow> Some (- EINVAL, out_sig, out_info)
      | Some q \<Rightarrow>
          if rtq_is_empty (Some q) then Some (- ENOENT, out_sig, out_info)
          else (case lnext (rtq_links q UsedHead) of
              None \<Rightarrow> Some (- ENOENT, out_sig, out_info)
            | Some node \<Rightarrow>
                if node = UsedHead then Some (- ENOENT, out_sig, out_info)
                else do {
                  i \<leftarrow> entry_of node;
                  let entry = pool q ! i;
                  Some (0, store_out (e_sig entry) out_sig, store_out (e_info entry) out_info)
                }))"

definition rtq_count :: "rtq option \<Rightarrow> u32" where
  "rtq_count qp = (case qp of None \<Rightarrow> 0 | Some q \<Rightarrow> rtq_cnt q)"

section \<open>Invariant and abstraction\<close>

definition rtq_shape :: "rtq \<Rightarrow> nat list \<Rightarrow> nat list \<Rightarrow> bool" where
  "rtq_shape q us fs \<longleftrightarrow>
     ring (rtq_links q) UsedHead (map Pool us) \<and> ring (rtq_links q) FreeHead (map Pool fs)
     \<and> distinct (us @ fs) \<and> set (us @ fs) = {0..<RTQ_CAPACITY}
     \<and> length (pool q) = RTQ_CAPACITY \<and> rtq_cnt q = of_nat (length us)"

definition rtq_wf :: "rtq \<Rightarrow> bool" where
  "rtq_wf q \<longleftrightarrow> (\<exists>us fs. rtq_shape q us fs)"

text \<open>The queued entries, oldest first, read off the used list.\<close>

definition rtq_entries :: "rtq \<Rightarrow> rtq_entry list" where
  "rtq_entries q =
     (case ListForEach UsedHead (rtq_links q) of
        None \<Rightarrow> []
      | Some xs \<Rightarrow> map (\<lambda>r. case entry_of r of Some i \<Rightarrow> pool q ! i
                                  | None \<Rightarrow> \<lparr>e_sig = 0, e_info = siginfo_zero\<rparr>) xs)"

lemma rtq_entries_shape: "rtq_shape q us fs \<Longrightarrow> rtq_entries q = map ((!) (pool q)) us"
  by (auto simp: rtq_entries_def rtq_shape_def dest!: ListForEach_ring)

lemma inj_Pool [simp]: "inj Pool" "inj_on Pool A"
  by (auto intro!: injI inj_onI)

lemma shape_length: "rtq_shape q us fs \<Longrightarrow> length us + length fs = RTQ_CAPACITY"
  unfolding rtq_shape_def by (metis card_atLeastLessThan distinct_card length_append minus_nat.diff_0)

lemma shape_bound: "rtq_shape q us fs \<Longrightarrow> i \<in> set us \<union> set fs \<Longrightarrow> i < length (pool q)"
  unfolding rtq_shape_def by (metis atLeastLessThan_iff set_append)

lemma shape_disjoint:
  assumes "rtq_shape q us fs"
  shows "set (UsedHead # map Pool us) \<inter> set (FreeHead # map Pool fs) = {}"
    and "set (FreeHead # map Pool fs) \<inter> set (UsedHead # map Pool us) = {}"
  using assms by (auto simp: rtq_shape_def)

lemma shape_rings:
  assumes "rtq_shape q us fs"
  shows "ring (rtq_links q) UsedHead (map Pool us)" "ring (rtq_links q) FreeHead (map Pool fs)"
  using assms by (simp_all add: rtq_shape_def)

subsection \<open>Initialisation\<close>

lemma rtq_init_entry_ring:
  assumes "ring (rtq_links q) FreeHead (map Pool is)" "ring (rtq_links q) UsedHead []"
    "i \<notin> set is" "length (pool q) = RTQ_CAPACITY"
  shows "\<exists>q'. rtq_init_entry i q = Some q' \<and> ring (rtq_links q') FreeHead (map Pool (i # is))
           \<and> ring (rtq_links q') UsedHead [] \<and> length (pool q') = RTQ_CAPACITY"
proof -
  let ?L = "LinkInit (Pool i) (rtq_links q)"
  have "ring ?L FreeHead (map Pool is)" "ring ?L UsedHead []"
    using assms by (auto intro!: lists.frame_init)
  then obtain L' where "LinkAfter FreeHead (Pool i) ?L = Some L'"
      "ring L' FreeHead (map Pool (i # is))" "ring L' UsedHead []"
    using lists.push_front [of ?L FreeHead "map Pool is" "Pool i"] assms(3) by fastforce
  with assms(4) show ?thesis by (simp add: rtq_init_entry_def)
qed

lemma rtq_init_loop_ring:
  assumes "ring (rtq_links q) FreeHead (map Pool is)" "ring (rtq_links q) UsedHead []"
    "distinct js" "set is \<inter> set js = {}" "length (pool q) = RTQ_CAPACITY"
  shows "\<exists>q'. rtq_init_loop js q = Some q' \<and> ring (rtq_links q') FreeHead (map Pool (rev js @ is))
           \<and> ring (rtq_links q') UsedHead [] \<and> length (pool q') = RTQ_CAPACITY"
  using assms
proof (induction js arbitrary: q "is")
  case Nil
  then show ?case by simp
next
  case (Cons j js)
  then obtain q1 where "rtq_init_entry j q = Some q1" "ring (rtq_links q1) FreeHead (map Pool (j # is))"
      "ring (rtq_links q1) UsedHead []" "length (pool q1) = RTQ_CAPACITY"
    using rtq_init_entry_ring [of q "is" j] by auto
  with Cons.IH [of q1 "j # is"] Cons.prems show ?case by auto
qed

lemma rtq_init_shape:
  assumes "length (pool q) = RTQ_CAPACITY"
  shows "\<exists>q'. rtq_init (Some q) = Some (Some q') \<and> rtq_shape q' [] (rev [0..<RTQ_CAPACITY])"
proof -
  let ?L = "LinkInit FreeHead (LinkInit UsedHead (rtq_links q))"
  have "ring ?L FreeHead (map Pool [])" "ring ?L UsedHead []"
    using lists.frame_init [OF LinkInit_ring [of UsedHead], of FreeHead] by (auto intro: LinkInit_ring)
  then obtain q' where q': "rtq_init_loop [0..<RTQ_CAPACITY] (q\<lparr>rtq_links := ?L\<rparr>) = Some q'"
      "ring (rtq_links q') FreeHead (map Pool (rev [0..<RTQ_CAPACITY]))"
      "ring (rtq_links q') UsedHead []" "length (pool q') = RTQ_CAPACITY"
    using rtq_init_loop_ring [of "q\<lparr>rtq_links := ?L\<rparr>" "[]" "[0..<RTQ_CAPACITY]"] assms by auto
  then show ?thesis
    by (simp add: rtq_init_def rtq_shape_def)
qed

subsection \<open>Enqueue, dequeue and peek on a well-formed queue\<close>

lemma rtq_is_empty_shape: "rtq_shape q us fs \<Longrightarrow> rtq_is_empty (Some q) \<longleftrightarrow> us = []"
  by (auto simp: rtq_is_empty_def rtq_shape_def lists.empty_iff)

lemma rtq_is_full_shape: "rtq_shape q us fs \<Longrightarrow> rtq_is_full (Some q) \<longleftrightarrow> fs = []"
  by (auto simp: rtq_is_full_def rtq_shape_def lists.empty_iff)

lemma rtq_enqueue_shape:
  assumes shape: "rtq_shape q us (i # fs)" and sig: "SIG_MIN \<le> sig" "sig \<le> SIG_MAX"
  shows "\<exists>q'. rtq_enqueue (Some q) sig info = Some (0, Some q')
           \<and> pool q' = (pool q)[i := rtq_payload sig info] \<and> rtq_shape q' (us @ [i]) fs"
proof -
  obtain L1 L2 where L: "LinkRemove (Pool i) (rtq_links q) = Some L1"
      "LinkBefore UsedHead (Pool i) L1 = Some L2"
      "ring L2 FreeHead (map Pool fs)" "ring L2 UsedHead (map Pool us @ [Pool i])"
    using lists.transfer_back [of "rtq_links q" FreeHead "Pool i" "map Pool fs" UsedHead "map Pool us"]
      shape_rings [OF shape] shape_disjoint(2) [OF shape] by auto
  have "lnext (rtq_links q FreeHead) = Some (Pool i)"
    using shape_rings [OF shape] by (auto intro: ring_first)
  then have run: "rtq_enqueue (Some q) sig info = Some (0, Some (q\<lparr>rtq_links := L2,
      pool := (pool q)[i := rtq_payload sig info], rtq_cnt := rtq_cnt q + 1\<rparr>))"
    using L(1,2) sig rtq_is_full_shape [OF shape] by (simp add: rtq_enqueue_def)
  show ?thesis
    unfolding run using shape L(3,4) by (auto simp: rtq_shape_def)
qed

lemma rtq_dequeue_shape:
  assumes shape: "rtq_shape q (i # us) fs"
  shows "\<exists>q'. rtq_dequeue (Some q) out_sig out_info =
             Some (0, Some q', store_out (e_sig (pool q ! i)) out_sig, store_out (e_info (pool q ! i)) out_info)
           \<and> pool q' = (pool q)[i := \<lparr>e_sig = 0, e_info = siginfo_zero\<rparr>] \<and> rtq_shape q' us (i # fs)"
proof -
  obtain L1 L2 where L: "LinkRemove (Pool i) (rtq_links q) = Some L1"
      "LinkAfter FreeHead (Pool i) L1 = Some L2"
      "ring L2 UsedHead (map Pool us)" "ring L2 FreeHead (Pool i # map Pool fs)"
    using lists.transfer_front [of "rtq_links q" UsedHead "Pool i" "map Pool us" FreeHead "map Pool fs"]
      shape_rings [OF shape] shape_disjoint(1) [OF shape] by auto
  let ?q = "q\<lparr>rtq_links := L2, pool := (pool q)[i := \<lparr>e_sig = 0, e_info = siginfo_zero\<rparr>],
      rtq_cnt := of_nat (length us)\<rparr>"
  have "rtq_cnt q > 0"
    using shape of_nat_pos_small [of "length (i # us)"] shape_length [OF shape]
    by (simp add: rtq_shape_def RTQ_CAPACITY_def del: of_nat_Suc)
  moreover have "lnext (rtq_links q UsedHead) = Some (Pool i)"
    using shape_rings [OF shape] by (auto intro: ring_first)
  moreover have "rtq_cnt q - 1 = of_nat (length us)"
    using shape by (simp add: rtq_shape_def)
  ultimately have run: "rtq_dequeue (Some q) out_sig out_info =
      Some (0, Some ?q, store_out (e_sig (pool q ! i)) out_sig, store_out (e_info (pool q ! i)) out_info)"
    using L(1,2) rtq_is_empty_shape [OF shape] by (simp add: rtq_dequeue_def Let_def)
  show ?thesis
    unfolding run using shape L(3,4) by (auto simp: rtq_shape_def)
qed

lemma rtq_peek_shape:
  assumes shape: "rtq_shape q (i # us) fs"
  shows "rtq_peek (Some q) out_sig out_info =
    Some (0, store_out (e_sig (pool q ! i)) out_sig, store_out (e_info (pool q ! i)) out_info)"
proof -
  have "lnext (rtq_links q UsedHead) = Some (Pool i)"
    using shape_rings [OF shape] by (auto intro: ring_first)
  then show ?thesis
    using rtq_is_empty_shape [OF shape] by (simp add: rtq_peek_def Let_def)
qed

subsection \<open>The operations on the queued entries\<close>

lemma rtq_wf_shapeE:
  assumes "rtq_wf q"
  obtains us fs where "rtq_shape q us fs" "rtq_entries q = map ((!) (pool q)) us"
    "length us + length fs = RTQ_CAPACITY"
  using assms rtq_entries_shape shape_length unfolding rtq_wf_def by blast

lemma rtq_entries_length: "rtq_wf q \<Longrightarrow> length (rtq_entries q) \<le> RTQ_CAPACITY"
  by (erule rtq_wf_shapeE) auto

lemma rtq_count_entries: "rtq_wf q \<Longrightarrow> rtq_count (Some q) = of_nat (length (rtq_entries q))"
  by (auto simp: rtq_wf_def rtq_entries_shape rtq_count_def) (simp add: rtq_shape_def)

lemma rtq_full_iff: "rtq_wf q \<Longrightarrow> rtq_is_full (Some q) \<longleftrightarrow> length (rtq_entries q) = RTQ_CAPACITY"
  by (erule rtq_wf_shapeE) (auto simp: rtq_is_full_shape)

lemma rtq_empty_iff: "rtq_wf q \<Longrightarrow> rtq_is_empty (Some q) \<longleftrightarrow> rtq_entries q = []"
  by (auto simp: rtq_wf_def rtq_entries_shape rtq_is_empty_shape)

lemma rtq_enqueue_accepts:
  assumes wf: "rtq_wf q" and sig: "SIG_MIN \<le> sig" "sig \<le> SIG_MAX"
    and room: "length (rtq_entries q) < RTQ_CAPACITY"
  shows "\<exists>q'. rtq_enqueue (Some q) sig info = Some (0, Some q') \<and> rtq_wf q'
           \<and> rtq_entries q' = rtq_entries q @ [rtq_payload sig info]"
proof -
  obtain us fs where shape: "rtq_shape q us fs"
    using wf by (auto simp: rtq_wf_def)
  obtain i fs' where fs: "fs = i # fs'"
    using room shape_length [OF shape] rtq_entries_shape [OF shape] by (cases fs) auto
  note shape' = shape [unfolded fs]
  obtain q' where q': "rtq_enqueue (Some q) sig info = Some (0, Some q')"
      "pool q' = (pool q)[i := rtq_payload sig info]" "rtq_shape q' (us @ [i]) fs'"
    using rtq_enqueue_shape [OF shape' sig] by blast
  have "i \<notin> set us" "i < length (pool q)"
    using shape' shape_bound [OF shape', of i] by (auto simp: rtq_shape_def)
  then have "rtq_entries q' = rtq_entries q @ [rtq_payload sig info]"
    using rtq_entries_shape [OF shape'] rtq_entries_shape [OF q'(3)] q'(2)
    by (auto intro!: map_cong nth_list_update_neq)
  with q' show ?thesis by (auto simp: rtq_wf_def)
qed

lemma rtq_enqueue_rejects:
  "sig < SIG_MIN \<or> sig > SIG_MAX \<Longrightarrow> rtq_enqueue (Some q) sig info = Some (2, Some q)"
  "rtq_wf q \<Longrightarrow> SIG_MIN \<le> sig \<Longrightarrow> sig \<le> SIG_MAX \<Longrightarrow> length (rtq_entries q) = RTQ_CAPACITY \<Longrightarrow>
     rtq_enqueue (Some q) sig info = Some (err ERR_BUSY, Some q)"
  by (auto simp: rtq_enqueue_def rtq_full_iff)

lemma rtq_dequeue_first:
  assumes wf: "rtq_wf q" and ne: "rtq_entries q = e # es"
  shows "\<exists>q'. rtq_dequeue (Some q) out_sig out_info =
             Some (0, Some q', store_out (e_sig e) out_sig, store_out (e_info e) out_info)
           \<and> rtq_wf q' \<and> rtq_entries q' = es"
proof -
  obtain us fs where shape: "rtq_shape q us fs"
    using wf by (auto simp: rtq_wf_def)
  obtain i us' where us: "us = i # us'" and e: "e = pool q ! i" and es: "es = map ((!) (pool q)) us'"
    using ne rtq_entries_shape [OF shape] by (cases us) auto
  note shape' = shape [unfolded us]
  obtain q' where q': "rtq_dequeue (Some q) out_sig out_info =
        Some (0, Some q', store_out (e_sig (pool q ! i)) out_sig, store_out (e_info (pool q ! i)) out_info)"
      "pool q' = (pool q)[i := \<lparr>e_sig = 0, e_info = siginfo_zero\<rparr>]" "rtq_shape q' us' (i # fs)"
    using rtq_dequeue_shape [OF shape'] by blast
  have "i \<notin> set us'"
    using shape' by (auto simp: rtq_shape_def)
  then have "rtq_entries q' = es"
    using rtq_entries_shape [OF q'(3)] q'(2) es by (auto intro!: map_cong nth_list_update_neq)
  with q' e show ?thesis by (auto simp: rtq_wf_def)
qed

lemma rtq_dequeue_empty:
  "rtq_wf q \<Longrightarrow> rtq_entries q = [] \<Longrightarrow>
     rtq_dequeue (Some q) out_sig out_info = Some (40, Some q, out_sig, out_info)"
  by (simp add: rtq_dequeue_def rtq_empty_iff)

lemma rtq_peek_first:
  assumes "rtq_wf q" "rtq_entries q = e # es"
  shows "rtq_peek (Some q) out_sig out_info =
    Some (0, store_out (e_sig e) out_sig, store_out (e_info e) out_info)"
proof -
  obtain us fs where shape: "rtq_shape q us fs"
    using assms(1) by (auto simp: rtq_wf_def)
  moreover obtain i us' where "us = i # us'" "e = pool q ! i"
    using assms(2) rtq_entries_shape [OF shape] by (cases us) auto
  ultimately show ?thesis
    using rtq_peek_shape by blast
qed

lemma rtq_init_wf:
  assumes "length (pool q) = RTQ_CAPACITY"
  shows "\<exists>q'. rtq_init (Some q) = Some (Some q') \<and> rtq_wf q' \<and> rtq_entries q' = []"
  using rtq_init_shape [OF assms] rtq_entries_shape by (fastforce simp: rtq_wf_def)

section \<open>The queue implements the bounded FIFO contract\<close>

text \<open>A client's insertion and removal, reading the return codes as success or failure.\<close>

definition rtq_put :: "int \<times> siginfo \<Rightarrow> rtq \<Rightarrow> rtq option" where
  "rtq_put x q =
     (case rtq_enqueue (Some q) (fst x) (Some (snd x)) of
        Some (r, Some q') \<Rightarrow> if r = 0 then Some q' else None
      | _ \<Rightarrow> None)"

definition rtq_take :: "rtq \<Rightarrow> ((int \<times> siginfo) \<times> rtq) option" where
  "rtq_take q =
     (case rtq_dequeue (Some q) (Some 0) (Some siginfo_zero) of
        Some (r, Some q', Some s, Some i) \<Rightarrow> if r = 0 then Some ((s, i), q') else None
      | _ \<Rightarrow> None)"

definition rtq_pairs :: "rtq \<Rightarrow> (int \<times> siginfo) list" where
  "rtq_pairs q = map (\<lambda>e. (e_sig e, e_info e)) (rtq_entries q)"

definition sig_in_range :: "int \<times> siginfo \<Rightarrow> bool" where
  "sig_in_range x \<longleftrightarrow> SIG_MIN \<le> fst x \<and> fst x \<le> SIG_MAX"

interpretation rtq: bounded_fifo rtq_wf rtq_pairs sig_in_range rtq_put rtq_take RTQ_CAPACITY
proof (unfold_locales, goal_cases)
  case (1 q)
  then show ?case by (simp add: rtq_pairs_def rtq_entries_length)
next
  case (2 q e)
  then show ?case
    using rtq_enqueue_accepts [of q "fst e" "Some (snd e)"]
    by (auto simp: rtq_put_def rtq_pairs_def sig_in_range_def rtq_payload_def)
next
  case (3 q e)
  then show ?case
    using rtq_enqueue_rejects(2) [of q "fst e" "Some (snd e)"]
    by (simp add: rtq_put_def rtq_pairs_def sig_in_range_def)
next
  case (4 q e es)
  then obtain x xs where "rtq_entries q = x # xs" "e = (e_sig x, e_info x)"
      "es = map (\<lambda>e. (e_sig e, e_info e)) xs"
    by (auto simp: rtq_pairs_def)
  then show ?case
    using rtq_dequeue_first [OF 4(1), of x xs "Some 0" "Some siginfo_zero"]
    by (auto simp: rtq_take_def rtq_pairs_def store_out_def)
next
  case (5 q)
  then show ?case
    by (simp add: rtq_take_def rtq_pairs_def rtq_dequeue_empty)
qed

text \<open>A zero-filled queue, as it comes from the allocator, and the one \<open>rtq_init\<close> makes of it.\<close>

definition rtq_zero :: rtq where
  "rtq_zero = \<lparr>rtq_links = (\<lambda>_. \<lparr>lprev = None, lnext = None\<rparr>),
               pool = replicate RTQ_CAPACITY \<lparr>e_sig = 0, e_info = siginfo_zero\<rparr>, rtq_cnt = 0\<rparr>"

definition rtq_fresh :: rtq where
  "rtq_fresh = the (the (rtq_init (Some rtq_zero)))"

lemma rtq_fresh_wf: "rtq_wf rtq_fresh" "rtq_entries rtq_fresh = []"
  using rtq_init_wf [of rtq_zero] by (auto simp: rtq_fresh_def rtq_zero_def)

text \<open>
  C19: the queue is a bounded FIFO. On a well-formed queue, any sequence of insertions of valid
  signals and removals succeeds, fails and delivers exactly as on a list of at most 64 elements:
  entries come out in the order they went in, an insertion is refused only when 64 are
  queued, and the queue is well-formed afterwards.
\<close>

theorem rtq_refines_fifo:
  assumes "rtq_wf q" "list_all (put_ok sig_in_range) ops"
  shows "rtq_wf (snd (run_qops rtq_put rtq_take ops q))
    \<and> fst (run_qops rtq_put rtq_take ops q) =
        fst (run_qops (spec_put RTQ_CAPACITY) spec_take ops (rtq_pairs q))
    \<and> rtq_pairs (snd (run_qops rtq_put rtq_take ops q)) =
        snd (run_qops (spec_put RTQ_CAPACITY) spec_take ops (rtq_pairs q))"
  using assms by (rule rtq.run_simulates)

theorem rtq_refines_fifo_witness:
  "rtq_wf rtq_fresh \<and> list_all (put_ok sig_in_range) [Put (34, siginfo_zero), Put (50, siginfo_zero), Take, Take, Take]
   \<and> fst (run_qops rtq_put rtq_take [Put (34, siginfo_zero), Put (50, siginfo_zero), Take, Take, Take] rtq_fresh) =
       [Accepted, Accepted, Took (34, siginfo_zero), Took (50, siginfo_zero), Nothing]"
  using rtq_refines_fifo [of rtq_fresh "[Put (34, siginfo_zero), Put (50, siginfo_zero), Take, Take, Take]"]
  by (simp add: rtq_fresh_wf rtq_pairs_def sig_in_range_def spec_put_def spec_take_def RTQ_CAPACITY_def)

text \<open>
  The observers tell the truth. On a well-formed queue the maintained count is the number of
  queued entries, which never exceeds 64; the empty and full tests agree with it; and a peek
  reports the oldest entry, or 40 when there is none.
\<close>

theorem rtq_observers:
  assumes "rtq_wf q"
  shows "unat (rtq_count (Some q)) = length (rtq_entries q) \<and> length (rtq_entries q) \<le> RTQ_CAPACITY
    \<and> (rtq_is_empty (Some q) \<longleftrightarrow> rtq_count (Some q) = 0)
    \<and> (rtq_is_full (Some q) \<longleftrightarrow> rtq_count (Some q) = of_nat RTQ_CAPACITY)
    \<and> rtq_peek (Some q) (Some out_sig) (Some out_info) =
        (case rtq_entries q of [] \<Rightarrow> Some (40, Some out_sig, Some out_info)
         | e # _ \<Rightarrow> Some (0, Some (e_sig e), Some (e_info e)))"
proof -
  have len: "length (rtq_entries q) \<le> RTQ_CAPACITY" by (rule rtq_entries_length [OF assms])
  then have unat: "unat (rtq_count (Some q)) = length (rtq_entries q)"
    by (simp add: rtq_count_entries [OF assms] unat_of_nat RTQ_CAPACITY_def)
  moreover have "rtq_count (Some q) = 0 \<longleftrightarrow> rtq_entries q = []"
    using unat by (metis length_0_conv unat_0 unat_eq_zero)
  moreover have "rtq_count (Some q) = of_nat RTQ_CAPACITY \<longleftrightarrow> length (rtq_entries q) = RTQ_CAPACITY"
    using unat by (simp add: word_unat_eq_iff RTQ_CAPACITY_def)
  moreover have "rtq_peek (Some q) (Some out_sig) (Some out_info) =
        (case rtq_entries q of [] \<Rightarrow> Some (40, Some out_sig, Some out_info)
         | e # _ \<Rightarrow> Some (0, Some (e_sig e), Some (e_info e)))"
    using rtq_peek_first [OF assms] rtq_empty_iff [OF assms]
    by (cases "rtq_entries q") (auto simp: store_out_def rtq_peek_def)
  ultimately show ?thesis
    using len rtq_empty_iff [OF assms] rtq_full_iff [OF assms] by simp
qed

theorem rtq_observers_witness:
  "rtq_wf rtq_fresh \<and> rtq_peek (Some rtq_fresh) (Some 0) (Some siginfo_zero) = Some (40, Some 0, Some siginfo_zero)
   \<and> rtq_count (Some rtq_fresh) = 0"
  using rtq_observers [OF rtq_fresh_wf(1), of 0 siginfo_zero]
  by (simp add: rtq_fresh_wf unat_eq_zero)

end
