(* ===== verification/Signal.thy ===== *)
theory Signal
  imports Rt_Queue
begin

text \<open>
  The per-thread signal state of \<^verbatim>\<open>src/kernel/syscall/signal/signal.c\<close> and the signal-set
  operations of \<^verbatim>\<open>include/kernel/signal/signal.h\<close>: a mask and a pending set as two 32-bit words
  each, and the real-time queue. Signal sets are shown to be sets; fetching is shown to deliver
  the oldest unmasked real-time signal first and the lowest unmasked pending signal otherwise.
\<close>

section \<open>Signal sets\<close>

definition ULONG_BITS :: nat where
  "ULONG_BITS = 32"

definition SIGSET_WORDS :: nat where
  "SIGSET_WORDS = (64 + (ULONG_BITS - 1)) div ULONG_BITS"

record sigset =
  sbits :: "u32 list"

definition SIG_IS_REALTIME :: "int \<Rightarrow> bool" where
  "SIG_IS_REALTIME sig \<longleftrightarrow> sig \<ge> SIGRTMIN \<and> sig \<le> SIGRTMAX"

definition sigemptyset :: "sigset option \<Rightarrow> sigset option" where
  "sigemptyset = map_option (\<lambda>ss. ss\<lparr>sbits := fold (\<lambda>i b. b[i := 0]) [0..<SIGSET_WORDS] (sbits ss)\<rparr>)"

definition sigfillset :: "sigset option \<Rightarrow> sigset option" where
  "sigfillset = map_option (\<lambda>ss. ss\<lparr>sbits := fold (\<lambda>i b. b[i := NOT 0]) [0..<SIGSET_WORDS] (sbits ss)\<rparr>)"

definition sig_idx :: "int \<Rightarrow> nat" where
  "sig_idx sig = nat (sig - 1) div ULONG_BITS"

definition sig_off :: "int \<Rightarrow> nat" where
  "sig_off sig = nat (sig - 1) mod ULONG_BITS"

definition sigaddset :: "sigset option \<Rightarrow> int \<Rightarrow> sigset option" where
  "sigaddset setp sig =
     (case setp of
        None \<Rightarrow> None
      | Some ss \<Rightarrow>
          if sig < SIG_MIN \<or> sig > SIG_MAX then Some ss
          else Some (ss\<lparr>sbits := (sbits ss)[sig_idx sig := sbits ss ! sig_idx sig OR push_bit (sig_off sig) 1]\<rparr>))"

definition sigdelset :: "sigset option \<Rightarrow> int \<Rightarrow> sigset option" where
  "sigdelset setp sig =
     (case setp of
        None \<Rightarrow> None
      | Some ss \<Rightarrow>
          if sig < SIG_MIN \<or> sig > SIG_MAX then Some ss
          else Some (ss\<lparr>sbits := (sbits ss)[sig_idx sig := sbits ss ! sig_idx sig AND NOT (push_bit (sig_off sig) 1)]\<rparr>))"

definition sigismember :: "sigset option \<Rightarrow> int \<Rightarrow> bool" where
  "sigismember setp sig =
     (case setp of
        None \<Rightarrow> False
      | Some ss \<Rightarrow>
          if sig < SIG_MIN \<or> sig > SIG_MAX then False
          else sbits ss ! sig_idx sig AND push_bit (sig_off sig) 1 \<noteq> 0)"

section \<open>Thread signal state\<close>

record thread_sigstate =
  mask :: sigset
  pending :: sigset
  rt_queue :: rtq

definition signal_thread_init :: "thread_sigstate option \<Rightarrow> thread_sigstate option option" where
  "signal_thread_init sp =
     (case sp of
        None \<Rightarrow> Some None
      | Some s \<Rightarrow> do {
          let s = s\<lparr>mask := the (sigemptyset (Some (mask s)))\<rparr>;
          let s = s\<lparr>pending := the (sigemptyset (Some (pending s)))\<rparr>;
          q \<leftarrow> rtq_init (Some (rt_queue s));
          Some (Some (s\<lparr>rt_queue := the q\<rparr>))
        })"

definition signal_add :: "thread_sigstate option \<Rightarrow> int \<Rightarrow> siginfo option
    \<Rightarrow> (int \<times> thread_sigstate option) option" where
  "signal_add sp sig info =
     (case sp of
        None \<Rightarrow> Some (- EINVAL, None)
      | Some s \<Rightarrow>
          if sig < SIG_MIN \<or> sig > SIG_MAX then Some (- EINVAL, Some s)
          else if SIG_IS_REALTIME sig then do {
            (r, q) \<leftarrow> rtq_enqueue (Some (rt_queue s)) sig info;
            Some (r, Some (s\<lparr>rt_queue := the q\<rparr>))
          }
          else Some (0, Some (s\<lparr>pending := the (sigaddset (Some (pending s)) sig)\<rparr>)))"

text \<open>
  The real-time half of \<open>signal_fetch\<close> and \<open>signal_has_pending_unmasked\<close>: the queue is not empty,
  the peek succeeds and the head's signal is not in the mask. The locals handed to the peek are
  only read after it has stored to them.
\<close>

definition rt_head_deliverable :: "thread_sigstate \<Rightarrow> bool option" where
  "rt_head_deliverable s =
     (if rtq_is_empty (Some (rt_queue s)) then Some False
      else do {
        (r, sig, info) \<leftarrow> rtq_peek (Some (rt_queue s)) (Some 0) (Some siginfo_zero);
        Some (r = 0 \<and> \<not> sigismember (Some (mask s)) (the sig))
      })"

text \<open>The scan over the pending set, from \<open>SIG_MIN\<close> up to \<open>SIG_MAX\<close>.\<close>

definition pending_scan :: "thread_sigstate \<Rightarrow> int option" where
  "pending_scan s =
     find (\<lambda>sig. sigismember (Some (pending s)) sig \<and> \<not> sigismember (Some (mask s)) sig)
          [SIG_MIN..SIG_MAX]"

definition signal_fetch :: "thread_sigstate option \<Rightarrow> int option \<Rightarrow> siginfo option
    \<Rightarrow> (int \<times> thread_sigstate option \<times> int option \<times> siginfo option) option" where
  "signal_fetch sp out_sig out_info =
     (case (sp, out_sig) of
        (Some s, Some _) \<Rightarrow> do {
          rt \<leftarrow> rt_head_deliverable s;
          if rt then do {
            (r, q, out_sig, out_info) \<leftarrow> rtq_dequeue (Some (rt_queue s)) out_sig out_info;
            Some (0, Some (s\<lparr>rt_queue := the q\<rparr>), out_sig, out_info)
          }
          else (case pending_scan s of
              None \<Rightarrow> Some (- ENOENT, Some s, out_sig, out_info)
            | Some sig \<Rightarrow>
                Some (0, Some (s\<lparr>pending := the (sigdelset (Some (pending s)) sig)\<rparr>),
                      store_out sig out_sig,
                      store_out (siginfo_zero\<lparr>si_signo := sig\<rparr>) out_info))
        }
      | _ \<Rightarrow> Some (- EINVAL, sp, out_sig, out_info))"

definition signal_block :: "thread_sigstate option \<Rightarrow> sigset option \<Rightarrow> int \<times> thread_sigstate option" where
  "signal_block sp setp =
     (case (sp, setp) of
        (Some s, Some ss) \<Rightarrow>
          (0, Some (s\<lparr>mask := (mask s)\<lparr>sbits :=
                fold (\<lambda>i b. b[i := b ! i OR sbits ss ! i]) [0..<SIGSET_WORDS] (sbits (mask s))\<rparr>\<rparr>))
      | _ \<Rightarrow> (- EINVAL, sp))"

definition signal_unblock :: "thread_sigstate option \<Rightarrow> sigset option \<Rightarrow> int \<times> thread_sigstate option" where
  "signal_unblock sp setp =
     (case (sp, setp) of
        (Some s, Some ss) \<Rightarrow>
          (0, Some (s\<lparr>mask := (mask s)\<lparr>sbits :=
                fold (\<lambda>i b. b[i := b ! i AND NOT (sbits ss ! i)]) [0..<SIGSET_WORDS] (sbits (mask s))\<rparr>\<rparr>))
      | _ \<Rightarrow> (- EINVAL, sp))"

definition signal_has_pending_unmasked :: "thread_sigstate option \<Rightarrow> bool option" where
  "signal_has_pending_unmasked sp =
     (case sp of
        None \<Rightarrow> Some False
      | Some s \<Rightarrow> do {
          rt \<leftarrow> rt_head_deliverable s;
          Some (rt \<or> pending_scan s \<noteq> None)
        })"

definition signal_clear_all :: "thread_sigstate option \<Rightarrow> thread_sigstate option" where
  "signal_clear_all = map_option (\<lambda>s. s\<lparr>pending := the (sigemptyset (Some (pending s)))\<rparr>)"

section \<open>Signal sets are sets of signal numbers\<close>

definition sigset_wf :: "sigset \<Rightarrow> bool" where
  "sigset_wf ss \<longleftrightarrow> length (sbits ss) = SIGSET_WORDS"

definition sig_valid :: "int \<Rightarrow> bool" where
  "sig_valid sig \<longleftrightarrow> SIG_MIN \<le> sig \<and> sig \<le> SIG_MAX"

lemma sigset_words [simp]: "SIGSET_WORDS = 2"
  by (simp add: SIGSET_WORDS_def ULONG_BITS_def)

lemma upt_sigset_words: "[0..<2] = [0, Suc 0]"
  by (simp add: numeral_2_eq_2)

lemma sig_idx_less: "sig_valid sig \<Longrightarrow> sig_idx sig < 2"
  by (auto simp: sig_idx_def sig_valid_def ULONG_BITS_def)

lemma sig_off_less: "sig_off sig < LENGTH(32)"
  by (simp add: sig_off_def ULONG_BITS_def)

lemma sig_pos_inj:
  assumes "sig_valid x" "sig_valid y" "sig_idx x = sig_idx y" "sig_off x = sig_off y"
  shows "x = y"
proof -
  have "nat (x - 1) = nat (y - 1)"
    using assms(3,4) by (metis div_mult_mod_eq sig_idx_def sig_off_def)
  then show ?thesis
    using assms(1,2) by (simp add: sig_valid_def eq_nat_nat_iff)
qed

lemma sigismember_bit:
  "sigismember (Some ss) sig \<longleftrightarrow> sig_valid sig \<and> bit (sbits ss ! sig_idx sig) (sig_off sig)"
  by (auto simp: sigismember_def sig_valid_def push_bit_of_1 and_exp_eq_0_iff_not_bit)

lemma sigismember_empty: "sigset_wf ss \<Longrightarrow> \<not> sigismember (Some (the (sigemptyset (Some ss)))) sig"
  using sig_idx_less [of sig]
  by (auto simp: sigismember_bit sigemptyset_def upt_sigset_words sigset_wf_def less_2_cases_iff)

lemma sigismember_fill:
  "sigset_wf ss \<Longrightarrow> sigismember (Some (the (sigfillset (Some ss)))) sig \<longleftrightarrow> sig_valid sig"
  using sig_idx_less [of sig] sig_off_less [of sig]
  by (auto simp: sigismember_bit sigfillset_def upt_sigset_words sigset_wf_def less_2_cases_iff bit_simps)

lemma sigismember_add:
  assumes "sigset_wf ss" "sig_valid x"
  shows "sigismember (Some (the (sigaddset (Some ss) x))) y \<longleftrightarrow> y = x \<or> sigismember (Some ss) y"
  using assms sig_idx_less [of x] sig_off_less [of x] sig_pos_inj [of x y]
  by (cases "sig_idx x = sig_idx y")
     (auto simp: sigismember_bit sigaddset_def sigset_wf_def sig_valid_def bit_simps)

lemma sigismember_del:
  assumes "sigset_wf ss" "sig_valid x"
  shows "sigismember (Some (the (sigdelset (Some ss) x))) y \<longleftrightarrow> y \<noteq> x \<and> sigismember (Some ss) y"
  using assms sig_idx_less [of x] sig_off_less [of x] sig_off_less [of y] sig_pos_inj [of x y]
  by (cases "sig_idx x = sig_idx y")
     (auto simp: sigismember_bit sigdelset_def sigset_wf_def sig_valid_def bit_simps)

lemmas sigismember_simps = sigismember_empty sigismember_fill sigismember_add sigismember_del

lemma sigset_wf_ops [simp]:
  "sigset_wf (the (sigemptyset (Some ss))) \<longleftrightarrow> sigset_wf ss"
  "sigset_wf (the (sigaddset (Some ss) sig)) \<longleftrightarrow> sigset_wf ss"
  "sigset_wf (the (sigdelset (Some ss) sig)) \<longleftrightarrow> sigset_wf ss"
  by (auto simp: sigset_wf_def sigemptyset_def sigaddset_def sigdelset_def upt_sigset_words)

section \<open>Specification of a thread's signals\<close>

text \<open>
  The abstract state: the blocked signals, the pending ordinary signals, and the queued
  real-time signals, oldest first.
\<close>

type_synonym sig_spec = "int set \<times> int set \<times> rtq_entry list"

definition members :: "sigset \<Rightarrow> int set" where
  "members ss = {sig. sigismember (Some ss) sig}"

definition sig_abs :: "thread_sigstate \<Rightarrow> sig_spec" where
  "sig_abs s = (members (mask s), members (pending s), rtq_entries (rt_queue s))"

fun spec_add :: "int \<Rightarrow> siginfo option \<Rightarrow> sig_spec \<Rightarrow> int \<times> sig_spec" where
  "spec_add sig info (B, P, Q) =
     (if \<not> sig_valid sig then (2, (B, P, Q))
      else if \<not> SIG_IS_REALTIME sig then (0, (B, insert sig P, Q))
      else if length Q < RTQ_CAPACITY then (0, (B, P, Q @ [rtq_payload sig info]))
      else (err ERR_BUSY, (B, P, Q)))"

fun spec_fetch :: "sig_spec \<Rightarrow> (int \<times> siginfo \<times> sig_spec) option" where
  "spec_fetch (B, P, Q) =
     (if Q \<noteq> [] \<and> e_sig (hd Q) \<notin> B then Some (e_sig (hd Q), e_info (hd Q), (B, P, tl Q))
      else if P - B = {} then None
      else Some (Min (P - B), siginfo_zero\<lparr>si_signo := Min (P - B)\<rparr>, (B, P - {Min (P - B)}, Q)))"

text \<open>
  The invariant: two-word sets, a well-formed queue holding real-time signals only, and no
  real-time signal among the pending ones.
\<close>

definition sigstate_wf :: "thread_sigstate \<Rightarrow> bool" where
  "sigstate_wf s \<longleftrightarrow> sigset_wf (mask s) \<and> sigset_wf (pending s) \<and> rtq_wf (rt_queue s)
     \<and> (\<forall>e \<in> set (rtq_entries (rt_queue s)). SIG_IS_REALTIME (e_sig e))
     \<and> (\<forall>sig \<in> members (pending s). \<not> SIG_IS_REALTIME sig)"

lemma members_sub: "members ss \<subseteq> {SIG_MIN..SIG_MAX}"
  by (auto simp: members_def sigismember_bit sig_valid_def)

lemma members_add: "sigset_wf ss \<Longrightarrow> sig_valid sig \<Longrightarrow>
    members (the (sigaddset (Some ss) sig)) = insert sig (members ss)"
  by (auto simp: members_def sigismember_simps)

lemma members_del: "sigset_wf ss \<Longrightarrow> sig_valid sig \<Longrightarrow>
    members (the (sigdelset (Some ss) sig)) = members ss - {sig}"
  by (auto simp: members_def sigismember_simps)

lemma members_empty: "sigset_wf ss \<Longrightarrow> members (the (sigemptyset (Some ss))) = {}"
  by (auto simp: members_def sigismember_simps)

lemma find_upto_Min:
  assumes "S = {x \<in> {a..b}. P x}"
  shows "find P [a..b] = (if S = {} then None else Some (Min S))"
proof (cases "S = {}")
  case True
  with assms show ?thesis by (auto simp: find_None_iff)
next
  case False
  have fin: "finite S" by (rule finite_subset [of S "{a..b}"]) (use assms in auto)
  have Min: "Min S \<in> S" using Min_in [OF fin False] .
  then have split: "[a..b] = [a..Min S - 1] @ Min S # [Min S + 1..b]"
    using assms by (intro upto_split3) auto
  have "\<not> P x" if "x \<in> set [a..Min S - 1]" for x
    using that Min_le [OF fin, of x] assms Min by fastforce
  then have "find P [a..Min S - 1] = None" by (auto simp: find_None_iff)
  then have "find P [a..b] = Some (Min S)"
    using Min assms unfolding split by (simp add: find_append)
  with False show ?thesis by simp
qed

lemma pending_scan_Min:
  "pending_scan s = (if members (pending s) - members (mask s) = {} then None
                     else Some (Min (members (pending s) - members (mask s))))"
  unfolding pending_scan_def
  using members_sub [of "pending s"] by (intro find_upto_Min) (auto simp: members_def)

lemma rt_head_deliverable_spec:
  assumes "sigstate_wf s"
  shows "rt_head_deliverable s =
    Some (rtq_entries (rt_queue s) \<noteq> [] \<and> e_sig (hd (rtq_entries (rt_queue s))) \<notin> members (mask s))"
  using assms rtq_peek_first [of "rt_queue s"] rtq_empty_iff [of "rt_queue s"]
  by (cases "rtq_entries (rt_queue s)")
     (auto simp: sigstate_wf_def rt_head_deliverable_def members_def store_out_def)

lemma members_code: "members ss = set (filter (sigismember (Some ss)) [SIG_MIN..SIG_MAX])"
  using members_sub [of ss] by (auto simp: members_def)

section \<open>The operations implement the specification\<close>

text \<open>Initialisation, on a zero-filled thread structure.\<close>

definition sigset_zero :: sigset where
  "sigset_zero = \<lparr>sbits = [0, 0]\<rparr>"

definition sigstate_fresh :: thread_sigstate where
  "sigstate_fresh = the (the (signal_thread_init
     (Some \<lparr>mask = sigset_zero, pending = sigset_zero, rt_queue = rtq_zero\<rparr>)))"

lemma signal_thread_init_abs:
  assumes "sigset_wf (mask s)" "sigset_wf (pending s)" "length (pool (rt_queue s)) = RTQ_CAPACITY"
  shows "\<exists>s'. signal_thread_init (Some s) = Some (Some s') \<and> sigstate_wf s' \<and> sig_abs s' = ({}, {}, [])"
  using assms rtq_init_wf [OF assms(3)]
  by (auto simp: signal_thread_init_def sigstate_wf_def sig_abs_def members_empty)

lemma sigstate_fresh_wf: "sigstate_wf sigstate_fresh" "sig_abs sigstate_fresh = ({}, {}, [])"
  using signal_thread_init_abs [of "\<lparr>mask = sigset_zero, pending = sigset_zero, rt_queue = rtq_zero\<rparr>"]
  by (auto simp: sigstate_fresh_def sigset_zero_def sigset_wf_def rtq_zero_def)

text \<open>Signals 5 and 9 pending, 5 blocked.\<close>

definition sigstate_two :: thread_sigstate where
  "sigstate_two = sigstate_fresh\<lparr>mask := \<lparr>sbits = [0x10, 0]\<rparr>, pending := \<lparr>sbits = [0x110, 0]\<rparr>\<rparr>"

lemma sigstate_two_members: "members \<lparr>sbits = [0x10, 0]\<rparr> = {5}" "members \<lparr>sbits = [0x110, 0]\<rparr> = {5, 9}"
  unfolding members_code by code_simp+

lemma sigstate_two_wf: "sigstate_wf sigstate_two" "sig_abs sigstate_two = ({5}, {5, 9}, [])"
  using sigstate_fresh_wf
  by (auto simp: sigstate_two_def sigstate_wf_def sig_abs_def sigset_wf_def sigstate_two_members
      SIG_IS_REALTIME_def)

lemma sig_abs_fields [simp]:
  "sig_abs (s\<lparr>rt_queue := q\<rparr>) = (members (mask s), members (pending s), rtq_entries q)"
  "sig_abs (s\<lparr>pending := p\<rparr>) = (members (mask s), members p, rtq_entries (rt_queue s))"
  "sig_abs (s\<lparr>mask := m\<rparr>) = (members m, members (pending s), rtq_entries (rt_queue s))"
  by (simp_all add: sig_abs_def)

lemma rtq_payload_sig [simp]: "e_sig (rtq_payload sig info) = sig"
  by (simp add: rtq_payload_def)

lemma realtime_valid: "SIG_IS_REALTIME sig \<Longrightarrow> SIG_MIN \<le> sig \<and> sig \<le> SIG_MAX"
  by (simp add: SIG_IS_REALTIME_def)

text \<open>
  Adding a signal implements the specification. An invalid number is refused with 2, an
  ordinary signal joins the pending set, a real-time signal is appended to the queue, and a full
  queue answers \<open>ERR_BUSY\<close> and stays as it was; the invariant is kept.
\<close>

theorem signal_add_refines:
  assumes "sigstate_wf s"
  shows "\<exists>s'. signal_add (Some s) sig info = Some (fst (spec_add sig info (sig_abs s)), Some s')
           \<and> sigstate_wf s' \<and> sig_abs s' = snd (spec_add sig info (sig_abs s))"
proof (cases "sig_valid sig \<and> SIG_IS_REALTIME sig")
  case True
  have wf: "rtq_wf (rt_queue s)" using assms by (simp add: sigstate_wf_def)
  show ?thesis
  proof (cases "length (rtq_entries (rt_queue s)) < RTQ_CAPACITY")
    case room: True
    obtain q' where "rtq_enqueue (Some (rt_queue s)) sig info = Some (0, Some q')" "rtq_wf q'"
        "rtq_entries q' = rtq_entries (rt_queue s) @ [rtq_payload sig info]"
      using rtq_enqueue_accepts [OF wf _ _ room] True realtime_valid by blast
    then show ?thesis
      using assms True room by (auto simp: signal_add_def sig_abs_def sig_valid_def sigstate_wf_def)
  next
    case False
    then have "rtq_enqueue (Some (rt_queue s)) sig info = Some (err ERR_BUSY, Some (rt_queue s))"
      using rtq_enqueue_rejects(2) [OF wf] rtq_entries_length [OF wf] realtime_valid True by simp
    then show ?thesis
      using assms True False by (auto simp: signal_add_def sig_abs_def sig_valid_def)
  qed
next
  case False
  then show ?thesis
    using assms members_add [of "pending s" sig]
    by (auto simp: signal_add_def sig_abs_def sig_valid_def sigstate_wf_def)
qed

theorem signal_add_refines_witness:
  "sigstate_wf sigstate_fresh
   \<and> (\<exists>s'. signal_add (Some sigstate_fresh) 40 None = Some (0, Some s')
            \<and> sig_abs s' = ({}, {}, [rtq_payload 40 None]))
   \<and> (\<exists>s'. signal_add (Some sigstate_fresh) 9 None = Some (0, Some s') \<and> sig_abs s' = ({}, {9}, []))"
  using signal_add_refines [OF sigstate_fresh_wf(1), of 40 None]
    signal_add_refines [OF sigstate_fresh_wf(1), of 9 None]
  by (auto simp: sigstate_fresh_wf sig_valid_def SIG_IS_REALTIME_def RTQ_CAPACITY_def)

text \<open>
  C24: fetching implements the specification. The oldest real-time signal is delivered if it is
  not masked; otherwise the lowest pending signal that is not masked; otherwise the call
  returns 40 and changes nothing. The delivered signal, and nothing else, leaves the state, and
  the invariant is kept.
\<close>

theorem signal_fetch_refines:
  assumes "sigstate_wf s"
  shows "case spec_fetch (sig_abs s) of
      None \<Rightarrow> signal_fetch (Some s) (Some out) out_info = Some (40, Some s, Some out, out_info)
    | Some (sig, info, a) \<Rightarrow>
        \<exists>s'. signal_fetch (Some s) (Some out) out_info = Some (0, Some s', Some sig, store_out info out_info)
           \<and> sigstate_wf s' \<and> sig_abs s' = a"
proof (cases "rt_head_deliverable s = Some True")
  case True
  then obtain e es where Q: "rtq_entries (rt_queue s) = e # es" "e_sig e \<notin> members (mask s)"
    using rt_head_deliverable_spec [OF assms] by (cases "rtq_entries (rt_queue s)") auto
  moreover obtain q' where "rtq_dequeue (Some (rt_queue s)) (Some out) out_info =
        Some (0, Some q', Some (e_sig e), store_out (e_info e) out_info)" "rtq_wf q'" "rtq_entries q' = es"
    using rtq_dequeue_first [OF _ Q(1), of "Some out" out_info] assms
    by (auto simp: sigstate_wf_def store_out_def)
  ultimately show ?thesis
    using assms True by (auto simp: signal_fetch_def sig_abs_def sigstate_wf_def)
next
  case False
  let ?D = "members (pending s) - members (mask s)"
  have Min: "Min ?D \<in> ?D" if "?D \<noteq> {}"
    using that finite_subset [OF members_sub [of "pending s"]] by (intro Min_in) auto
  have wf: "sigset_wf (pending s)" using assms by (simp add: sigstate_wf_def)
  have "sig_valid (Min ?D)" if "?D \<noteq> {}"
    using Min [OF that] members_sub [of "pending s"] by (auto simp: sig_valid_def)
  then have "?D \<noteq> {} \<Longrightarrow> members (the (sigdelset (Some (pending s)) (Min ?D))) = members (pending s) - {Min ?D}"
    using members_del [OF wf] by blast
  with False assms show ?thesis
    unfolding rt_head_deliverable_spec [OF assms]
    by (auto simp: signal_fetch_def sig_abs_def rt_head_deliverable_spec [OF assms] pending_scan_Min
        store_out_def sigstate_wf_def)
qed

theorem signal_fetch_refines_witness:
  "sigstate_wf sigstate_two
   \<and> (\<exists>s'. signal_fetch (Some sigstate_two) (Some 0) None = Some (0, Some s', Some 9, None)
            \<and> sig_abs s' = ({5}, {5}, []))"
  using signal_fetch_refines [OF sigstate_two_wf(1), of 0 None]
  by (auto simp: sigstate_two_wf store_out_def insert_Diff_if)

text \<open>
  The scheduler's quick check agrees with the fetch. It answers true exactly when the next
  \<open>signal_fetch\<close> delivers a signal.
\<close>

theorem has_pending_iff_fetch_delivers:
  assumes "sigstate_wf s"
  shows "signal_has_pending_unmasked (Some s) =
           map_option (\<lambda>(r, _). r = 0) (signal_fetch (Some s) (Some out) out_info)"
proof -
  have "rtq_dequeue (Some (rt_queue s)) (Some out) out_info \<noteq> None"
    if "rt_head_deliverable s = Some True"
    using that rt_head_deliverable_spec [OF assms] assms
      rtq_dequeue_first [of "rt_queue s" _ _ "Some out" out_info]
    by (cases "rtq_entries (rt_queue s)") (auto simp: sigstate_wf_def)
  then show ?thesis
    using rt_head_deliverable_spec [OF assms]
    by (auto simp: signal_has_pending_unmasked_def signal_fetch_def split: option.split)
qed

theorem has_pending_iff_fetch_delivers_witness:
  "sigstate_wf sigstate_fresh \<and> signal_has_pending_unmasked (Some sigstate_fresh) =
     map_option (\<lambda>(r, _). r = 0) (signal_fetch (Some sigstate_fresh) (Some 0) None)"
  using has_pending_iff_fetch_delivers [OF sigstate_fresh_wf(1), of 0 None] by (simp add: sigstate_fresh_wf)

lemma sigset_fold_nth:
  assumes "length b = SIGSET_WORDS" "i < SIGSET_WORDS"
  shows "fold (\<lambda>i b. b[i := f (b ! i) (c ! i)]) [0..<SIGSET_WORDS] b ! i = f (b ! i) (c ! i)"
  using assms by (auto simp: upt_sigset_words less_2_cases_iff)

lemma sigset_fold_length: "length (fold (\<lambda>i b. b[i := f i b]) is b) = length b"
  by (induction "is" arbitrary: b) auto

lemma members_fold:
  assumes "sigset_wf ss"
  shows "members (ss\<lparr>sbits := fold (\<lambda>i b. b[i := f (b ! i) (c ! i)]) [0..<SIGSET_WORDS] (sbits ss)\<rparr>) =
    {sig. sig_valid sig \<and> bit (f (sbits ss ! sig_idx sig) (c ! sig_idx sig)) (sig_off sig)}"
  using assms sigset_fold_nth [of "sbits ss" _ f c] sig_idx_less
  by (auto simp: members_def sigismember_bit sigset_wf_def)

lemma members_or:
  assumes "sigset_wf ss"
  shows "members (ss\<lparr>sbits := fold (\<lambda>i b. b[i := b ! i OR sbits t ! i]) [0..<SIGSET_WORDS] (sbits ss)\<rparr>) =
    members ss \<union> members t"
  unfolding members_fold [OF assms, where f = "(OR)"]
  by (auto simp: members_def sigismember_bit bit_or_iff)

lemma members_andnot:
  assumes "sigset_wf ss"
  shows "members (ss\<lparr>sbits := fold (\<lambda>i b. b[i := b ! i AND NOT (sbits t ! i)]) [0..<SIGSET_WORDS] (sbits ss)\<rparr>) =
    members ss - members t"
  unfolding members_fold [OF assms, where f = "\<lambda>a b. a AND NOT b"]
  using sig_off_less by (auto simp: members_def sigismember_bit bit_simps)

text \<open>
  Blocking adds the set's signals to the mask and unblocking removes them, leaving the
  pending signals and the queue alone.
\<close>

theorem block_unblock_masks:
  assumes "sigstate_wf s" "sigset_wf ss"
  shows "\<exists>s1 s2. signal_block (Some s) (Some ss) = (0, Some s1)
      \<and> sig_abs s1 = (members (mask s) \<union> members ss, members (pending s), rtq_entries (rt_queue s))
      \<and> signal_unblock (Some s) (Some ss) = (0, Some s2)
      \<and> sig_abs s2 = (members (mask s) - members ss, members (pending s), rtq_entries (rt_queue s))
      \<and> sigstate_wf s1 \<and> sigstate_wf s2"
proof -
  have "sigset_wf (mask s)" using assms(1) by (simp add: sigstate_wf_def)
  note mem = members_or [OF this, of ss] members_andnot [OF this, of ss]
  show ?thesis
    unfolding signal_block_def signal_unblock_def
    using assms by (auto simp del: sigset_words simp: mem sigstate_wf_def sigset_wf_def sigset_fold_length)
qed

theorem block_unblock_masks_witness:
  "sigstate_wf sigstate_two \<and> sigset_wf \<lparr>sbits = [0x110, 0]\<rparr>
   \<and> (\<exists>s1. signal_block (Some sigstate_two) (Some \<lparr>sbits = [0x110, 0]\<rparr>) = (0, Some s1)
            \<and> sig_abs s1 = ({5, 9}, {5, 9}, []))"
  using block_unblock_masks [OF sigstate_two_wf(1), of "\<lparr>sbits = [0x110, 0]\<rparr>"] sigstate_two_wf
  by (auto simp: sigset_wf_def sig_abs_def sigstate_two_members)

text \<open>
  C39: head-of-line blocking. A queued real-time signal that is not masked is not delivered, and is
  not reported as deliverable, while a masked one is ahead of it in the queue and no ordinary
  signal is deliverable.
\<close>

theorem masked_head_hides_queue:
  assumes "sigstate_wf s" "rtq_entries (rt_queue s) = e # es" "e_sig e \<in> members (mask s)"
    and "members (pending s) \<subseteq> members (mask s)"
  shows "signal_has_pending_unmasked (Some s) = Some False
    \<and> signal_fetch (Some s) (Some out) out_info = Some (40, Some s, Some out, out_info)"
  using assms rt_head_deliverable_spec [OF assms(1)] Diff_eq_empty_iff [of "members (pending s)"]
  by (simp add: signal_has_pending_unmasked_def signal_fetch_def pending_scan_Min)

text \<open>Signals 34 and 35 queued in this order, 34 blocked.\<close>

definition rtq_34_35 :: rtq where
  "rtq_34_35 = snd (run_qops rtq_put rtq_take [Put (34, siginfo_zero), Put (35, siginfo_zero)] rtq_fresh)"

definition sigstate_34_35 :: thread_sigstate where
  "sigstate_34_35 = \<lparr>mask = \<lparr>sbits = [0, 2]\<rparr>, pending = sigset_zero, rt_queue = rtq_34_35\<rparr>"

lemma rtq_34_35_wf: "rtq_wf rtq_34_35" "\<exists>e f. rtq_entries rtq_34_35 = [e, f] \<and> e_sig e = 34 \<and> e_sig f = 35"
proof -
  have ok: "list_all (put_ok sig_in_range) [Put (34, siginfo_zero), Put (35, siginfo_zero)]"
    by (simp add: sig_in_range_def)
  note run = rtq.run_simulates [OF rtq_fresh_wf(1) ok, folded rtq_34_35_def]
  then show "rtq_wf rtq_34_35" by simp
  from run have "rtq_pairs rtq_34_35 = [(34, siginfo_zero), (35, siginfo_zero)]"
    by (simp add: spec_put_def RTQ_CAPACITY_def rtq_pairs_def rtq_fresh_wf)
  then show "\<exists>e f. rtq_entries rtq_34_35 = [e, f] \<and> e_sig e = 34 \<and> e_sig f = 35"
    by (auto simp: rtq_pairs_def)
qed

lemma sigstate_34_35_members: "members (mask sigstate_34_35) = {34}" "members (pending sigstate_34_35) = {}"
  unfolding sigstate_34_35_def thread_sigstate.simps members_code by code_simp+

lemma sigstate_34_35_wf: "sigstate_wf sigstate_34_35"
  using rtq_34_35_wf sigstate_34_35_members
  by (auto simp: sigstate_wf_def sigstate_34_35_def sigset_wf_def sigset_zero_def SIG_IS_REALTIME_def)

theorem masked_head_hides_queue_witness:
  "signal_fetch (Some sigstate_34_35) (Some 0) None = Some (40, Some sigstate_34_35, Some 0, None)
   \<and> (\<exists>e \<in> set (rtq_entries (rt_queue sigstate_34_35)). e_sig e \<notin> members (mask sigstate_34_35))"
proof -
  obtain e f where ef: "rtq_entries (rt_queue sigstate_34_35) = [e, f]" "e_sig e = 34" "e_sig f = 35"
    using rtq_34_35_wf(2) by (auto simp: sigstate_34_35_def)
  then show ?thesis
    using masked_head_hides_queue [OF sigstate_34_35_wf ef(1), of 0 None] by (simp add: sigstate_34_35_members)
qed

end
