(* ===== verification/Frame_Spec.thy ===== *)
theory Frame_Spec
  imports Prelude
begin

text \<open>
  The contract of a physical frame allocator, as its clients (page tables, the heap, the program
  loader) rely on it: an allocation hands out a managed frame that was available, or address 0
  when there is none, and a release makes the frame available again.
\<close>

text \<open>
  A client's loops: allocating \<open>n\<close> frames, stopping at the first failure, and releasing a list of
  frames.
\<close>

fun alloc_frames :: "('s \<Rightarrow> (u32 \<times> 's) option) \<Rightarrow> nat \<Rightarrow> 's \<Rightarrow> (u32 list \<times> 's) option" where
  "alloc_frames alloc 0 s = Some ([], s)"
| "alloc_frames alloc (Suc n) s = do {
     (a, s) \<leftarrow> alloc s;
     if a = 0 then Some ([], s)
     else do {
       (as, s) \<leftarrow> alloc_frames alloc n s;
       Some (a # as, s)
     }
   }"

fun release_frames :: "(u32 \<Rightarrow> 's \<Rightarrow> (int \<times> 's) option) \<Rightarrow> u32 list \<Rightarrow> 's \<Rightarrow> 's option" where
  "release_frames rel [] s = Some s"
| "release_frames rel (a # as) s = do {
     (r, s) \<leftarrow> rel a s;
     release_frames rel as s
   }"

locale frame_allocator =
  fixes inv :: "'s \<Rightarrow> bool"
    and frames :: "'s \<Rightarrow> u32 set"
    and avail :: "'s \<Rightarrow> u32 set"
    and alloc :: "'s \<Rightarrow> (u32 \<times> 's) option"
    and rel :: "u32 \<Rightarrow> 's \<Rightarrow> (int \<times> 's) option"
  assumes avail_frames: "avail s \<subseteq> frames s"
    and finite_frames: "finite (frames s)"
    and zero_frame: "0 \<notin> frames s"
    and alloc_available: "inv s \<Longrightarrow> avail s \<noteq> {} \<Longrightarrow>
          \<exists>a s'. alloc s = Some (a, s') \<and> a \<in> avail s \<and> inv s' \<and> frames s' = frames s
                 \<and> avail s' = avail s - {a}"
    and alloc_exhausted: "inv s \<Longrightarrow> avail s = {} \<Longrightarrow> alloc s = Some (0, s)"
    and release_taken: "inv s \<Longrightarrow> a \<in> frames s - avail s \<Longrightarrow>
          \<exists>s'. rel a s = Some (0, s') \<and> inv s' \<and> frames s' = frames s \<and> avail s' = insert a (avail s)"
begin

lemma finite_avail: "finite (avail s)"
  using avail_frames finite_frames finite_subset by blast

text \<open>Frames handed out one after the other are distinct and were all available.\<close>

lemma alloc_many:
  assumes "inv s" "n \<le> card (avail s)"
  shows "\<exists>as s'. alloc_frames alloc n s = Some (as, s') \<and> length as = n \<and> distinct as
    \<and> set as \<subseteq> avail s \<and> inv s' \<and> frames s' = frames s \<and> avail s' = avail s - set as"
  using assms
proof (induction n arbitrary: s)
  case 0
  then show ?case by simp
next
  case (Suc n)
  then obtain a s1 where a: "alloc s = Some (a, s1)" "a \<in> avail s" "inv s1" "frames s1 = frames s"
      "avail s1 = avail s - {a}"
    using alloc_available [OF Suc.prems(1)] by fastforce
  moreover have "a \<noteq> 0" using a(2) avail_frames zero_frame by blast
  moreover have "n \<le> card (avail s1)" using a Suc.prems(2) finite_avail [of s] by simp
  ultimately show ?case using Suc.IH [of s1] by fastforce
qed

lemma release_many:
  assumes "inv s" "distinct as" "set as \<subseteq> frames s - avail s"
  shows "\<exists>s'. release_frames rel as s = Some s' \<and> inv s' \<and> frames s' = frames s
    \<and> avail s' = avail s \<union> set as"
  using assms
proof (induction as arbitrary: s)
  case Nil
  then show ?case by simp
next
  case (Cons a as)
  then obtain s1 where "rel a s = Some (0, s1)" "inv s1" "frames s1 = frames s" "avail s1 = insert a (avail s)"
    using release_taken [OF Cons.prems(1), of a] by auto
  then show ?case using Cons.IH [of s1] Cons.prems by auto
qed

lemma alloc_release:
  assumes "inv s" "n \<le> card (avail s)"
  shows "\<exists>as s1 s2. alloc_frames alloc n s = Some (as, s1) \<and> length as = n \<and> distinct as
    \<and> set as \<subseteq> avail s \<and> avail s1 = avail s - set as
    \<and> release_frames rel as s1 = Some s2 \<and> inv s2 \<and> avail s2 = avail s"
proof -
  obtain as s1 where as: "alloc_frames alloc n s = Some (as, s1)" "length as = n" "distinct as"
      "set as \<subseteq> avail s" "inv s1" "frames s1 = frames s" "avail s1 = avail s - set as"
    using alloc_many [OF assms] by blast
  then obtain s2 where "release_frames rel as s1 = Some s2" "inv s2" "avail s2 = avail s1 \<union> set as"
    using release_many [of s1 as] avail_frames [of s] by (fastforce dest: subsetD)
  with as show ?thesis by auto
qed

end

end
