(* ===== verification/Pmm.thy ===== *)
theory Pmm
  imports Frame_Spec
begin

text \<open>
  The physical memory manager of \<^verbatim>\<open>src/kernel/mm/pmm.c\<close>: a bitmap with one bit per 4 KiB frame,
  kept as the list of its 32-bit words, and the counters. Accessing a word outside the bitmap
  is the result \<open>None\<close>. The manager is shown to be a frame allocator in the sense of the locale
  \<open>frame_allocator\<close>, which the clients of the manager rely on.
\<close>

section \<open>Model\<close>

definition PMM_FRAME_SIZE :: u32 where
  "PMM_FRAME_SIZE = 0x1000"

text \<open>\<open>align_up\<close> and \<open>align_down\<close> of \<^verbatim>\<open>src/shared/libc/asm/math.asm\<close>.\<close>

definition align_up :: "u32 \<Rightarrow> u32 \<Rightarrow> u32" where
  "align_up v al = (v + (al - 1)) AND NOT (al - 1)"

definition align_down :: "u32 \<Rightarrow> u32 \<Rightarrow> u32" where
  "align_down v al = v AND NOT (al - 1)"

record pmm =
  frame_bitmap :: "u32 list"
  total_frames_count :: u32
  frames_used :: u32

definition frame_word :: "u32 \<Rightarrow> nat" where
  "frame_word frame_addr = unat (drop_bit 5 (frame_addr div PMM_FRAME_SIZE))"

definition frame_bit :: "u32 \<Rightarrow> nat" where
  "frame_bit frame_addr = unat (frame_addr div PMM_FRAME_SIZE AND 31)"

definition set_frame :: "u32 \<Rightarrow> pmm \<Rightarrow> pmm option" where
  "set_frame frame_addr p =
     (let i = frame_word frame_addr; bm = frame_bitmap p in
      if i < length bm
      then Some (p\<lparr>frame_bitmap := bm[i := bm ! i OR push_bit (frame_bit frame_addr) 1]\<rparr>)
      else None)"

definition clear_frame :: "u32 \<Rightarrow> pmm \<Rightarrow> pmm option" where
  "clear_frame frame_addr p =
     (let i = frame_word frame_addr; bm = frame_bitmap p in
      if i < length bm
      then Some (p\<lparr>frame_bitmap := bm[i := bm ! i AND NOT (push_bit (frame_bit frame_addr) 1)]\<rparr>)
      else None)"

definition test_frame :: "u32 \<Rightarrow> pmm \<Rightarrow> bool option" where
  "test_frame frame_addr p =
     (let i = frame_word frame_addr; bm = frame_bitmap p in
      if i < length bm then Some (bm ! i AND push_bit (frame_bit frame_addr) 1 \<noteq> 0) else None)"

text \<open>The search: \<open>i\<close> is the index of the first word of the list.\<close>

fun first_free_scan :: "u32 \<Rightarrow> u32 \<Rightarrow> u32 list \<Rightarrow> int" where
  "first_free_scan tot i [] = -1"
| "first_free_scan tot i (w # ws) =
     (if w \<noteq> 0xFFFFFFFF then
        (case find (\<lambda>b. w AND push_bit b 1 = 0) [0..<32] of
           Some b \<Rightarrow>
             (let frame = push_bit 5 i + of_nat b in
              if frame < tot then sint frame else -1)
         | None \<Rightarrow> first_free_scan tot (i + 1) ws)
      else first_free_scan tot (i + 1) ws)"

definition bitmap_len :: "u32 \<Rightarrow> u32" where
  "bitmap_len tot = drop_bit 5 (tot + 31)"

definition first_free_frame :: "pmm \<Rightarrow> int option" where
  "first_free_frame p =
     (let len = unat (bitmap_len (total_frames_count p)) in
      if len \<le> length (frame_bitmap p)
      then Some (first_free_scan (total_frames_count p) 0 (take len (frame_bitmap p)))
      else None)"

text \<open>
  The three loops over a range of addresses run while \<open>a < e\<close> and step by one frame, wrapping at
  \<open>2^32\<close>, so they are partial.
\<close>

definition mark_frame :: "u32 \<Rightarrow> pmm \<Rightarrow> pmm option" where
  "mark_frame a p = do {
     p \<leftarrow> set_frame a p;
     Some (p\<lparr>frames_used := frames_used p + 1\<rparr>)
   }"

definition reserve_frame :: "u32 \<Rightarrow> pmm \<Rightarrow> pmm option" where
  "reserve_frame a p = do {
     t \<leftarrow> test_frame a p;
     if \<not> t then do {
       p \<leftarrow> set_frame a p;
       Some (p\<lparr>frames_used := frames_used p + 1\<rparr>)
     } else Some p
   }"

definition unreserve_frame :: "u32 \<Rightarrow> pmm \<Rightarrow> pmm option" where
  "unreserve_frame a p = do {
     t \<leftarrow> test_frame a p;
     if t then do {
       p \<leftarrow> clear_frame a p;
       Some (if frames_used p \<noteq> 0 then p\<lparr>frames_used := frames_used p - 1\<rparr> else p)
     } else Some p
   }"

partial_function (option) frame_loop :: "(u32 \<Rightarrow> pmm \<Rightarrow> pmm option) \<Rightarrow> u32 \<Rightarrow> u32 \<Rightarrow> pmm \<Rightarrow> pmm option" where
  "frame_loop body a e p =
     (if a < e then do {
        p \<leftarrow> body a p;
        frame_loop body (a + PMM_FRAME_SIZE) e p
      } else Some p)"

definition pmm_init :: "u32 \<Rightarrow> u32 \<Rightarrow> pmm \<Rightarrow> (int \<times> pmm) option" where
  "pmm_init mem_size_bytes kernel_end_paddr p =
     (if mem_size_bytes = 0 then Some (err ERR_INVALID_ARGUMENT, p)
      else
        let tot = mem_size_bytes div PMM_FRAME_SIZE;
            p = p\<lparr>total_frames_count := tot\<rparr>;
            bitmap_size_bytes = bitmap_len tot * 4;
            bitmap_phys = align_up kernel_end_paddr PMM_FRAME_SIZE
        in if bitmap_phys = 0 then Some (err ERR_BAD_ADDRESS, p\<lparr>frame_bitmap := []\<rparr>)
        else do {
          let p = p\<lparr>frame_bitmap := replicate (unat (bitmap_len tot)) 0, frames_used := 0\<rparr>;
          p \<leftarrow> frame_loop mark_frame 0 (bitmap_phys + bitmap_size_bytes) p;
          Some (err ERR_SUCCESS, p)
        })"

definition pmm_alloc_frame :: "pmm \<Rightarrow> (u32 \<times> pmm) option" where
  "pmm_alloc_frame p = do {
     frame \<leftarrow> first_free_frame p;
     if frame < 0 then Some (0, p)
     else do {
       let addr = word_of_int frame * PMM_FRAME_SIZE;
       p \<leftarrow> set_frame addr p;
       Some (addr, p\<lparr>frames_used := frames_used p + 1\<rparr>)
     }
   }"

definition pmm_free_frame :: "u32 \<Rightarrow> pmm \<Rightarrow> (int \<times> pmm) option" where
  "pmm_free_frame paddr p =
     (if paddr AND (PMM_FRAME_SIZE - 1) \<noteq> 0 then Some (err ERR_INVALID_ALIGNMENT, p)
      else do {
        t \<leftarrow> test_frame paddr p;
        if \<not> t then Some (err ERR_INVALID_ARGUMENT, p)
        else do {
          p \<leftarrow> clear_frame paddr p;
          Some (err ERR_SUCCESS, if frames_used p \<noteq> 0 then p\<lparr>frames_used := frames_used p - 1\<rparr> else p)
        }
      })"

definition pmm_reserve_region :: "u32 \<Rightarrow> u32 \<Rightarrow> pmm \<Rightarrow> (int \<times> pmm) option" where
  "pmm_reserve_region paddr_start paddr_end p =
     (if paddr_start \<ge> paddr_end then Some (err ERR_INVALID_ARGUMENT, p)
      else do {
        p \<leftarrow> frame_loop reserve_frame (align_down paddr_start PMM_FRAME_SIZE) (align_up paddr_end PMM_FRAME_SIZE) p;
        Some (err ERR_SUCCESS, p)
      })"

definition pmm_unreserve_region :: "u32 \<Rightarrow> u32 \<Rightarrow> pmm \<Rightarrow> (int \<times> pmm) option" where
  "pmm_unreserve_region paddr_start paddr_end p =
     (if paddr_start \<ge> paddr_end then Some (err ERR_INVALID_ARGUMENT, p)
      else do {
        p \<leftarrow> frame_loop unreserve_frame (align_down paddr_start PMM_FRAME_SIZE) (align_up paddr_end PMM_FRAME_SIZE) p;
        Some (err ERR_SUCCESS, p)
      })"

definition pmm_total_frames :: "pmm \<Rightarrow> u32" where
  "pmm_total_frames p = total_frames_count p"

definition pmm_used_frames :: "pmm \<Rightarrow> u32" where
  "pmm_used_frames p = frames_used p"

definition pmm_free_frames :: "pmm \<Rightarrow> u32" where
  "pmm_free_frames p = total_frames_count p - frames_used p"

section \<open>Frame numbers\<close>

lemma and_low_mask: "x AND 31 = x mod 32" "x AND 1023 = x mod 1024" "x AND 4095 = x mod 4096" for x :: nat
proof -
  have m: "mask 5 = (31::nat)" "mask 10 = (1023::nat)" "mask 12 = (4095::nat)"
    by (simp_all add: mask_eq_exp_minus_1)
  show "x AND 31 = x mod 32" "x AND 1023 = x mod 1024" "x AND 4095 = x mod 4096"
    unfolding m [symmetric] take_bit_eq_mask [symmetric] by (simp_all add: take_bit_eq_mod)
qed

lemma frame_word_eq: "frame_word a = unat a div 4096 div 32"
  by (simp add: frame_word_def PMM_FRAME_SIZE_def unat_drop_bit_eq unat_div_distrib drop_bit_eq_div)

lemma frame_bit_eq: "frame_bit a = unat a div 4096 mod 32"
  by (simp add: frame_bit_def PMM_FRAME_SIZE_def unsigned_and_eq unat_div_distrib and_low_mask)

text \<open>A frame number and its state.\<close>

definition used :: "pmm \<Rightarrow> nat \<Rightarrow> bool" where
  "used p f \<longleftrightarrow> bit (frame_bitmap p ! (f div 32)) (f mod 32)"

definition frame_no :: "u32 \<Rightarrow> nat" where
  "frame_no a = unat a div 4096"

definition nframes :: "pmm \<Rightarrow> nat" where
  "nframes p = 32 * length (frame_bitmap p)"

definition used_set :: "pmm \<Rightarrow> nat set" where
  "used_set p = {f. f < nframes p \<and> used p f}"

text \<open>
  The invariant: the bitmap has a word for every started group of 32 frames and the counter is
  the number of bits set.
\<close>

definition pmm_inv :: "pmm \<Rightarrow> bool" where
  "pmm_inv p \<longleftrightarrow> total_frames_count p \<le> 0x100000
     \<and> length (frame_bitmap p) = unat (bitmap_len (total_frames_count p))
     \<and> unat (frames_used p) = card (used_set p)"

lemma test_frame_used: "frame_no a < nframes p \<Longrightarrow> test_frame a p = Some (used p (frame_no a))"
  by (auto simp: test_frame_def frame_word_eq frame_bit_eq used_def frame_no_def nframes_def
      push_bit_of_1 and_exp_eq_0_iff_not_bit less_mult_imp_div_less mult.commute)

lemma used_update:
  assumes "f < nframes p" "g < nframes p"
    and "\<And>k. k < 32 \<Longrightarrow> bit w k = (if k = f mod 32 then v else bit (frame_bitmap p ! (f div 32)) k)"
  shows "used (p\<lparr>frame_bitmap := (frame_bitmap p)[f div 32 := w]\<rparr>) g = (if g = f then v else used p g)"
proof (cases "g div 32 = f div 32")
  case True
  then have "g mod 32 = f mod 32 \<longleftrightarrow> g = f" by (metis div_mult_mod_eq)
  then show ?thesis
    using assms True by (auto simp: used_def nframes_def less_mult_imp_div_less mult.commute)
next
  case False
  then show ?thesis by (auto simp: used_def)
qed

lemma set_frame_used:
  assumes "frame_no a < nframes p"
  shows "\<exists>p'. set_frame a p = Some p' \<and> nframes p' = nframes p \<and> total_frames_count p' = total_frames_count p
    \<and> frames_used p' = frames_used p \<and> used_set p' = insert (frame_no a) (used_set p)"
proof -
  let ?f = "frame_no a" and ?bm = "frame_bitmap p"
  let ?p' = "p\<lparr>frame_bitmap := ?bm[?f div 32 := ?bm ! (?f div 32) OR push_bit (?f mod 32) 1]\<rparr>"
  have "used ?p' g = (if g = ?f then True else used p g)" if "g < nframes p" for g
    using used_update [OF assms that, of "?bm ! (?f div 32) OR push_bit (?f mod 32) 1" True]
    by (simp add: bit_simps)
  moreover have "set_frame a p = Some ?p'"
    using assms by (simp add: set_frame_def frame_word_eq frame_bit_eq frame_no_def nframes_def
        less_mult_imp_div_less mult.commute Let_def)
  ultimately show ?thesis
    using assms by (auto simp: used_set_def nframes_def simp del: push_bit_of_1 split: if_splits)
qed

lemma clear_frame_used:
  assumes "frame_no a < nframes p"
  shows "\<exists>p'. clear_frame a p = Some p' \<and> nframes p' = nframes p \<and> total_frames_count p' = total_frames_count p
    \<and> frames_used p' = frames_used p \<and> used_set p' = used_set p - {frame_no a}"
proof -
  let ?f = "frame_no a" and ?bm = "frame_bitmap p"
  let ?p' = "p\<lparr>frame_bitmap := ?bm[?f div 32 := ?bm ! (?f div 32) AND NOT (push_bit (?f mod 32) 1)]\<rparr>"
  have "used ?p' g = (if g = ?f then False else used p g)" if "g < nframes p" for g
    using used_update [OF assms that, of "?bm ! (?f div 32) AND NOT (push_bit (?f mod 32) 1)" False]
    by (simp add: bit_simps)
  moreover have "clear_frame a p = Some ?p'"
    using assms by (simp add: clear_frame_def frame_word_eq frame_bit_eq frame_no_def nframes_def
        less_mult_imp_div_less mult.commute Let_def)
  ultimately show ?thesis
    using assms by (auto simp: used_set_def nframes_def simp del: push_bit_of_1 split: if_splits)
qed

section \<open>The search for a free frame\<close>

definition word_free :: "u32 list \<Rightarrow> nat \<Rightarrow> bool" where
  "word_free ws g \<longleftrightarrow> \<not> bit (ws ! (g div 32)) (g mod 32)"

lemma find_in_word:
  "find (\<lambda>b. w AND push_bit b 1 = 0) [0..<32] = find (\<lambda>b. \<not> bit (w :: u32) b) [0..<32]"
  by (simp add: push_bit_of_1 and_exp_eq_0_iff_not_bit)

lemma full_word: "find (\<lambda>b. \<not> bit (0xFFFFFFFF :: u32) b) [0..<32] = None"
proof -
  have "(0xFFFFFFFF :: u32) = -1" by simp
  then show ?thesis unfolding find_upt_None_iff by (simp only: bit_minus_1_iff) simp
qed

lemma find_first_word:
  "find (word_free (w # ws)) [0..<32 * Suc n] =
     (case find (\<lambda>b. \<not> bit w b) [0..<32] of
        Some b \<Rightarrow> Some b
      | None \<Rightarrow> map_option (\<lambda>g. 32 + g) (find (word_free ws) [0..<32 * n]))"
proof -
  have split: "[0..<32 * Suc n] = [0..<32] @ [32..<32 + 32 * n]"
    by (metis le_add1 mult_Suc_right upt_add_eq_append zero_le)
  have here: "find (word_free (w # ws)) [0..<32] = find (\<lambda>b. \<not> bit w b) [0..<32]"
    by (rule find_cong) (auto simp: word_free_def)
  have rest: "find (word_free (w # ws)) [32..<32 + 32 * n] = map_option (\<lambda>g. 32 + g) (find (word_free ws) [0..<32 * n])"
  proof -
    have "word_free (w # ws) (32 + g) = word_free ws g" for g
      by (simp add: word_free_def div_add_self1)
    then show ?thesis unfolding find_upt_shift by simp
  qed
  show ?thesis unfolding split find_append here rest by (simp split: option.split)
qed

lemma frame_in_word:
  fixes i :: u32
  assumes "unat i \<le> 0x8000" "b < 32"
  shows "unat (push_bit 5 i + of_nat b) = 32 * unat i + b"
proof -
  have "push_bit 5 i + of_nat b = (of_nat (32 * unat i + b) :: u32)"
    by (simp add: push_bit_eq_mult)
  moreover have "32 * unat i + b < 2 ^ 32" using assms by simp
  ultimately show ?thesis by (simp only: unat_of_nat take_bit_nat_eq_self_iff) simp
qed

lemma first_free_scan_find:
  assumes "unat i + length ws \<le> 0x8001"
  shows "first_free_scan tot i ws =
    (case find (word_free ws) [0..<32 * length ws] of
       None \<Rightarrow> -1
     | Some g \<Rightarrow> if 32 * unat i + g < unat tot then int (32 * unat i + g) else -1)"
  using assms
proof (induction ws arbitrary: i)
  case Nil
  then show ?case by simp
next
  case (Cons w ws)
  have i: "unat i \<le> 0x8000" using Cons.prems by simp
  then have Suc: "unat (i + 1) = Suc (unat i)" by (simp add: unat_word_ariths)
  have eq: "32 * unat (i + 1) + g = 32 * unat i + (32 + g)" for g by (simp add: Suc)
  note IH = Cons.IH [of "i + 1", unfolded eq]
  show ?case
  proof (cases "find (\<lambda>b. \<not> bit w b) [0..<32]")
    case None
    then have "first_free_scan tot i (w # ws) = first_free_scan tot (i + 1) ws"
      by (simp only: first_free_scan.simps find_in_word) simp
    with None show ?thesis
      using IH Cons.prems Suc unfolding find_first_word length_Cons
      by (simp split: option.split)
  next
    case (Some b)
    then have b: "b < 32" "w \<noteq> 0xFFFFFFFF" by (auto simp: find_upt_Some_iff simp del: upt_Suc) (metis Some full_word option.distinct(1))
    note fw = frame_in_word [OF i b(1)]
    have "sint (push_bit 5 i + of_nat b) = int (32 * unat i + b)"
      using i b sint_small [of "push_bit 5 i + of_nat b"] unfolding fw by simp
    then show ?thesis
      using Some b fw unfolding find_first_word length_Cons first_free_scan.simps find_in_word
      by (simp only: option.case if_True if_False Let_def word_less_nat_alt) simp
  qed
qed

lemma bitmap_len_nat: "tot \<le> 0x100000 \<Longrightarrow> unat (bitmap_len tot) = (unat tot + 31) div 32"
  by (simp add: bitmap_len_def unat_drop_bit_eq drop_bit_eq_div word_le_nat_alt unat_word_ariths)

lemma pmm_inv_bounds:
  assumes "pmm_inv p"
  shows "length (frame_bitmap p) \<le> 0x8000" "nframes p \<le> 0x100000" "unat (total_frames_count p) \<le> nframes p"
proof -
  have "unat (total_frames_count p) \<le> 0x100000"
    using assms by (simp add: pmm_inv_def word_le_nat_alt)
  moreover have "length (frame_bitmap p) = (unat (total_frames_count p) + 31) div 32"
    using assms by (simp add: pmm_inv_def bitmap_len_nat)
  ultimately show "length (frame_bitmap p) \<le> 0x8000" "nframes p \<le> 0x100000"
      "unat (total_frames_count p) \<le> nframes p"
    unfolding nframes_def by simp_all
qed

lemma finite_used_set [simp]: "finite (used_set p)"
  by (simp add: used_set_def)

lemma used_set_bound: "pmm_inv p \<Longrightarrow> card (used_set p) \<le> 0x100000"
  using card_mono [of "{..<nframes p}" "used_set p"] pmm_inv_bounds(2) [of p]
  by (force simp: used_set_def)

definition free_frames :: "pmm \<Rightarrow> nat set" where
  "free_frames p = {f. f < unat (total_frames_count p) \<and> f \<notin> used_set p}"

lemma first_free_frame_spec:
  assumes "pmm_inv p"
  shows "first_free_frame p = Some (if free_frames p = {} then -1 else int (Min (free_frames p)))"
proof -
  note b = pmm_inv_bounds [OF assms]
  have scan: "first_free_frame p = Some (case find (word_free (frame_bitmap p)) [0..<nframes p] of
       None \<Rightarrow> -1 | Some g \<Rightarrow> if g < unat (total_frames_count p) then int g else -1)"
    using first_free_scan_find [of 0 "frame_bitmap p" "total_frames_count p"] assms b
    by (simp add: first_free_frame_def pmm_inv_def nframes_def split: option.split)
  have free: "free_frames p = {g. g < unat (total_frames_count p) \<and> word_free (frame_bitmap p) g}"
    using b by (auto simp: free_frames_def used_set_def used_def word_free_def)
  show ?thesis
  proof (cases "find (word_free (frame_bitmap p)) [0..<nframes p]")
    case None
    then have "free_frames p = {}" using free b by (auto simp: find_upt_None_iff)
    with None scan show ?thesis by simp
  next
    case (Some g)
    then have g: "word_free (frame_bitmap p) g" "\<And>h. h < g \<Longrightarrow> \<not> word_free (frame_bitmap p) h"
      by (auto simp: find_upt_Some_iff)
    have "finite (free_frames p)" by (simp add: free_frames_def)
    moreover have "g < unat (total_frames_count p) \<Longrightarrow> Min (free_frames p) = g"
      using g free calculation by (intro Min_eqI) (auto simp: not_less [symmetric])
    moreover have "free_frames p = {} \<longleftrightarrow> \<not> g < unat (total_frames_count p)"
      using g free by (auto simp: not_less)
    ultimately show ?thesis using scan Some by auto
  qed
qed

lemma frame_no_addr:
  assumes "f \<le> 0xFFFFF"
  shows "frame_no (of_nat f * PMM_FRAME_SIZE) = f" "of_nat f * PMM_FRAME_SIZE AND (PMM_FRAME_SIZE - 1) = 0"
    "of_nat f * PMM_FRAME_SIZE = 0 \<longleftrightarrow> f = 0"
proof -
  have u: "unat (of_nat f * PMM_FRAME_SIZE) = f * 4096"
    using assms by (simp add: PMM_FRAME_SIZE_def unat_word_ariths unat_of_nat)
  then show "frame_no (of_nat f * PMM_FRAME_SIZE) = f" by (simp add: frame_no_def)
  have "unat (of_nat f * PMM_FRAME_SIZE AND (PMM_FRAME_SIZE - 1)) = 0"
    unfolding unsigned_and_eq u by (simp add: PMM_FRAME_SIZE_def and_low_mask)
  then show "of_nat f * PMM_FRAME_SIZE AND (PMM_FRAME_SIZE - 1) = 0" by (simp add: unat_eq_zero)
  show "of_nat f * PMM_FRAME_SIZE = 0 \<longleftrightarrow> f = 0"
    using u by (metis mult_eq_0_iff unat_0 unat_eq_zero zero_neq_numeral)
qed

lemma pmm_alloc_spec:
  assumes inv: "pmm_inv p"
  shows "if free_frames p = {} then pmm_alloc_frame p = Some (0, p)
    else \<exists>p'. pmm_alloc_frame p = Some (of_nat (Min (free_frames p)) * PMM_FRAME_SIZE, p')
      \<and> pmm_inv p' \<and> total_frames_count p' = total_frames_count p
      \<and> used_set p' = insert (Min (free_frames p)) (used_set p)"
proof (cases "free_frames p = {}")
  case True
  then show ?thesis by (simp add: pmm_alloc_frame_def first_free_frame_spec [OF inv])
next
  case False
  let ?f = "Min (free_frames p)"
  have "?f \<in> free_frames p" using False by (intro Min_in) (auto simp: free_frames_def)
  then have f: "?f < unat (total_frames_count p)" "?f \<notin> used_set p" by (auto simp: free_frames_def)
  then have "?f \<le> 0xFFFFF" "?f < nframes p" using pmm_inv_bounds [OF inv] by auto
  moreover obtain p' where p': "set_frame (of_nat ?f * PMM_FRAME_SIZE) p = Some p'" "nframes p' = nframes p"
      "total_frames_count p' = total_frames_count p" "frames_used p' = frames_used p"
      "used_set p' = insert ?f (used_set p)"
    using set_frame_used [of "of_nat ?f * PMM_FRAME_SIZE" p] calculation by (auto simp: frame_no_addr)
  moreover have "pmm_inv (p'\<lparr>frames_used := frames_used p' + 1\<rparr>)"
    using inv p' f used_set_bound [OF inv]
    by (auto simp: pmm_inv_def nframes_def used_set_def used_def unat_word_ariths)
  ultimately show ?thesis
    using False first_free_frame_spec [OF inv]
    by (auto simp: pmm_alloc_frame_def used_set_def nframes_def used_def)
qed

lemma pmm_free_spec:
  assumes inv: "pmm_inv p" and range: "frame_no a < nframes p"
    and al: "a AND (PMM_FRAME_SIZE - 1) = 0"
  shows "if frame_no a \<in> used_set p
    then \<exists>p'. pmm_free_frame a p = Some (err ERR_SUCCESS, p') \<and> pmm_inv p'
           \<and> total_frames_count p' = total_frames_count p \<and> used_set p' = used_set p - {frame_no a}
    else pmm_free_frame a p = Some (err ERR_INVALID_ARGUMENT, p)"
proof (cases "frame_no a \<in> used_set p")
  case True
  obtain p' where p': "clear_frame a p = Some p'" "nframes p' = nframes p"
      "total_frames_count p' = total_frames_count p" "frames_used p' = frames_used p"
      "used_set p' = used_set p - {frame_no a}"
    using clear_frame_used [OF range] by auto
  have pos: "0 < card (used_set p)" using True card_gt_0_iff by fastforce
  then have ne: "frames_used p \<noteq> 0" using inv by (auto simp: pmm_inv_def)
  have "pmm_inv (p'\<lparr>frames_used := frames_used p' - 1\<rparr>)"
    using inv p' True pos ne
    by (auto simp: pmm_inv_def nframes_def used_set_def used_def unat_minus_one)
  then show ?thesis
    using True p' ne test_frame_used [OF range] al
    by (auto simp: pmm_free_frame_def used_set_def nframes_def used_def)
next
  case False
  then show ?thesis
    using test_frame_used [OF range] range al by (simp add: pmm_free_frame_def used_set_def)
qed

section \<open>The loops over a region\<close>

definition frames_up_to :: "u32 \<Rightarrow> nat" where
  "frames_up_to e = (unat e + 4095) div 4096"

abbreviation frame_addr :: "nat \<Rightarrow> u32" where
  "frame_addr f \<equiv> of_nat f * PMM_FRAME_SIZE"

lemma frame_addr_less:
  assumes "unat e \<le> 0xFFFFF000" "f \<le> frames_up_to e"
  shows "frame_addr f < e \<longleftrightarrow> f < frames_up_to e"
proof -
  have "f \<le> 0xFFFFF" using assms by (simp add: frames_up_to_def)
  then have "unat (frame_addr f) = f * 4096"
    by (simp add: PMM_FRAME_SIZE_def unat_word_ariths unat_of_nat)
  then show ?thesis by (auto simp: word_less_nat_alt frames_up_to_def)
qed

text \<open>The loop rule: an invariant indexed by the next frame to treat.\<close>

lemma frame_loop_rule:
  assumes e: "unat e \<le> 0xFFFFF000" and k: "k \<le> frames_up_to e" and I: "I k p"
    and step: "\<And>f q. f < frames_up_to e \<Longrightarrow> I f q \<Longrightarrow> \<exists>q'. body (frame_addr f) q = Some q' \<and> I (Suc f) q'"
  shows "\<exists>p'. frame_loop body (frame_addr k) e p = Some p' \<and> I (frames_up_to e) p'"
  using k I
proof (induction "frames_up_to e - k" arbitrary: k p)
  case 0
  then have "\<not> frame_addr k < e" using frame_addr_less [OF e, of k] by simp
  then show ?case using 0 by (subst frame_loop.simps) auto
next
  case (Suc n)
  then have k: "k < frames_up_to e" by simp
  then obtain q' where q': "body (frame_addr k) p = Some q'" "I (Suc k) q'" using step Suc.prems by blast
  moreover have "frame_addr k + PMM_FRAME_SIZE = frame_addr (Suc k)" by (simp add: algebra_simps)
  moreover have "frame_addr k < e" using frame_addr_less [OF e, of k] k by simp
  ultimately show ?case
    using Suc.hyps(1) [of "Suc k" q'] Suc.hyps(2) k by (subst frame_loop.simps) simp
qed

lemma align_down_frame: "align_down a PMM_FRAME_SIZE = frame_addr (frame_no a)"
proof -
  have m: "PMM_FRAME_SIZE - 1 = mask 12" by (simp add: PMM_FRAME_SIZE_def mask_eq_exp_minus_1)
  have "frame_no a = unat (drop_bit 12 a)" by (simp add: frame_no_def drop_bit_eq_div unat_div_distrib)
  then have "frame_addr (frame_no a) = push_bit 12 (drop_bit 12 a)"
    by (simp add: PMM_FRAME_SIZE_def push_bit_eq_mult)
  also have "\<dots> = a AND NOT (mask 12)"
    by (rule bit_eqI) (auto simp: bit_simps)
  finally show ?thesis by (simp add: align_down_def m)
qed

lemma align_up_down: "align_up a PMM_FRAME_SIZE = align_down (a + (PMM_FRAME_SIZE - 1)) PMM_FRAME_SIZE"
  by (simp add: align_up_def align_down_def)

lemma align_up_frame:
  assumes "unat a \<le> 0xFFFFF000"
  shows "align_up a PMM_FRAME_SIZE = frame_addr (frames_up_to a)"
    "unat (align_up a PMM_FRAME_SIZE) = frames_up_to a * 4096"
proof -
  have "unat (a + (PMM_FRAME_SIZE - 1)) = unat a + 4095"
    using assms by (simp add: PMM_FRAME_SIZE_def unat_word_ariths)
  then show 1: "align_up a PMM_FRAME_SIZE = frame_addr (frames_up_to a)"
    by (simp add: align_up_down align_down_frame frame_no_def frames_up_to_def)
  have "frames_up_to a \<le> 0xFFFFF" using assms by (simp add: frames_up_to_def)
  then show "unat (align_up a PMM_FRAME_SIZE) = frames_up_to a * 4096"
    unfolding 1 by (simp add: PMM_FRAME_SIZE_def unat_word_ariths unat_of_nat)
qed

text \<open>What one round of each loop does to the frames in use.\<close>

lemma pmm_inv_upd:
  assumes "pmm_inv p" "nframes q = nframes p" "total_frames_count q = total_frames_count p"
    and "unat (frames_used q) = card (used_set q)"
  shows "pmm_inv q"
  using assms by (simp add: pmm_inv_def nframes_def)

lemma used_set_counter [simp]: "used_set (p\<lparr>frames_used := c\<rparr>) = used_set p" "nframes (p\<lparr>frames_used := c\<rparr>) = nframes p"
  by (simp_all add: used_set_def used_def nframes_def)

lemma mark_frame_spec:
  assumes inv: "pmm_inv p" and f: "f < nframes p" "f \<notin> used_set p"
  shows "\<exists>p'. mark_frame (frame_addr f) p = Some p' \<and> pmm_inv p' \<and> nframes p' = nframes p
    \<and> total_frames_count p' = total_frames_count p \<and> used_set p' = insert f (used_set p)"
proof -
  have "f \<le> 0xFFFFF" using f pmm_inv_bounds [OF inv] by simp
  then obtain p' where p': "set_frame (frame_addr f) p = Some p'" "nframes p' = nframes p"
      "total_frames_count p' = total_frames_count p" "frames_used p' = frames_used p"
      "used_set p' = insert f (used_set p)"
    using set_frame_used [of "frame_addr f" p] f by (auto simp: frame_no_addr)
  moreover have "pmm_inv (p'\<lparr>frames_used := frames_used p' + 1\<rparr>)"
    using inv f p' used_set_bound [OF inv]
    by (intro pmm_inv_upd [OF inv]) (auto simp: pmm_inv_def unat_word_ariths)
  ultimately show ?thesis by (auto simp: mark_frame_def)
qed

lemma reserve_frame_spec:
  assumes inv: "pmm_inv p" and f: "f < nframes p"
  shows "\<exists>p'. reserve_frame (frame_addr f) p = Some p' \<and> pmm_inv p' \<and> nframes p' = nframes p
    \<and> total_frames_count p' = total_frames_count p \<and> used_set p' = insert f (used_set p)"
proof -
  have fn: "frame_no (frame_addr f) = f" using f pmm_inv_bounds [OF inv] by (simp add: frame_no_addr)
  then have t: "test_frame (frame_addr f) p = Some (f \<in> used_set p)"
    using test_frame_used [of "frame_addr f" p] f by (simp add: used_set_def)
  show ?thesis
  proof (cases "f \<in> used_set p")
    case True
    then show ?thesis using inv t by (auto simp: reserve_frame_def)
  next
    case False
    then show ?thesis using mark_frame_spec [OF inv f] t by (simp add: reserve_frame_def mark_frame_def)
  qed
qed

lemma unreserve_frame_free:
  assumes "f \<le> 0xFFFFF"
  shows "unreserve_frame (frame_addr f) p = map_option snd (pmm_free_frame (frame_addr f) p)"
proof (cases "test_frame (frame_addr f) p")
  case None
  then show ?thesis using frame_no_addr(2) [OF assms] by (simp add: unreserve_frame_def pmm_free_frame_def)
next
  case (Some t)
  then show ?thesis
    using frame_no_addr(2) [OF assms]
    by (cases "clear_frame (frame_addr f) p") (simp_all add: unreserve_frame_def pmm_free_frame_def)
qed

lemma nframes_cong:
  "pmm_inv p \<Longrightarrow> pmm_inv q \<Longrightarrow> total_frames_count q = total_frames_count p \<Longrightarrow> nframes q = nframes p"
  by (simp add: pmm_inv_def nframes_def)

lemma unreserve_frame_spec:
  assumes inv: "pmm_inv p" and f: "f < nframes p"
  shows "\<exists>p'. unreserve_frame (frame_addr f) p = Some p' \<and> pmm_inv p' \<and> nframes p' = nframes p
    \<and> total_frames_count p' = total_frames_count p \<and> used_set p' = used_set p - {f}"
proof -
  have f': "f \<le> 0xFFFFF" using f pmm_inv_bounds [OF inv] by simp
  note fa = frame_no_addr [OF f'] and free = pmm_free_spec [OF inv, of "frame_addr f"]
  show ?thesis
  proof (cases "f \<in> used_set p")
    case True
    then obtain p' where "pmm_free_frame (frame_addr f) p = Some (err ERR_SUCCESS, p')" "pmm_inv p'"
        "total_frames_count p' = total_frames_count p" "used_set p' = used_set p - {f}"
      using free f fa by auto
    then show ?thesis using nframes_cong [OF inv] by (simp add: unreserve_frame_free [OF f'])
  next
    case False
    then show ?thesis using free f fa inv by (simp add: unreserve_frame_free [OF f'])
  qed
qed

section \<open>The manager implements the allocator contract\<close>

text \<open>
  Frame 0 is never handed out, because address 0 reports failure: it has to stay in use, as
  \<open>pmm_init\<close> leaves it.
\<close>

definition pmm_ok :: "pmm \<Rightarrow> bool" where
  "pmm_ok p \<longleftrightarrow> pmm_inv p \<and> 0 \<in> used_set p"

definition managed_addrs :: "pmm \<Rightarrow> u32 set" where
  "managed_addrs p = frame_addr ` {f. 0 < f \<and> f < unat (total_frames_count p) \<and> f \<le> 0xFFFFF}"

definition free_addrs :: "pmm \<Rightarrow> u32 set" where
  "free_addrs p = frame_addr ` {f. 0 < f \<and> f < unat (total_frames_count p) \<and> f \<le> 0xFFFFF \<and> f \<notin> used_set p}"

lemma frame_addr_inj: "f \<le> 0xFFFFF \<Longrightarrow> g \<le> 0xFFFFF \<Longrightarrow> frame_addr f = frame_addr g \<longleftrightarrow> f = g"
  by (metis frame_no_addr(1))

lemma free_addrs_ok: "pmm_ok p \<Longrightarrow> free_addrs p = frame_addr ` free_frames p"
  unfolding free_addrs_def free_frames_def
  using pmm_inv_bounds [of p] by (intro arg_cong [of _ _ "image frame_addr"]) (auto simp: pmm_ok_def intro: gr0I)

lemma free_addrs_minus:
  assumes "g \<le> 0xFFFFF" "used_set q = insert g (used_set p)" "total_frames_count q = total_frames_count p"
  shows "free_addrs q = free_addrs p - {frame_addr g}"
  using assms frame_addr_inj [of _ g] by (auto simp: free_addrs_def)

lemma free_addrs_plus:
  assumes "0 < g" "g < unat (total_frames_count p)" "g \<le> 0xFFFFF"
    and "used_set q = used_set p - {g}" "total_frames_count q = total_frames_count p"
  shows "free_addrs q = insert (frame_addr g) (free_addrs p)"
  using assms by (auto simp: free_addrs_def)

lemma pmm_alloc_ok:
  assumes ok: "pmm_ok p" and ne: "free_addrs p \<noteq> {}"
  shows "\<exists>a p'. pmm_alloc_frame p = Some (a, p') \<and> a \<in> free_addrs p \<and> pmm_ok p'
    \<and> managed_addrs p' = managed_addrs p \<and> free_addrs p' = free_addrs p - {a}"
proof -
  let ?f = "Min (free_frames p)"
  have inv: "pmm_inv p" and F: "free_frames p \<noteq> {}"
    using ok ne free_addrs_ok [OF ok] by (auto simp: pmm_ok_def)
  then have "?f \<in> free_frames p" by (intro Min_in) (auto simp: free_frames_def)
  moreover have "?f \<le> 0xFFFFF"
    using calculation pmm_inv_bounds [OF inv] by (auto simp: free_frames_def)
  moreover obtain p' where "pmm_alloc_frame p = Some (frame_addr ?f, p')" "pmm_inv p'"
      "total_frames_count p' = total_frames_count p" "used_set p' = insert ?f (used_set p)"
    using pmm_alloc_spec [OF inv] F by auto
  ultimately show ?thesis
    using ok free_addrs_ok [OF ok] free_addrs_minus [of ?f p' p]
    by (auto simp: pmm_ok_def managed_addrs_def)
qed

lemma pmm_free_ok:
  assumes ok: "pmm_ok p" and a: "a \<in> managed_addrs p - free_addrs p"
  shows "\<exists>p'. pmm_free_frame a p = Some (0, p') \<and> pmm_ok p' \<and> managed_addrs p' = managed_addrs p
    \<and> free_addrs p' = insert a (free_addrs p)"
proof -
  have inv: "pmm_inv p" using ok by (simp add: pmm_ok_def)
  from a obtain g where g: "a = frame_addr g" "0 < g" "g < unat (total_frames_count p)" "g \<le> 0xFFFFF"
    by (auto simp: managed_addrs_def)
  moreover have "g \<in> used_set p" using a g by (auto simp: free_addrs_def)
  moreover obtain p' where "pmm_free_frame a p = Some (0, p')" "pmm_inv p'"
      "total_frames_count p' = total_frames_count p" "used_set p' = used_set p - {g}"
    using pmm_free_spec [OF inv, of a] calculation frame_no_addr [OF g(4)] pmm_inv_bounds [OF inv] by auto
  ultimately show ?thesis
    using ok free_addrs_plus [of g p p'] by (auto simp: pmm_ok_def managed_addrs_def)
qed

interpretation pmm: frame_allocator pmm_ok managed_addrs free_addrs pmm_alloc_frame pmm_free_frame
proof (unfold_locales, goal_cases)
  case (1 p)
  show ?case by (auto simp: managed_addrs_def free_addrs_def)
next
  case (2 p)
  show ?case by (simp add: managed_addrs_def)
next
  case (3 p)
  show ?case using frame_no_addr(3) by (auto simp: managed_addrs_def dest: sym)
next
  case (4 p)
  then show ?case by (rule pmm_alloc_ok)
next
  case (5 p)
  then show ?case
    using pmm_alloc_spec [of p] free_addrs_ok [of p] by (simp add: pmm_ok_def)
next
  case (6 p a)
  then show ?case by (rule pmm_free_ok)
qed

section \<open>Properties\<close>

text \<open>A machine with 64 KiB of memory whose first three frames are in use.\<close>

definition pmm_small :: pmm where
  "pmm_small = \<lparr>frame_bitmap = [7], total_frames_count = 16, frames_used = 3\<rparr>"

lemma pmm_small_used: "used_set pmm_small = {0, 1, 2}"
proof -
  have "used_set pmm_small = set (filter (used pmm_small) [0..<32])"
    by (auto simp: used_set_def nframes_def pmm_small_def)
  also have "\<dots> = {0, 1, 2}" by code_simp
  finally show ?thesis .
qed

lemma pmm_small_ok: "pmm_ok pmm_small"
  using pmm_small_used by (simp add: pmm_ok_def pmm_inv_def) (simp add: pmm_small_def bitmap_len_nat)

text \<open>
  C23: an allocation returns the lowest free frame of the machine and marks exactly this frame as
  used; when no frame is free it returns 0 and changes nothing. The invariant, and with it the
  count of used frames, is kept.
\<close>

theorem pmm_alloc_lowest:
  assumes "pmm_ok p"
  shows "if free_frames p = {} then pmm_alloc_frame p = Some (0, p)
    else \<exists>a p'. pmm_alloc_frame p = Some (a, p') \<and> a \<noteq> 0 \<and> frame_no a = Min (free_frames p)
      \<and> a AND (PMM_FRAME_SIZE - 1) = 0
      \<and> used_set p' = insert (frame_no a) (used_set p) \<and> pmm_ok p'
      \<and> unat (pmm_used_frames p') = unat (pmm_used_frames p) + 1"
proof (cases "free_frames p = {}")
  case True
  then show ?thesis using pmm_alloc_spec [of p] assms by (simp add: pmm_ok_def)
next
  case False
  let ?f = "Min (free_frames p)"
  have "?f \<in> free_frames p" using False by (intro Min_in) (auto simp: free_frames_def)
  then have f: "?f \<notin> used_set p" "?f < unat (total_frames_count p)" by (auto simp: free_frames_def)
  moreover have "?f \<le> 0xFFFFF" using f pmm_inv_bounds [of p] assms by (simp add: pmm_ok_def)
  moreover have "?f \<noteq> 0" using f(1) assms unfolding pmm_ok_def by metis
  ultimately show ?thesis
    using pmm_alloc_spec [of p] False assms f frame_no_addr [of ?f]
    by (auto simp: pmm_ok_def pmm_used_frames_def pmm_inv_def)
qed

theorem pmm_alloc_lowest_witness:
  "pmm_ok pmm_small \<and> (\<exists>a p'. pmm_alloc_frame pmm_small = Some (a, p') \<and> frame_no a = 3)"
proof -
  have "free_frames pmm_small = {3..15}"
    by (auto simp: free_frames_def pmm_small_used) (auto simp: pmm_small_def)
  then have "free_frames pmm_small \<noteq> {}" "Min (free_frames pmm_small) = 3" by (auto intro: Min_eqI)
  then show ?thesis using pmm_alloc_lowest [OF pmm_small_ok] pmm_small_ok by auto
qed

text \<open>
  Allocating \<open>n\<close> frames when at least \<open>n\<close> are free gives \<open>n\<close> distinct free frames, and
  releasing them makes exactly the frames free again that were free before.
\<close>

theorem pmm_alloc_then_release:
  assumes "pmm_ok p" "n \<le> card (free_addrs p)"
  shows "\<exists>as p1 p2. alloc_frames pmm_alloc_frame n p = Some (as, p1) \<and> length as = n \<and> distinct as
    \<and> set as \<subseteq> free_addrs p \<and> free_addrs p1 = free_addrs p - set as
    \<and> release_frames pmm_free_frame as p1 = Some p2 \<and> pmm_ok p2 \<and> free_addrs p2 = free_addrs p"
  using assms by (rule pmm.alloc_release)

theorem pmm_alloc_then_release_witness:
  "pmm_ok pmm_small \<and> (\<exists>as p1. alloc_frames pmm_alloc_frame 1 pmm_small = Some (as, p1) \<and> length as = 1)"
proof -
  have "frame_addr 3 \<in> free_addrs pmm_small"
    unfolding free_addrs_def pmm_small_used by (rule imageI) (simp add: pmm_small_def)
  then have "1 \<le> card (free_addrs pmm_small)"
    using pmm.finite_avail [of pmm_small] by (auto simp: Suc_le_eq card_gt_0_iff)
  then show ?thesis using pmm_alloc_then_release [OF pmm_small_ok] pmm_small_ok by blast
qed

text \<open>
  C29: freeing checks its argument. A misaligned address and a frame that is not in use are
  refused without a change; otherwise exactly that frame becomes free.
\<close>

theorem pmm_free_checked:
  assumes "pmm_inv p" "frame_no a < nframes p"
  shows "if a AND (PMM_FRAME_SIZE - 1) \<noteq> 0 then pmm_free_frame a p = Some (err ERR_INVALID_ALIGNMENT, p)
    else if frame_no a \<notin> used_set p then pmm_free_frame a p = Some (err ERR_INVALID_ARGUMENT, p)
    else \<exists>p'. pmm_free_frame a p = Some (err ERR_SUCCESS, p') \<and> pmm_inv p' \<and> used_set p' = used_set p - {frame_no a}"
proof (cases "a AND (PMM_FRAME_SIZE - 1) = 0")
  case True
  then show ?thesis using pmm_free_spec [OF assms True] by auto
next
  case False
  then show ?thesis by (simp add: pmm_free_frame_def)
qed

theorem pmm_free_checked_witness:
  "pmm_inv pmm_small \<and> frame_no 0x5000 < nframes pmm_small
   \<and> pmm_free_frame 0x5000 pmm_small = Some (-2, pmm_small)"
proof -
  have 0: "pmm_inv pmm_small" "frame_no 0x5000 < nframes pmm_small"
    using pmm_small_ok by (simp_all add: pmm_ok_def frame_no_def nframes_def pmm_small_def)
  have "(0x5000 :: u32) AND (PMM_FRAME_SIZE - 1) = 0" "frame_no 0x5000 \<notin> used_set pmm_small"
    by (simp_all add: PMM_FRAME_SIZE_def frame_no_def pmm_small_used)
  then show ?thesis using 0 pmm_free_checked [OF 0] by simp
qed

lemma region_loop:
  assumes inv: "pmm_inv p" and e: "unat e \<le> 0xFFFFF000" "frames_up_to e \<le> nframes p"
    and k: "k \<le> frames_up_to e"
    and step: "\<And>f q. pmm_inv q \<Longrightarrow> f < nframes q \<Longrightarrow>
          \<exists>q'. body (frame_addr f) q = Some q' \<and> pmm_inv q' \<and> nframes q' = nframes q
               \<and> total_frames_count q' = total_frames_count q \<and> used_set q' = upd f (used_set q)"
    and upd: "\<And>f. k \<le> f \<Longrightarrow> upd f (res f) = res (Suc f)" and k0: "res k = used_set p"
  shows "\<exists>p'. frame_loop body (frame_addr k) e p = Some p' \<and> pmm_inv p' \<and> nframes p' = nframes p
     \<and> total_frames_count p' = total_frames_count p \<and> used_set p' = res (frames_up_to e)"
proof -
  let ?I = "\<lambda>f q. k \<le> f \<and> pmm_inv q \<and> nframes q = nframes p
      \<and> total_frames_count q = total_frames_count p \<and> used_set q = res f"
  have "\<exists>q'. body (frame_addr f) q = Some q' \<and> ?I (Suc f) q'" if "f < frames_up_to e" "?I f q" for f q
    using that step [of q f] upd [of f] e(2) by auto
  then show ?thesis
    using frame_loop_rule [OF e(1) k, of ?I p body] inv k0 by blast
qed

lemma align_up_loop_end:
  assumes "unat e \<le> 0xFFFFF000"
  shows "frames_up_to (align_up e PMM_FRAME_SIZE) = frames_up_to e"
    "unat (align_up e PMM_FRAME_SIZE) \<le> 0xFFFFF000"
  using align_up_frame(2) [OF assms] assms by (auto simp: frames_up_to_def)

lemma frame_no_le_up_to: "a < e \<Longrightarrow> frame_no a \<le> frames_up_to e"
  by (simp add: frame_no_def frames_up_to_def word_less_nat_alt)

text \<open>
  Reserving a region marks as used exactly the frames that overlap it, and unreserving it
  marks exactly these frames as free; the count of used frames stays right. The region must lie
  inside the bitmap and end at or below 0xFFFFF000.
\<close>

theorem pmm_regions:
  assumes "pmm_inv p" "s < e" "unat e \<le> 0xFFFFF000" "frames_up_to e \<le> nframes p"
  shows "(\<exists>p'. pmm_reserve_region s e p = Some (err ERR_SUCCESS, p') \<and> pmm_inv p'
        \<and> used_set p' = used_set p \<union> {frame_no s..<frames_up_to e})
    \<and> (\<exists>p'. pmm_unreserve_region s e p = Some (err ERR_SUCCESS, p') \<and> pmm_inv p'
        \<and> used_set p' = used_set p - {frame_no s..<frames_up_to e})"
proof -
  note al = align_up_loop_end [OF assms(3)]
  have k: "frame_no s \<le> frames_up_to (align_up e PMM_FRAME_SIZE)"
    and n: "frames_up_to (align_up e PMM_FRAME_SIZE) \<le> nframes p"
    using frame_no_le_up_to [OF assms(2)] assms(4) al by simp_all
  have "frame_no s \<le> f \<Longrightarrow> insert f (used_set p \<union> {frame_no s..<f}) = used_set p \<union> {frame_no s..<Suc f}"
    and "frame_no s \<le> f \<Longrightarrow> (used_set p - {frame_no s..<f}) - {f} = used_set p - {frame_no s..<Suc f}" for f
    by auto
  note upd = this
  have "\<exists>p'. frame_loop reserve_frame (frame_addr (frame_no s)) (align_up e PMM_FRAME_SIZE) p = Some p'
      \<and> pmm_inv p' \<and> used_set p' = used_set p \<union> {frame_no s..<frames_up_to e}"
    using region_loop [where upd = insert, OF assms(1) al(2) n k reserve_frame_spec upd(1)]
    unfolding al(1) by auto
  moreover have "\<exists>p'. frame_loop unreserve_frame (frame_addr (frame_no s)) (align_up e PMM_FRAME_SIZE) p = Some p'
      \<and> pmm_inv p' \<and> used_set p' = used_set p - {frame_no s..<frames_up_to e}"
    using region_loop [where upd = "\<lambda>f S. S - {f}", OF assms(1) al(2) n k unreserve_frame_spec upd(2)]
    unfolding al(1) by auto
  ultimately show ?thesis
    using assms(2) by (auto simp: pmm_reserve_region_def pmm_unreserve_region_def align_down_frame)
qed

theorem pmm_regions_witness:
  "pmm_inv pmm_small \<and> (\<exists>p'. pmm_reserve_region 0x2800 0x4001 pmm_small = Some (0, p') \<and> used_set p' = {0, 1, 2, 3, 4})"
proof -
  have h: "pmm_inv pmm_small" "(0x2800 :: u32) < 0x4001" "unat (0x4001 :: u32) \<le> 0xFFFFF000"
      "frames_up_to 0x4001 \<le> nframes pmm_small"
    using pmm_small_ok by (simp_all add: pmm_ok_def frames_up_to_def nframes_def pmm_small_def)
  have "{frame_no 0x2800..<frames_up_to 0x4001} = {2, 3, 4}"
    by (simp add: frame_no_def frames_up_to_def) auto
  then have "used_set pmm_small \<union> {frame_no 0x2800..<frames_up_to 0x4001} = {0, 1, 2, 3, 4}"
    by (simp add: pmm_small_used insert_commute)
  then show ?thesis using pmm_regions [OF h] h(1) by auto
qed

text \<open>
  C30: at the top of the address space the end of the region wraps to 0. Reserving a region that
  ends above 0xFFFFF000 reports success and reserves nothing.
\<close>

theorem pmm_reserve_wraps:
  assumes "s < e" "e > 0xFFFFF000"
  shows "pmm_reserve_region s e p = Some (err ERR_SUCCESS, p)"
proof -
  have e: "unat e > 0xFFFFF000" using assms(2) by (simp add: word_less_nat_alt)
  have "unat (e + (PMM_FRAME_SIZE - 1)) = unat e + 4095 - 2 ^ 32"
    using e unat_less_32 [of e] by (simp add: PMM_FRAME_SIZE_def unat_word_ariths mod_if)
  then have "frame_no (e + (PMM_FRAME_SIZE - 1)) = 0"
    using unat_less_32 [of e] by (simp add: frame_no_def)
  then have "align_up e PMM_FRAME_SIZE = 0"
    by (simp add: align_up_down align_down_frame)
  then show ?thesis
    using assms(1) by (simp add: pmm_reserve_region_def frame_loop.simps)
qed

theorem pmm_reserve_wraps_witness:
  "pmm_reserve_region 0xFFFFE000 0xFFFFF001 pmm_small = Some (0, pmm_small)"
  using pmm_reserve_wraps [of "0xFFFFE000" "0xFFFFF001"] by simp

text \<open>
  Initialisation leaves a well-formed manager in which exactly the frames up to the end of the
  bitmap, which follows the kernel image, are in use; frame 0 is among them. The end of the bitmap must
  lie inside the machine's memory.
\<close>

theorem pmm_init_reserves:
  assumes "mem \<noteq> 0" "unat kend \<le> 0xFFFFF000" "kend \<noteq> 0"
    and bend: "bend = align_up kend PMM_FRAME_SIZE + bitmap_len (mem div PMM_FRAME_SIZE) * 4"
    and "align_up kend PMM_FRAME_SIZE \<le> bend" "frames_up_to bend \<le> unat (mem div PMM_FRAME_SIZE)"
  shows "\<exists>p'. pmm_init mem kend p = Some (err ERR_SUCCESS, p') \<and> pmm_ok p'
    \<and> pmm_total_frames p' = mem div PMM_FRAME_SIZE
    \<and> used_set p' = {..<frames_up_to bend}"
proof -
  let ?tot = "mem div PMM_FRAME_SIZE"
  let ?p0 = "p\<lparr>total_frames_count := ?tot, frame_bitmap := replicate (unat (bitmap_len ?tot)) 0, frames_used := 0\<rparr>"
  have tot: "unat ?tot \<le> 0xFFFFF" "?tot \<le> 0x100000"
    using unat_less_32 [of mem] by (simp_all add: PMM_FRAME_SIZE_def unat_div_distrib word_le_nat_alt)
  have bend_le: "unat bend \<le> 0xFFFFF000" using assms(6) tot by (simp add: frames_up_to_def)
  have up_pos: "0 < frames_up_to a" if "a \<noteq> 0" for a
    using that by (simp add: frames_up_to_def div_greater_zero_iff unat_gt_0 Suc_le_eq)
  have kpos: "align_up kend PMM_FRAME_SIZE \<noteq> 0"
    using align_up_frame(2) [OF assms(2)] up_pos [OF assms(3)] by auto
  then have bpos: "0 < frames_up_to bend"
    using assms(5) up_pos [of bend] by (cases "bend = 0") simp_all
  have used0: "used_set ?p0 = {}"
    by (auto simp: used_set_def used_def nframes_def less_mult_imp_div_less mult.commute)
  then have inv0: "pmm_inv ?p0" using tot by (simp add: pmm_inv_def)
  let ?I = "\<lambda>f q. pmm_inv q \<and> total_frames_count q = ?tot \<and> used_set q = {..<f}"
  have "\<exists>q'. mark_frame (frame_addr f) q = Some q' \<and> ?I (Suc f) q'" if "f < frames_up_to bend" "?I f q" for f q
  proof -
    have "f < nframes q" using that assms(6) pmm_inv_bounds(3) [of q] by simp
    then show ?thesis using that mark_frame_spec [of q f] by (fastforce simp: lessThan_Suc)
  qed
  then obtain p' where "frame_loop mark_frame 0 bend ?p0 = Some p'" "?I (frames_up_to bend) p'"
    using frame_loop_rule [OF bend_le, of 0 ?I ?p0 mark_frame] inv0 used0 by auto
  then show ?thesis
    using assms(1) kpos bend bpos by (auto simp: pmm_init_def pmm_ok_def pmm_total_frames_def Let_def)
qed

theorem pmm_init_reserves_witness:
  "\<exists>p'. pmm_init 0x1000000 0x200000 pmm_small = Some (0, p') \<and> pmm_ok p' \<and> used_set p' = {..<513}"
proof -
  have "align_up 0x200000 PMM_FRAME_SIZE + bitmap_len (0x1000000 div PMM_FRAME_SIZE) * 4 = 0x200200"
    "align_up 0x200000 PMM_FRAME_SIZE \<le> 0x200200"
    by code_simp+
  moreover have "frames_up_to 0x200200 = 513" "frames_up_to 0x200200 \<le> unat (0x1000000 div PMM_FRAME_SIZE)"
    by (simp_all add: frames_up_to_def PMM_FRAME_SIZE_def)
  ultimately show ?thesis
    using pmm_init_reserves [of "0x1000000" "0x200000" "0x200200" pmm_small] by auto
qed

end
