(* ===== verification/Paging.thy ===== *)
theory Paging
  imports Pmm
begin

text \<open>
  Page tables: \<^verbatim>\<open>src/kernel/mm/paging.c\<close> and \<^verbatim>\<open>src/kernel/mm/vmm.c\<close>. The machine is the frame manager, the
  physical memory as a function from the addresses of aligned 32-bit words, the kernel's page
  directory and the registers the code loads. All directories and tables are reached through the
  identity mapping, so a pointer to one is its physical address, 0 being \<open>NULL\<close>.
  Flushing the TLB (\<open>invlpg\<close>) has no effect on this state. A \<open>None\<close> result is an access outside
  the frame bitmap.
\<close>

section \<open>Model\<close>

definition PAGE_SIZE :: u32 where "PAGE_SIZE = 0x1000"
definition PAGE_PRESENT :: u32 where "PAGE_PRESENT = 1"
definition PAGE_RW :: u32 where "PAGE_RW = 2"
definition PAGE_USER :: u32 where "PAGE_USER = 4"
definition PAGE_PWT :: u32 where "PAGE_PWT = 8"
definition PAGE_PCD :: u32 where "PAGE_PCD = 0x10"
definition TEMP_MAP_VADDR :: u32 where "TEMP_MAP_VADDR = 0xFEE00000"

lemmas page_consts = PAGE_SIZE_def PAGE_PRESENT_def PAGE_RW_def PAGE_USER_def PAGE_PWT_def PAGE_PCD_def

record machine =
  frames :: pmm
  mem :: "u32 \<Rightarrow> u32"
  kernel_pd :: u32
  cr3 :: u32
  paging_enabled :: bool
  temp_map_phys :: u32

text \<open>The element \<open>i\<close> of an array of entries at address \<open>t\<close>, and \<open>memset (t, 0, PAGE_SIZE)\<close>.\<close>

definition entry :: "machine \<Rightarrow> u32 \<Rightarrow> u32 \<Rightarrow> u32" where
  "entry m t i = mem m (t + 4 * i)"

definition set_entry :: "u32 \<Rightarrow> u32 \<Rightarrow> u32 \<Rightarrow> machine \<Rightarrow> machine" where
  "set_entry t i v m = m\<lparr>mem := (mem m)(t + 4 * i := v)\<rparr>"

definition zero_page :: "u32 \<Rightarrow> machine \<Rightarrow> machine" where
  "zero_page t m = m\<lparr>mem := (\<lambda>a. if unat t \<le> unat a \<and> unat a < unat t + 4096 then 0 else mem m a)\<rparr>"

definition pd_index :: "u32 \<Rightarrow> u32" where
  "pd_index virt = drop_bit 22 virt AND 0x3FF"

definition pt_index :: "u32 \<Rightarrow> u32" where
  "pt_index virt = drop_bit 12 virt AND 0x3FF"

definition present :: "u32 \<Rightarrow> bool" where
  "present e \<longleftrightarrow> e AND PAGE_PRESENT \<noteq> 0"

definition user :: "u32 \<Rightarrow> bool" where
  "user e \<longleftrightarrow> e AND PAGE_USER \<noteq> 0"

definition writable :: "u32 \<Rightarrow> bool" where
  "writable e \<longleftrightarrow> e AND PAGE_RW \<noteq> 0"

definition page_base :: "u32 \<Rightarrow> u32" where
  "page_base e = e AND NOT 0xFFF"

definition alloc :: "machine \<Rightarrow> (u32 \<times> machine) option" where
  "alloc m = do { (a, p) \<leftarrow> pmm_alloc_frame (frames m); Some (a, m\<lparr>frames := p\<rparr>) }"

definition free_frame :: "u32 \<Rightarrow> machine \<Rightarrow> machine option" where
  "free_frame a m = do { (r, p) \<leftarrow> pmm_free_frame a (frames m); Some (m\<lparr>frames := p\<rparr>) }"

subsection \<open>paging.c\<close>

definition paging_map_page :: "u32 \<Rightarrow> u32 \<Rightarrow> u32 \<Rightarrow> u32 \<Rightarrow> machine \<Rightarrow> (int \<times> machine) option" where
  "paging_map_page pd virt phys flags m =
     (if pd = 0 \<or> virt AND (PAGE_SIZE - 1) \<noteq> 0 \<or> phys AND (PAGE_SIZE - 1) \<noteq> 0 then Some (-1, m)
      else
        let pde = entry m pd (pd_index virt);
            pte = page_base phys OR (flags AND (PAGE_PRESENT OR PAGE_RW OR PAGE_USER OR PAGE_PWT OR PAGE_PCD))
        in
        if \<not> present pde then do {
          (pt_phys, m) \<leftarrow> alloc m;
          if pt_phys = 0 then Some (-1, m)
          else do {
            let m = zero_page pt_phys m;
            let pde_flags = PAGE_PRESENT OR PAGE_RW;
            let pde_flags = (if flags AND PAGE_USER \<noteq> 0 then pde_flags OR PAGE_USER else pde_flags);
            let m = set_entry pd (pd_index virt) (pt_phys OR pde_flags) m;
            Some (0, set_entry pt_phys (pt_index virt) pte m)
          }
        }
        else do {
          let pt = page_base pde;
          let m = (if flags AND PAGE_USER \<noteq> 0 then set_entry pd (pd_index virt) (pde OR PAGE_USER) m else m);
          Some (0, set_entry pt (pt_index virt) pte m)
        })"

definition ceil_div_u32 :: "u32 \<Rightarrow> u32 \<Rightarrow> u32" where
  "ceil_div_u32 a b = (if b = 0 then a else (a - 1) div b + 1)"

text \<open>One page table of the identity map: its pages \<open>base_page + i\<close> below \<open>num_pages\<close>.\<close>

definition identity_fill :: "u32 \<Rightarrow> u32 \<Rightarrow> u32 \<Rightarrow> machine \<Rightarrow> machine" where
  "identity_fill pt base_page num_pages m =
     fold (\<lambda>i. set_entry pt i ((base_page + i) * PAGE_SIZE OR PAGE_PRESENT OR PAGE_RW))
       (takeWhile (\<lambda>i. base_page + i < num_pages) (map of_nat [0..<1024])) m"

fun identity_map_loop :: "u32 \<Rightarrow> u32 \<Rightarrow> u32 list \<Rightarrow> machine \<Rightarrow> machine option" where
  "identity_map_loop pd num_pages [] m = Some m"
| "identity_map_loop pd num_pages (i # is) m = do {
     (pt_phys, m) \<leftarrow> alloc m;
     if pt_phys = 0 then Some m
     else do {
       let m = zero_page pt_phys m;
       let m = identity_fill pt_phys (i * 1024) num_pages m;
       identity_map_loop pd num_pages is (set_entry pd i (pt_phys OR PAGE_PRESENT OR PAGE_RW) m)
     }
   }"

definition identity_map_range :: "u32 \<Rightarrow> u32 \<Rightarrow> machine \<Rightarrow> machine option" where
  "identity_map_range pd map_bytes m =
     (let num_pages = ceil_div_u32 map_bytes PAGE_SIZE; num_pt = ceil_div_u32 num_pages 1024
      in identity_map_loop pd num_pages (map of_nat [0..<unat num_pt]) m)"

fun map_self_loop :: "u32 list \<Rightarrow> machine \<Rightarrow> machine option" where
  "map_self_loop [] m = Some m"
| "map_self_loop (a # as) m = do {
     (r, m) \<leftarrow> paging_map_page (kernel_pd m) a a (PAGE_PRESENT OR PAGE_RW) m;
     map_self_loop as m
   }"

definition paging_init :: "machine \<Rightarrow> machine option" where
  "paging_init m = do {
     (pd, m) \<leftarrow> alloc m;
     let m = zero_page pd (m\<lparr>kernel_pd := pd\<rparr>);
     m \<leftarrow> identity_map_range pd (16 * 1024 * 1024) m;
     m \<leftarrow> map_self_loop (map (\<lambda>i. 0xF0000000 + of_nat i * PAGE_SIZE) [0..<0x100]) m;
     m \<leftarrow> map_self_loop (map (\<lambda>i. 0xFD000000 + of_nat i * PAGE_SIZE) [0..<0x400]) m;
     Some (m\<lparr>cr3 := pd, paging_enabled := True\<rparr>)
   }"

definition copy_kernel_entries :: "u32 \<Rightarrow> machine \<Rightarrow> machine" where
  "copy_kernel_entries pd m =
     fold (\<lambda>i m. if present (entry m (kernel_pd m) i) then set_entry pd i (entry m (kernel_pd m) i) m else m)
       (map of_nat [0..<1024]) m"

text \<open>The result is the new directory, 0 on failure; \<open>out_phys\<close> receives the same address.\<close>

definition paging_create_address_space :: "u32 option \<Rightarrow> machine \<Rightarrow> (u32 \<times> u32 option \<times> machine) option" where
  "paging_create_address_space out_phys m = do {
     (pd_phys, m) \<leftarrow> alloc m;
     if pd_phys = 0 then Some (0, out_phys, m)
     else Some (pd_phys, map_option (\<lambda>_. pd_phys) out_phys, copy_kernel_entries pd_phys (zero_page pd_phys m))
   }"

fun destroy_table_loop :: "u32 \<Rightarrow> u32 list \<Rightarrow> machine \<Rightarrow> machine option" where
  "destroy_table_loop pt [] m = Some m"
| "destroy_table_loop pt (j # js) m = do {
     let pte = entry m pt j;
     m \<leftarrow> (if present pte \<and> user pte then free_frame (page_base pte) m else Some m);
     destroy_table_loop pt js m
   }"

fun destroy_loop :: "u32 \<Rightarrow> u32 list \<Rightarrow> machine \<Rightarrow> machine option" where
  "destroy_loop pd [] m = Some m"
| "destroy_loop pd (i # is) m = do {
     let pde = entry m pd i;
     m \<leftarrow> (if \<not> present pde \<or> \<not> user pde \<or> pde = entry m (kernel_pd m) i then Some m
           else do {
             m \<leftarrow> destroy_table_loop (page_base pde) (map of_nat [0..<1024]) m;
             free_frame (page_base pde) m
           });
     destroy_loop pd is m
   }"

definition paging_destroy_address_space :: "u32 \<Rightarrow> u32 \<Rightarrow> machine \<Rightarrow> machine option" where
  "paging_destroy_address_space pd pd_phys m =
     (if pd = 0 \<or> pd = kernel_pd m then Some m
      else do {
        m \<leftarrow> destroy_loop pd (map of_nat [0..<1024]) m;
        free_frame pd_phys m
      })"

definition paging_switch_phys :: "u32 \<Rightarrow> machine \<Rightarrow> machine" where
  "paging_switch_phys pd_phys m = (if pd_phys = 0 then m else m\<lparr>cr3 := pd_phys\<rparr>)"

definition paging_switch :: "u32 \<Rightarrow> machine \<Rightarrow> machine" where
  "paging_switch pd m = (if pd = 0 then m else m\<lparr>cr3 := pd\<rparr>)"

text \<open>
  The check of one page in \<open>paging_user_range_valid\<close>, and its loop. \<open>last\<close> is a 64-bit number, and
  the loop variable wraps at \<open>2^32\<close>.
\<close>

definition user_page_ok :: "machine \<Rightarrow> u32 \<Rightarrow> bool \<Rightarrow> u32 \<Rightarrow> bool" where
  "user_page_ok m pd wr page =
     (let pde = entry m pd (pd_index page) in
      if \<not> present pde \<or> \<not> user pde \<or> (wr \<and> \<not> writable pde) then False
      else
        let pte = entry m (page_base pde) (pt_index page) in
        \<not> (\<not> present pte \<or> \<not> user pte \<or> (wr \<and> \<not> writable pte)))"

partial_function (option) user_range_loop :: "machine \<Rightarrow> u32 \<Rightarrow> bool \<Rightarrow> u64 \<Rightarrow> u32 \<Rightarrow> bool option" where
  "user_range_loop m pd wr lst page =
     (if \<not> user_page_ok m pd wr page then Some False
      else if (ucast page :: u64) = lst then Some True
      else user_range_loop m pd wr lst (page + PAGE_SIZE))"

definition paging_user_range_valid :: "u32 \<Rightarrow> u32 \<Rightarrow> usize \<Rightarrow> bool \<Rightarrow> machine \<Rightarrow> bool option" where
  "paging_user_range_valid pd address len wr m =
     (let e = (ucast address :: u64) + ucast len in
      if pd = 0 \<or> e > 0x100000000 then Some False
      else if len = 0 then Some True
      else user_range_loop m pd wr ((e - 1) AND NOT (ucast (PAGE_SIZE - 1))) (address AND NOT (PAGE_SIZE - 1)))"

text \<open>
  \<open>cur_pd\<close> is the page directory of the current process, 0 when there is no process or it has none.
\<close>

definition active_pd :: "u32 \<Rightarrow> machine \<Rightarrow> u32" where
  "active_pd cur_pd m = (if cur_pd \<noteq> 0 then cur_pd else kernel_pd m)"

definition paging_temp_map_frame :: "u32 \<Rightarrow> u32 \<Rightarrow> u32 \<Rightarrow> machine \<Rightarrow> (u32 \<times> machine) option" where
  "paging_temp_map_frame cur_pd pd phys m =
     (let act = active_pd cur_pd m; fl = PAGE_PRESENT OR PAGE_RW in do {
        (r, m) \<leftarrow> paging_map_page (kernel_pd m) TEMP_MAP_VADDR phys fl m;
        if r \<noteq> 0 then Some (0, m)
        else do {
          (r, m) \<leftarrow> (if act \<noteq> kernel_pd m \<and> act \<noteq> pd
                    then paging_map_page act TEMP_MAP_VADDR phys fl m else Some (0, m));
          if r \<noteq> 0 then do {
            (_, m) \<leftarrow> paging_map_page (kernel_pd m) TEMP_MAP_VADDR 0 0 m;
            Some (0, m)
          }
          else do {
            (r, m) \<leftarrow> (if pd \<noteq> 0 \<and> pd \<noteq> kernel_pd m
                      then paging_map_page pd TEMP_MAP_VADDR phys fl m else Some (0, m));
            if r \<noteq> 0 then do {
              (_, m) \<leftarrow> paging_map_page (kernel_pd m) TEMP_MAP_VADDR 0 0 m;
              (_, m) \<leftarrow> (if act \<noteq> kernel_pd m \<and> act \<noteq> pd
                        then paging_map_page act TEMP_MAP_VADDR 0 0 m else Some (0, m));
              Some (0, m)
            }
            else Some (TEMP_MAP_VADDR, m\<lparr>temp_map_phys := phys\<rparr>)
          }
        }
      })"

definition paging_temp_unmap_frame :: "u32 \<Rightarrow> u32 \<Rightarrow> machine \<Rightarrow> machine option" where
  "paging_temp_unmap_frame cur_pd pd m =
     (let act = active_pd cur_pd m in do {
        (_, m) \<leftarrow> paging_map_page (kernel_pd m) TEMP_MAP_VADDR 0 0 m;
        (_, m) \<leftarrow> (if act \<noteq> kernel_pd m \<and> act \<noteq> pd
                  then paging_map_page act TEMP_MAP_VADDR 0 0 m else Some (0, m));
        (_, m) \<leftarrow> (if pd \<noteq> 0 \<and> pd \<noteq> kernel_pd m
                  then paging_map_page pd TEMP_MAP_VADDR 0 0 m else Some (0, m));
        Some (m\<lparr>temp_map_phys := 0\<rparr>)
      })"

subsection \<open>vmm.c\<close>

text \<open>The address of the page table entry for an address, 0 for \<open>NULL\<close>.\<close>

definition vmm_get_page :: "u32 \<Rightarrow> bool \<Rightarrow> u32 \<Rightarrow> machine \<Rightarrow> (u32 \<times> machine) option" where
  "vmm_get_page vaddr mk dir m =
     (let pde = entry m dir (pd_index vaddr) in
      if present pde then Some (page_base pde + 4 * pt_index vaddr, m)
      else if mk then do {
        (frame, m) \<leftarrow> alloc m;
        if frame = 0 then Some (0, m)
        else do {
          let m = zero_page frame m;
          let m = set_entry dir (pd_index vaddr) (page_base frame OR PAGE_PRESENT OR PAGE_RW) m;
          Some (frame + 4 * pt_index vaddr, m)
        }
      }
      else Some (0, m))"

definition vmm_map_page :: "u32 \<Rightarrow> u32 \<Rightarrow> u32 \<Rightarrow> u32 \<Rightarrow> machine \<Rightarrow> machine option" where
  "vmm_map_page phys virt flags dir m = do {
     (e, m) \<leftarrow> vmm_get_page virt True dir m;
     if e = 0 then Some m
     else Some (m\<lparr>mem := (mem m)(e := page_base phys OR (flags AND 0xFFF) OR PAGE_PRESENT)\<rparr>)
   }"

definition vmm_unmap_page :: "u32 \<Rightarrow> u32 \<Rightarrow> machine \<Rightarrow> machine option" where
  "vmm_unmap_page virt dir m = do {
     (e, m) \<leftarrow> vmm_get_page virt False dir m;
     if e = 0 then Some m else Some (m\<lparr>mem := (mem m)(e := 0)\<rparr>)
   }"

definition switch_page_directory :: "u32 \<Rightarrow> machine \<Rightarrow> machine" where
  "switch_page_directory dir m = m\<lparr>cr3 := dir\<rparr>"

definition vmm_create_directory :: "machine \<Rightarrow> (u32 \<times> machine) option" where
  "vmm_create_directory m = do {
     (frame, m) \<leftarrow> alloc m;
     if frame = 0 then Some (0, m) else Some (frame, zero_page frame m)
   }"

section \<open>Entries of page-aligned arrays\<close>

definition aligned :: "u32 \<Rightarrow> bool" where
  "aligned a \<longleftrightarrow> unat a mod 4096 = 0"

lemma aligned_mask: "aligned a \<longleftrightarrow> a AND 0xFFF = 0"
proof -
  have "unat (a AND 0xFFF) = unat a mod 4096" by (simp add: unsigned_and_eq and_low_mask)
  then show ?thesis unfolding aligned_def by (metis unat_0 unat_eq_zero)
qed

lemma aligned_bits: "aligned a \<Longrightarrow> n < 12 \<Longrightarrow> \<not> bit a n"
proof
  assume "aligned a" "n < 12" "bit a n"
  then have "bit (a AND mask 12) n" by (simp add: bit_simps)
  moreover have "(mask 12 :: u32) = 0xFFF" by (simp add: mask_eq_exp_minus_1)
  ultimately show False using \<open>aligned a\<close> by (simp add: aligned_mask)
qed

lemma frame_no_eq_aligned: "aligned a \<Longrightarrow> aligned b \<Longrightarrow> frame_no a = frame_no b \<longleftrightarrow> a = b"
  unfolding aligned_def frame_no_def by (metis div_mult_mod_eq word_unat_eq_iff)

lemma frame_no_bound: "frame_no a \<le> 0xFFFFF"
  using unat_less_32 [of a] by (simp add: frame_no_def)

lemma aligned_frame: "aligned a \<Longrightarrow> unat a = 4096 * frame_no a"
  unfolding aligned_def frame_no_def by (simp add: mod_0_imp_dvd)

lemma entry_addr:
  assumes "aligned t" "unat i < 1024"
  shows "unat (t + 4 * i) = unat t + 4 * unat i" "frame_no (t + 4 * i) = frame_no t"
proof -
  have "unat t \<le> 2 ^ 32 - 4096" using aligned_frame [OF assms(1)] frame_no_bound [of t] by simp
  moreover have "unat (4 * i) = 4 * unat i" using assms(2) by (simp add: unat_word_ariths)
  ultimately show 1: "unat (t + 4 * i) = unat t + 4 * unat i"
    using assms(2) by (simp add: unat_word_ariths)
  have "frame_no (t + 4 * i) = (4096 * frame_no t + 4 * unat i) div 4096"
    by (metis 1 aligned_frame assms(1) frame_no_def)
  then show "frame_no (t + 4 * i) = frame_no t" using assms(2) by simp
qed

lemma entry_addr_inj:
  assumes "aligned t" "aligned t'" "unat i < 1024" "unat j < 1024"
  shows "t + 4 * i = t' + 4 * j \<longleftrightarrow> t = t' \<and> i = j"
proof
  assume eq: "t + 4 * i = t' + 4 * j"
  then have "t = t'"
    using entry_addr(2) [OF assms(1,3)] entry_addr(2) [OF assms(2,4)] frame_no_eq_aligned [OF assms(1,2)] by simp
  moreover have "unat t + 4 * unat i = unat t' + 4 * unat j"
    using arg_cong [OF eq, of unat] entry_addr(1) [OF assms(1,3)] entry_addr(1) [OF assms(2,4)] by simp
  ultimately show "t = t' \<and> i = j" by (simp add: word_unat_eq_iff)
qed simp

lemma entry_set_entry:
  assumes "aligned t" "aligned t'" "unat i < 1024" "unat j < 1024"
  shows "entry (set_entry t i v m) t' j = (if t = t' \<and> i = j then v else entry m t' j)"
  using entry_addr_inj [OF assms(2,1,4,3)] by (auto simp: entry_def set_entry_def)

lemma entry_zero_page:
  assumes "aligned t" "aligned t'" "unat j < 1024"
  shows "entry (zero_page t m) t' j = (if t = t' then 0 else entry m t' j)"
proof -
  note ea = entry_addr [OF assms(2,3)]
  have "unat t \<le> unat (t' + 4 * j) \<and> unat (t' + 4 * j) < unat t + 4096 \<longleftrightarrow> frame_no t' = frame_no t"
    using aligned_frame [OF assms(1)] aligned_frame [OF assms(2)] assms(3) ea(1) by auto
  then show ?thesis using ea frame_no_eq_aligned [OF assms(2,1)] by (auto simp: entry_def zero_page_def)
qed

lemma state_fields [simp]:
  "frames (set_entry t i v m) = frames m" "frames (zero_page t m) = frames m"
  "kernel_pd (set_entry t i v m) = kernel_pd m" "kernel_pd (zero_page t m) = kernel_pd m"
  "entry (m\<lparr>frames := p\<rparr>) = entry m"
  by (simp_all add: set_entry_def zero_page_def entry_def fun_eq_iff)

lemma page_base_eq: "page_base e = frame_addr (frame_no e)"
  using align_down_frame [of e] by (simp add: page_base_def align_down_def PMM_FRAME_SIZE_def)

lemma page_base_aligned: "aligned (page_base e)" "frame_no (page_base e) = frame_no e"
  using frame_no_addr [OF frame_no_bound [of e]]
  by (simp_all add: page_base_eq aligned_mask PMM_FRAME_SIZE_def)

lemma page_base_id: "aligned a \<Longrightarrow> page_base a = a"
  using frame_no_eq_aligned page_base_aligned by blast

lemma page_base_or:
  assumes "aligned a" "fl AND NOT 0xFFF = 0"
  shows "page_base (a OR fl) = a"
proof -
  have "(a OR fl) AND NOT 0xFFF = (a AND NOT 0xFFF) OR (fl AND NOT 0xFFF)"
    by (simp only: bit.conj_disj_distrib2)
  then show ?thesis using assms page_base_id [of a] by (simp add: page_base_def)
qed

lemma unat_pd_index: "unat (pd_index v) = frame_no v div 1024"
proof -
  have "unat (pd_index v) = (unat v div 2 ^ 22) mod 1024"
    by (simp add: pd_index_def unsigned_and_eq drop_bit_eq_div unat_div_distrib and_low_mask)
  also have "\<dots> = unat v div (4096 * 1024)" using unat_less_32 [of v] by simp
  also have "\<dots> = frame_no v div 1024" unfolding frame_no_def by (rule div_mult2_eq)
  finally show ?thesis .
qed

lemma unat_pt_index: "unat (pt_index v) = frame_no v mod 1024"
  by (simp add: pt_index_def unsigned_and_eq drop_bit_eq_div unat_div_distrib and_low_mask frame_no_def)

lemma index_bounds [simp]: "unat (pd_index v) < 1024" "unat (pt_index v) < 1024"
  using frame_no_bound [of v] by (simp_all add: unat_pd_index unat_pt_index)

lemma index_eq_iff: "pd_index v = pd_index w \<and> pt_index v = pt_index w \<longleftrightarrow> frame_no v = frame_no w"
proof -
  have "pd_index v = pd_index w \<and> pt_index v = pt_index w \<longleftrightarrow>
      frame_no v div 1024 = frame_no w div 1024 \<and> frame_no v mod 1024 = frame_no w mod 1024"
    by (simp add: word_unat_eq_iff unat_pd_index unat_pt_index)
  then show ?thesis by (metis div_mult_mod_eq)
qed

section \<open>Address spaces\<close>

lemma alloc_cases:
  assumes "pmm_ok (frames m)"
  obtains (exhausted) "alloc m = Some (0, m)" "free_frames (frames m) = {}"
  | (fresh) a p where "alloc m = Some (a, m\<lparr>frames := p\<rparr>)" "a \<noteq> 0" "aligned a"
      "frame_no a \<notin> used_set (frames m)" "pmm_ok p"
      "used_set p = insert (frame_no a) (used_set (frames m))" "free_frames (frames m) \<noteq> {}"
proof (cases "free_frames (frames m) = {}")
  case True
  then show ?thesis
    using exhausted pmm_alloc_spec [of "frames m"] assms by (simp add: alloc_def pmm_ok_def)
next
  case False
  let ?f = "Min (free_frames (frames m))"
  have "?f \<in> free_frames (frames m)" using False by (intro Min_in) (auto simp: free_frames_def)
  then have f: "?f \<notin> used_set (frames m)" "?f < unat (total_frames_count (frames m))"
    by (auto simp: free_frames_def)
  then have b: "?f \<le> 0xFFFFF" using pmm_inv_bounds [of "frames m"] assms by (simp add: pmm_ok_def)
  have nz: "?f \<noteq> 0" using f(1) assms unfolding pmm_ok_def by metis
  obtain p where "pmm_alloc_frame (frames m) = Some (frame_addr ?f, p)" "pmm_inv p"
      "used_set p = insert ?f (used_set (frames m))"
    using pmm_alloc_spec [of "frames m"] False assms by (auto simp: pmm_ok_def)
  then show ?thesis
    using fresh [of "frame_addr ?f" p] f b nz assms False frame_no_addr [OF b]
    by (simp add: alloc_def pmm_ok_def aligned_mask PMM_FRAME_SIZE_def)
qed

text \<open>
  An address space is well-formed if its directory and the tables it refers to are distinct
  frames in use.
\<close>

definition as_wf :: "machine \<Rightarrow> u32 \<Rightarrow> bool" where
  "as_wf m pd \<longleftrightarrow> pmm_ok (frames m) \<and> pd \<noteq> 0 \<and> aligned pd \<and> frame_no pd \<in> used_set (frames m)
     \<and> (\<forall>i. unat i < 1024 \<and> present (entry m pd i) \<longrightarrow>
           frame_no (entry m pd i) \<in> used_set (frames m) \<and> frame_no (entry m pd i) \<noteq> frame_no pd
           \<and> frame_no (entry m pd i) \<noteq> 0)
     \<and> (\<forall>i j. unat i < 1024 \<and> unat j < 1024 \<and> present (entry m pd i) \<and> present (entry m pd j)
           \<and> frame_no (entry m pd i) = frame_no (entry m pd j) \<longrightarrow> i = j)"

text \<open>What the processor finds for an address: the page table entry, if it is present.\<close>

definition pte_at :: "machine \<Rightarrow> u32 \<Rightarrow> u32 \<Rightarrow> u32 option" where
  "pte_at m pd v =
     (let pde = entry m pd (pd_index v) in
      if present pde then
        let pte = entry m (page_base pde) (pt_index v) in
        if present pte then Some pte else None
      else None)"

text \<open>
  The effect of installing an entry: the directory entry \<open>i\<close> refers to the table \<open>pt\<close>, in which \<open>j\<close> is
  the new entry; all else reads as before, an absent table as one of zeros.
\<close>

definition installs :: "machine \<Rightarrow> u32 \<Rightarrow> u32 \<Rightarrow> u32 \<Rightarrow> u32 \<Rightarrow> u32 \<Rightarrow> machine \<Rightarrow> bool" where
  "installs m pd pt i j pte m' \<longleftrightarrow>
     present (entry m' pd i) \<and> page_base (entry m' pd i) = pt
     \<and> (present (entry m pd i) \<longrightarrow> page_base (entry m pd i) = pt)
     \<and> (\<forall>k. unat k < 1024 \<and> k \<noteq> i \<longrightarrow> entry m' pd k = entry m pd k)
     \<and> (\<forall>k l. unat k < 1024 \<and> unat l < 1024 \<and> k \<noteq> i \<and> present (entry m pd k) \<longrightarrow>
           entry m' (page_base (entry m pd k)) l = entry m (page_base (entry m pd k)) l)
     \<and> (\<forall>l. unat l < 1024 \<longrightarrow> entry m' pt l =
           (if l = j then pte else if present (entry m pd i) then entry m pt l else 0))"

lemma present_0 [simp]: "\<not> present 0"
  by (simp add: present_def)

lemma installs_pte_at:
  assumes "installs m pd pt (pd_index virt) (pt_index virt) pte m'"
  shows "pte_at m' pd v =
    (if frame_no v = frame_no virt then (if present pte then Some pte else None) else pte_at m pd v)"
proof (cases "pd_index v = pd_index virt")
  case True
  then have "pt_index v = pt_index virt \<longleftrightarrow> frame_no v = frame_no virt"
    using index_eq_iff [of v virt] by simp
  then show ?thesis
    using assms True unfolding installs_def pte_at_def Let_def by simp
next
  case False
  then have "frame_no v \<noteq> frame_no virt" using index_eq_iff [of v virt] by auto
  then show ?thesis
    using assms False unfolding installs_def pte_at_def Let_def by simp
qed

lemma as_wf_table:
  assumes "as_wf m pd" "unat i < 1024" "present (entry m pd i)"
  shows "page_base (entry m pd i) \<noteq> pd"
    and "unat k < 1024 \<Longrightarrow> present (entry m pd k) \<Longrightarrow> k \<noteq> i \<Longrightarrow> page_base (entry m pd k) \<noteq> page_base (entry m pd i)"
  using assms page_base_aligned(2) unfolding as_wf_def by metis+

lemma as_wf_pd_aligned: "as_wf m pd \<Longrightarrow> aligned pd"
  by (simp add: as_wf_def)

lemma aligned_nonzero: "aligned a \<Longrightarrow> a \<noteq> 0 \<Longrightarrow> frame_no a \<noteq> 0"
  using aligned_frame [of a] by (metis mult_0_right unat_eq_zero)

lemma installs_as_wf:
  assumes wf: "as_wf m pd" and ins: "installs m pd pt i j pte m'" and i: "unat i < 1024"
    and ok: "pmm_ok (frames m')" and sub: "used_set (frames m) \<subseteq> used_set (frames m')"
    and pt: "frame_no pt \<in> used_set (frames m')" "pt \<noteq> pd" "frame_no pt \<noteq> 0"
    and new: "\<And>k. unat k < 1024 \<Longrightarrow> k \<noteq> i \<Longrightarrow> present (entry m pd k) \<Longrightarrow> page_base (entry m pd k) \<noteq> pt"
  shows "as_wf m' pd"
proof -
  have pde: "frame_no (entry m' pd i) = frame_no pt" "aligned pt"
    using ins page_base_aligned unfolding installs_def by metis+
  have ent: "entry m' pd k = entry m pd k" if "unat k < 1024" "k \<noteq> i" for k
    using ins that unfolding installs_def by blast
  have pd: "aligned pd" using wf by (simp add: as_wf_def)
  have other: "frame_no (entry m pd k) \<noteq> frame_no pt" if "unat k < 1024" "k \<noteq> i" "present (entry m pd k)" for k
    using new [OF that] pde(2) frame_no_eq_aligned page_base_aligned by metis
  have T: "frame_no (entry m' pd k) \<in> used_set (frames m') \<and> frame_no (entry m' pd k) \<noteq> frame_no pd
      \<and> frame_no (entry m' pd k) \<noteq> 0" if "unat k < 1024" "present (entry m' pd k)" for k
  proof (cases "k = i")
    case True
    then show ?thesis using pt pde pd frame_no_eq_aligned [of pt pd] by simp
  next
    case False
    then show ?thesis using ent [of k] that wf sub by (auto simp: as_wf_def)
  qed
  have D: "k = l" if "unat k < 1024" "unat l < 1024" "present (entry m' pd k)" "present (entry m' pd l)"
      "frame_no (entry m' pd k) = frame_no (entry m' pd l)" for k l
  proof (cases "k = i \<or> l = i")
    case True
    then show ?thesis using that ent other pde(1) by metis
  next
    case False
    then show ?thesis using that ent [of k] ent [of l] wf by (auto simp: as_wf_def)
  qed
  show ?thesis
    using wf ok sub T D by (auto simp: as_wf_def)
qed

lemma set_entry_same: "set_entry t i (entry m t i) m = m"
  by (simp add: set_entry_def entry_def)

lemma flag_bits: "present e \<longleftrightarrow> bit e 0" "writable e \<longleftrightarrow> bit e 1" "user e \<longleftrightarrow> bit e 2"
  using and_exp_eq_0_iff_not_bit [of e 0] and_exp_eq_0_iff_not_bit [of e 1] and_exp_eq_0_iff_not_bit [of e 2]
  by (simp_all add: present_def writable_def user_def page_consts)

lemma installs_present:
  assumes wf: "as_wf m pd" and i: "unat i < 1024" and j: "unat j < 1024" and pres: "present (entry m pd i)"
    and pde': "present pde'" "page_base pde' = page_base (entry m pd i)"
  shows "installs m pd (page_base (entry m pd i)) i j pte
    (set_entry (page_base (entry m pd i)) j pte (set_entry pd i pde' m))"
proof -
  let ?pt = "page_base (entry m pd i)"
  have pd: "aligned pd" using wf by (simp add: as_wf_def)
  have E: "entry (set_entry ?pt j pte (set_entry pd i pde' m)) t l =
      (if t = ?pt \<and> l = j then pte else if t = pd \<and> l = i then pde' else entry m t l)"
    if "aligned t" "unat l < 1024" for t l
    using that i j pd page_base_aligned(1) [of "entry m pd i"] by (auto simp: entry_set_entry)
  note tab = as_wf_table [OF wf i pres] and other = as_wf_table(1) [OF wf]
  show ?thesis
    unfolding installs_def
    by (intro conjI allI impI; (elim conjE)?; simp add: E pd i j pres page_base_aligned(1) pde' tab other tab(1) [symmetric])
qed

lemma installs_fresh:
  assumes wf: "as_wf m pd" and i: "unat i < 1024" and j: "unat j < 1024" and abs: "\<not> present (entry m pd i)"
    and a: "aligned a" "frame_no a \<notin> used_set (frames m)" and fl: "present fl" "fl AND NOT 0xFFF = 0"
    and same: "entry m1 = entry m"
  shows "installs m pd a i j pte (set_entry a j pte (set_entry pd i (a OR fl) (zero_page a m1)))"
    and "a \<noteq> pd" and "\<And>k. unat k < 1024 \<Longrightarrow> present (entry m pd k) \<Longrightarrow> page_base (entry m pd k) \<noteq> a"
proof -
  have pd: "aligned pd" using wf by (simp add: as_wf_def)
  show ne: "a \<noteq> pd" using wf a by (auto simp: as_wf_def)
  show new: "page_base (entry m pd k) \<noteq> a" if "unat k < 1024" "present (entry m pd k)" for k
    using wf that a page_base_aligned(2) unfolding as_wf_def by metis
  have E: "entry (set_entry a j pte (set_entry pd i (a OR fl) (zero_page a m1))) t l =
      (if t = a then if l = j then pte else 0 else if t = pd \<and> l = i then a OR fl else entry m t l)"
    if "aligned t" "unat l < 1024" for t l
    using that i j pd a ne by (auto simp: entry_set_entry entry_zero_page same)
  have "present (a OR fl)" using fl(1) by (simp add: flag_bits bit_or_iff)
  note other = as_wf_table(1) [OF wf]
  show "installs m pd a i j pte (set_entry a j pte (set_entry pd i (a OR fl) (zero_page a m1)))"
    unfolding installs_def
    by (intro conjI allI impI; (elim conjE)?;
        simp add: E pd i j a abs ne ne [symmetric] new other page_base_aligned(1) page_base_or [OF a(1) fl(2)]
          \<open>present (a OR fl)\<close>)
qed

lemma map_flags:
  "present (PAGE_PRESENT OR PAGE_RW)" "(PAGE_PRESENT OR PAGE_RW) AND NOT 0xFFF = 0"
  "present (PAGE_PRESENT OR PAGE_RW OR PAGE_USER)" "(PAGE_PRESENT OR PAGE_RW OR PAGE_USER) AND NOT 0xFFF = 0"
  by (simp_all add: present_def page_consts)

lemma user_bit_keeps: "present pde \<Longrightarrow> present (pde OR PAGE_USER)" "page_base (pde OR PAGE_USER) = page_base pde"
proof -
  show "page_base (pde OR PAGE_USER) = page_base pde"
    unfolding page_base_def by (simp add: PAGE_USER_def bit.conj_disj_distrib2)
  show "present pde \<Longrightarrow> present (pde OR PAGE_USER)"
    by (simp add: flag_bits bit_or_iff)
qed

definition map_pte :: "u32 \<Rightarrow> u32 \<Rightarrow> u32" where
  "map_pte phys flags = page_base phys OR (flags AND (PAGE_PRESENT OR PAGE_RW OR PAGE_USER OR PAGE_PWT OR PAGE_PCD))"

text \<open>
  Installing in a table that is there keeps the address space well-formed, and so does installing
  in a fresh table.
\<close>

lemma install_present_wf:
  assumes wf: "as_wf m pd" and pres: "present (entry m pd (pd_index v))"
    and pde': "present pde'" "page_base pde' = page_base (entry m pd (pd_index v))"
  shows "as_wf (set_entry (page_base (entry m pd (pd_index v))) (pt_index v) pte (set_entry pd (pd_index v) pde' m)) pd"
  using installs_as_wf [OF wf installs_present [OF wf index_bounds(1) index_bounds(2) pres pde']]
    wf pres as_wf_table [OF wf _ pres] page_base_aligned(2)
  by (metis as_wf_def index_bounds(1) order_refl state_fields(1))

lemma install_fresh_wf:
  assumes wf: "as_wf m pd" and abs: "\<not> present (entry m pd (pd_index v))"
    and a: "a \<noteq> 0" "aligned a" "frame_no a \<notin> used_set (frames m)"
    and p: "pmm_ok p" "used_set p = insert (frame_no a) (used_set (frames m))"
    and fl: "present fl" "fl AND NOT 0xFFF = 0"
  shows "as_wf (set_entry a (pt_index v) pte (set_entry pd (pd_index v) (a OR fl) (zero_page a (m\<lparr>frames := p\<rparr>)))) pd"
proof -
  note ins = installs_fresh [OF wf index_bounds(1) index_bounds(2) abs a(2,3) fl state_fields(5)]
  show ?thesis
    using installs_as_wf [OF wf ins(1)] p ins(2,3) aligned_nonzero [OF a(2,1)] by (simp add: subset_insertI)
qed

lemma paging_map_page_cases:
  assumes wf: "as_wf m pd" and al: "aligned virt" "aligned phys"
  obtains (failed) "paging_map_page pd virt phys flags m = Some (-1, m)"
      "\<not> present (entry m pd (pd_index virt))" "free_frames (frames m) = {}"
  | (mapped) pt m' where "paging_map_page pd virt phys flags m = Some (0, m')" "as_wf m' pd"
      "installs m pd pt (pd_index virt) (pt_index virt) (map_pte phys flags) m'"
proof (cases "present (entry m pd (pd_index virt))")
  case True
  let ?pde = "entry m pd (pd_index virt)"
  let ?pde' = "if flags AND PAGE_USER \<noteq> 0 then ?pde OR PAGE_USER else ?pde"
  have pde': "present ?pde'" "page_base ?pde' = page_base ?pde" using True user_bit_keeps by auto
  have "paging_map_page pd virt phys flags m =
      Some (0, set_entry (page_base ?pde) (pt_index virt) (map_pte phys flags) (set_entry pd (pd_index virt) ?pde' m))"
    using True wf al
    by (simp add: paging_map_page_def map_pte_def Let_def set_entry_same as_wf_def aligned_mask PAGE_SIZE_def)
  then show ?thesis
    using mapped install_present_wf [OF wf True pde']
      installs_present [OF wf index_bounds(1) index_bounds(2) True pde'] by blast
next
  case False
  have "pmm_ok (frames m)" using wf by (simp add: as_wf_def)
  then show ?thesis
  proof (cases rule: alloc_cases)
    case exhausted
    then show ?thesis
      using failed False wf al by (simp add: paging_map_page_def as_wf_def aligned_mask PAGE_SIZE_def)
  next
    case (fresh a p)
    let ?fl = "if flags AND PAGE_USER \<noteq> 0 then PAGE_PRESENT OR PAGE_RW OR PAGE_USER else PAGE_PRESENT OR PAGE_RW"
    have fl: "present ?fl" "?fl AND NOT 0xFFF = 0" using map_flags by auto
    have "paging_map_page pd virt phys flags m = Some (0, set_entry a (pt_index virt) (map_pte phys flags)
        (set_entry pd (pd_index virt) (a OR ?fl) (zero_page a (m\<lparr>frames := p\<rparr>))))"
      using False wf al fresh
      by (simp add: paging_map_page_def map_pte_def Let_def or.assoc as_wf_def aligned_mask PAGE_SIZE_def)
    then show ?thesis
      using mapped install_fresh_wf [OF wf False fresh(2-6) fl]
        installs_fresh(1) [OF wf index_bounds(1) index_bounds(2) False fresh(3,4) fl state_fields(5)] by blast
  qed
qed

section \<open>Access from user mode\<close>

text \<open>
  The processor's rule for an access from user mode: both levels present and open to the user,
  and writable for a write.
\<close>

definition user_access :: "machine \<Rightarrow> u32 \<Rightarrow> bool \<Rightarrow> u32 \<Rightarrow> bool" where
  "user_access m pd wr v \<longleftrightarrow>
     user (entry m pd (pd_index v)) \<and> (wr \<longrightarrow> writable (entry m pd (pd_index v)))
     \<and> (case pte_at m pd v of None \<Rightarrow> False | Some pte \<Rightarrow> user pte \<and> (wr \<longrightarrow> writable pte))"

lemma user_page_ok_access: "user_page_ok m pd wr v \<longleftrightarrow> user_access m pd wr v"
  by (auto simp: user_page_ok_def user_access_def pte_at_def Let_def)

lemma user_access_page:
  assumes "frame_no v = frame_no w"
  shows "user_access m pd wr v \<longleftrightarrow> user_access m pd wr w"
  using assms index_eq_iff [of v w] by (simp add: user_access_def pte_at_def Let_def)

lemma unat_ucast_64: "unat (ucast (w :: u32) :: u64) = unat w"
  using unat_less_32 [of w] by (simp add: unsigned_ucast_eq take_bit_nat_eq_self)

lemma unat_frame_addr: "f \<le> 0xFFFFF \<Longrightarrow> unat (frame_addr f) = f * 4096"
  by (simp add: PMM_FRAME_SIZE_def unat_word_ariths unat_of_nat)

lemma user_range_loop_spec:
  assumes "f \<le> l" "l \<le> 0xFFFFF" "unat lst = l * 4096"
  shows "user_range_loop m pd wr lst (frame_addr f) =
    Some (\<forall>g. f \<le> g \<and> g \<le> l \<longrightarrow> user_access m pd wr (frame_addr g))"
  using assms(1)
proof (induction "l - f" arbitrary: f)
  case 0
  then have "f = l" by simp
  then have "(ucast (frame_addr f) :: u64) = lst"
    using assms by (simp add: word_unat_eq_iff unat_ucast_64 unat_frame_addr)
  moreover have "(\<forall>g. f \<le> g \<and> g \<le> l \<longrightarrow> user_access m pd wr (frame_addr g)) \<longleftrightarrow> user_access m pd wr (frame_addr f)"
    using \<open>f = l\<close> by auto
  ultimately show ?case by (subst user_range_loop.simps) (simp add: user_page_ok_access)
next
  case (Suc n)
  then have f: "f < l" by simp
  then have ne: "(ucast (frame_addr f) :: u64) \<noteq> lst"
    using assms unat_frame_addr [of f] by (auto simp: word_unat_eq_iff unat_ucast_64)
  have step: "frame_addr f + PAGE_SIZE = frame_addr (Suc f)"
    by (simp add: PAGE_SIZE_def PMM_FRAME_SIZE_def algebra_simps)
  have split: "(\<forall>g. f \<le> g \<and> g \<le> l \<longrightarrow> P g) \<longleftrightarrow> P f \<and> (\<forall>g. Suc f \<le> g \<and> g \<le> l \<longrightarrow> P g)" for P
    using f by (metis Suc_leD le_eq_less_or_eq less_eq_Suc_le order_refl)
  show ?case
    using Suc.hyps(1) [of "Suc f"] Suc.hyps(2) f ne
    unfolding split [of "\<lambda>g. user_access m pd wr (frame_addr g)"]
    by (subst user_range_loop.simps) (simp add: user_page_ok_access step)
qed

lemma page_mask_64: "unat ((w :: u64) AND NOT (ucast (PAGE_SIZE - 1))) = unat w div 4096 * 4096"
proof -
  have "(ucast (PAGE_SIZE - 1) :: u64) = mask 12" by (simp add: PAGE_SIZE_def mask_eq_exp_minus_1)
  then have "w AND NOT (ucast (PAGE_SIZE - 1)) = push_bit 12 (drop_bit 12 w)"
    by (simp only:) (rule bit_eqI, auto simp: bit_simps)
  also have "\<dots> = of_nat (unat w div 4096 * 4096)"
    by (simp add: push_bit_eq_mult drop_bit_eq_div word_arith_nat_div)
  finally have "unat (w AND NOT (ucast (PAGE_SIZE - 1))) = unat w div 4096 * 4096 mod 2 ^ 64"
    by (simp only: unat_of_nat) simp
  moreover have "unat w div 4096 * 4096 < 2 ^ 64"
    using unsigned_less [of w, where 'a = nat] by (simp add: div_less_iff_less_mult)
  ultimately show ?thesis by simp
qed

text \<open>A condition on pages holds for the pages of a range iff it holds at all its bytes.\<close>

lemma pages_cover:
  fixes P :: "u32 \<Rightarrow> bool"
  assumes P: "\<And>v w. frame_no v = frame_no w \<Longrightarrow> P v = P w"
    and e: "0 < n" "unat a + n \<le> 2 ^ 32"
  shows "(\<forall>g. frame_no a \<le> g \<and> g \<le> (unat a + n - 1) div 4096 \<longrightarrow> P (frame_addr g)) \<longleftrightarrow>
    (\<forall>v. unat a \<le> unat v \<and> unat v < unat a + n \<longrightarrow> P v)" (is "?L \<longleftrightarrow> ?R")
proof
  assume L: ?L
  show ?R
  proof (intro allI impI)
    fix v :: u32
    assume v: "unat a \<le> unat v \<and> unat v < unat a + n"
    then have "frame_no a \<le> frame_no v" "frame_no v \<le> (unat a + n - 1) div 4096"
      unfolding frame_no_def by (auto intro!: div_le_mono)
    then have "P (frame_addr (frame_no v))" using L by blast
    then show "P v" using P frame_no_addr(1) [OF frame_no_bound] by blast
  qed
next
  assume R: ?R
  show ?L
  proof (intro allI impI)
    fix g assume g: "frame_no a \<le> g \<and> g \<le> (unat a + n - 1) div 4096"
    have "(unat a + n - 1) div 4096 < 0x100000" using e by (intro less_mult_imp_div_less) simp
    then have gb: "g \<le> 0xFFFFF" using g by simp
    show "P (frame_addr g)"
    proof (cases "g = frame_no a")
      case True
      then show ?thesis using R e P frame_no_addr(1) [OF gb] by (metis less_add_same_cancel1 order_refl)
    next
      case False
      then have "unat a < g * 4096" "g * 4096 < unat a + n"
        using g e by (auto simp: frame_no_def div_less_iff_less_mult less_eq_div_iff_mult_less_eq)
      then show ?thesis using R unat_frame_addr [OF gb] by simp
    qed
  qed
qed

text \<open>A machine with an empty page directory in frame 1.\<close>

definition machine_small :: machine where
  "machine_small = \<lparr>frames = pmm_small, mem = (\<lambda>_. 0), kernel_pd = 0x1000, cr3 = 0, paging_enabled = False,
     temp_map_phys = 0\<rparr>"

lemma machine_small_wf: "as_wf machine_small 0x1000"
  by (simp add: as_wf_def machine_small_def entry_def pmm_small_ok pmm_small_used aligned_def frame_no_def)

text \<open>
  C1: mapping a page. On a well-formed address space the call either fails with -1, changing
  nothing, because a page table is needed and no frame is free; or it succeeds, the address
  space stays well-formed, the page translates to the given frame with the given flags, and every
  other page translates as before.
\<close>

theorem paging_map_page_maps:
  assumes "as_wf m pd" "aligned virt" "aligned phys"
  shows "(paging_map_page pd virt phys flags m = Some (-1, m) \<and> free_frames (frames m) = {}
         \<and> \<not> present (entry m pd (pd_index virt)))
    \<or> (\<exists>m'. paging_map_page pd virt phys flags m = Some (0, m') \<and> as_wf m' pd
         \<and> (\<forall>v. pte_at m' pd v =
              (if frame_no v \<noteq> frame_no virt then pte_at m pd v
               else if flags AND PAGE_PRESENT \<noteq> 0 then Some (map_pte phys flags) else None)))"
proof -
  have "present (map_pte phys flags) \<longleftrightarrow> flags AND PAGE_PRESENT \<noteq> 0"
    using page_base_aligned(1) [of phys] aligned_bits [of "page_base phys" 0]
    unfolding present_def [symmetric] by (auto simp: map_pte_def flag_bits bit_simps page_consts)
  then show ?thesis
    using installs_pte_at by (cases rule: paging_map_page_cases [OF assms, of flags]) auto
qed

lemma user_range_valid_spec:
  assumes "pd \<noteq> 0"
  shows "paging_user_range_valid pd address len wr m =
    Some (unat address + unat len \<le> 2 ^ 32
          \<and> (\<forall>v. unat address \<le> unat v \<and> unat v < unat address + unat len \<longrightarrow> user_access m pd wr v))"
proof -
  let ?e = "(ucast address :: u64) + ucast len"
  have e: "unat ?e = unat address + unat len"
    using unat_less_32 [of address] unat_less_32 [of len] by (simp add: unat_word_ariths unat_ucast_64)
  then have gt: "?e > 0x100000000 \<longleftrightarrow> \<not> unat address + unat len \<le> 2 ^ 32"
    by (simp add: word_less_nat_alt not_le)
  show ?thesis
  proof (cases "len = 0 \<or> ?e > 0x100000000")
    case True
    then show ?thesis using assms gt by (auto simp: paging_user_range_valid_def Let_def not_le)
  next
    case False
    then have len: "0 < unat len" and le: "unat address + unat len \<le> 2 ^ 32" using gt by (auto simp: unat_gt_0)
    let ?l = "(unat address + unat len - 1) div 4096" and ?lst = "(?e - 1) AND NOT (ucast (PAGE_SIZE - 1))"
    have "?e \<noteq> 0" using e len by (metis add_is_0 less_irrefl unat_0)
    then have "unat (?e - 1) = unat address + unat len - 1" using e by (simp add: unat_minus_one)
    then have lst: "unat ?lst = ?l * 4096" by (simp only: page_mask_64)
    have page: "address AND NOT (PAGE_SIZE - 1) = frame_addr (frame_no address)"
      using page_base_eq [of address] by (simp add: page_base_def PAGE_SIZE_def)
    have fl: "frame_no address \<le> ?l" "?l \<le> 0xFFFFF"
      using len le by (auto simp: frame_no_def intro: div_le_mono)
    note all = pages_cover [where P = "user_access m pd wr", OF user_access_page len le]
    show ?thesis
      using False assms le user_range_loop_spec [OF fl lst, of m pd wr] all
      by (simp add: paging_user_range_valid_def page Let_def)
  qed
qed

text \<open>
  C2: the check of a user range is exact. It always returns, and answers true exactly when
  the range does not run past the 4 GiB boundary and user mode may access every byte of it.
\<close>

theorem paging_user_range_valid_exact:
  assumes "pd \<noteq> 0"
  shows "paging_user_range_valid pd address len wr m =
    Some (unat address + unat len \<le> 2 ^ 32
          \<and> (\<forall>v. unat address \<le> unat v \<and> unat v < unat address + unat len \<longrightarrow> user_access m pd wr v))"
  by (rule user_range_valid_spec [OF assms])

theorem paging_user_range_valid_exact_witness:
  "(0x1000 :: u32) \<noteq> 0 \<and> paging_user_range_valid 0x1000 0xFFFFFFF0 0x20 True machine_small = Some False"
  using paging_user_range_valid_exact [of "0x1000" "0xFFFFFFF0" "0x20" True machine_small] by simp

theorem paging_map_page_maps_witness:
  "as_wf machine_small 0x1000 \<and> aligned 0x400000 \<and> aligned 0x5000
   \<and> (\<exists>m'. paging_map_page 0x1000 0x400000 0x5000 3 machine_small = Some (0, m')
           \<and> pte_at m' 0x1000 0x400000 = Some 0x5003)"
proof -
  have al: "aligned 0x400000" "aligned 0x5000" by (simp_all add: aligned_def)
  have "free_frames (frames machine_small) \<noteq> {}"
    by (auto simp: free_frames_def machine_small_def pmm_small_used intro!: exI [of _ 3]) (simp add: pmm_small_def)
  moreover have "(3 :: u32) AND PAGE_PRESENT \<noteq> 0" "map_pte 0x5000 3 = 0x5003"
    by (simp_all add: map_pte_def page_base_def page_consts)
  ultimately show ?thesis
    using paging_map_page_maps [OF machine_small_wf al, of 3] al machine_small_wf by auto
qed

section \<open>New address spaces\<close>

lemma copy_kernel_entries_fold:
  assumes "aligned pd" "aligned k" "pd \<noteq> k" "kernel_pd m = k" "\<forall>i \<in> set is. unat i < 1024" "distinct is"
  shows "let m' = fold (\<lambda>i m. if present (entry m (kernel_pd m) i) then set_entry pd i (entry m (kernel_pd m) i) m else m) is m
    in kernel_pd m' = k \<and> frames m' = frames m
     \<and> (\<forall>t l. aligned t \<and> unat l < 1024 \<longrightarrow> entry m' t l =
          (if t = pd \<and> l \<in> set is \<and> present (entry m k l) then entry m k l else entry m t l))"
  using assms(4-6)
proof (induction "is" arbitrary: m)
  case Nil
  then show ?case by simp
next
  case (Cons i "is")
  let ?m = "if present (entry m (kernel_pd m) i) then set_entry pd i (entry m (kernel_pd m) i) m else m"
  have "kernel_pd ?m = k" "frames ?m = frames m" using Cons.prems by simp_all
  moreover have "entry ?m t l = (if t = pd \<and> l = i \<and> present (entry m k l) then entry m k l else entry m t l)"
    if "aligned t" "unat l < 1024" for t l
    using that assms(1,2) Cons.prems by (auto simp: entry_set_entry)
  ultimately show ?case
    using Cons.IH [of ?m] Cons.prems assms(1-3) by (auto simp: Let_def)
qed

lemma copy_kernel_entries_entry:
  assumes "aligned pd" "aligned (kernel_pd m)" "pd \<noteq> kernel_pd m" "aligned t" "unat l < 1024"
  shows "entry (copy_kernel_entries pd m) t l =
    (if t = pd \<and> present (entry m (kernel_pd m) l) then entry m (kernel_pd m) l else entry m t l)"
    and "kernel_pd (copy_kernel_entries pd m) = kernel_pd m" "frames (copy_kernel_entries pd m) = frames m"
proof -
  have "l \<in> of_nat ` {0..<1024}"
    using assms(5) by (intro image_eqI [of _ _ "unat l"]) auto
  then have l: "l \<in> set (map of_nat [0..<1024])" by simp
  have small: "\<forall>i \<in> set (map of_nat [0..<1024] :: u32 list). unat i < 1024"
    by (auto simp: unat_of_nat)
  have dist: "distinct (map of_nat [0..<1024] :: u32 list)"
    by (auto simp: distinct_map inj_on_def word_unat_eq_iff unat_of_nat)
  note c = copy_kernel_entries_fold [OF assms(1,2,3) refl small dist, folded copy_kernel_entries_def]
  show "entry (copy_kernel_entries pd m) t l =
    (if t = pd \<and> present (entry m (kernel_pd m) l) then entry m (kernel_pd m) l else entry m t l)"
    and "kernel_pd (copy_kernel_entries pd m) = kernel_pd m" "frames (copy_kernel_entries pd m) = frames m"
    using c l assms(4,5) by (auto simp: Let_def)
qed

text \<open>
  C25: a new address space is well-formed, lies in a frame that was free, and translates
  every address as the kernel's address space does, which it leaves unchanged; when no frame is
  free the call returns \<open>NULL\<close>.
\<close>

theorem create_address_space_shares_kernel:
  assumes "as_wf m (kernel_pd m)"
  shows "if free_frames (frames m) = {} then paging_create_address_space (Some out) m = Some (0, Some out, m)
    else \<exists>pd m'. paging_create_address_space (Some out) m = Some (pd, Some pd, m')
      \<and> frame_no pd \<notin> used_set (frames m) \<and> as_wf m' pd \<and> as_wf m' (kernel_pd m)
      \<and> (\<forall>v. pte_at m' pd v = pte_at m (kernel_pd m) v \<and> pte_at m' (kernel_pd m) v = pte_at m (kernel_pd m) v)"
proof -
  let ?k = "kernel_pd m"
  have ok: "pmm_ok (frames m)" and k: "aligned ?k" using assms by (simp_all add: as_wf_def)
  show ?thesis
  proof (cases rule: alloc_cases [OF ok])
    case exhausted: 1
    then show ?thesis by (simp add: paging_create_address_space_def)
  next
    case fresh: (2 a p)
    let ?z = "zero_page a (m\<lparr>frames := p\<rparr>)"
    let ?m = "copy_kernel_entries a ?z"
    have ak: "a \<noteq> ?k" using fresh assms by (auto simp: as_wf_def)
    have E: "entry ?m t l = (if t = a then if present (entry m ?k l) then entry m ?k l else 0 else entry m t l)"
      if "aligned t" "unat l < 1024" for t l
      using copy_kernel_entries_entry(1) [of a ?z t l] that fresh ak k by (simp add: entry_zero_page)
    have tab: "page_base (entry m ?k i) \<noteq> a" "frame_no (entry m ?k i) \<noteq> frame_no a"
      if "unat i < 1024" "present (entry m ?k i)" for i
      using that assms fresh(4) page_base_aligned(2) unfolding as_wf_def by metis+
    have fr: "frames ?m = p" using copy_kernel_entries_entry(3) [of a ?z a 0] fresh ak k by simp
    have "as_wf ?m a"
      using assms fresh tab aligned_nonzero [OF fresh(3,2)] by (auto simp: as_wf_def E fr split: if_splits)
    moreover have "as_wf ?m ?k"
      using assms fresh ak k by (auto simp: as_wf_def E fr)
    moreover have "pte_at ?m a v = pte_at m ?k v" "pte_at ?m ?k v = pte_at m ?k v" for v
      using fresh(3) k ak tab page_base_aligned(1) by (auto simp: pte_at_def E Let_def)
    moreover have "paging_create_address_space (Some out) m = Some (a, Some a, ?m)"
      using fresh by (simp add: paging_create_address_space_def)
    ultimately show ?thesis using fresh(4,7) by auto
  qed
qed

theorem create_address_space_shares_kernel_witness:
  "as_wf machine_small (kernel_pd machine_small)
   \<and> (\<exists>pd m'. paging_create_address_space (Some 0) machine_small = Some (pd, Some pd, m') \<and> as_wf m' pd)"
proof -
  have "as_wf machine_small (kernel_pd machine_small)"
    using machine_small_wf by (simp add: machine_small_def)
  moreover have "free_frames (frames machine_small) \<noteq> {}"
    by (auto simp: free_frames_def machine_small_def pmm_small_used intro!: exI [of _ 3]) (simp add: pmm_small_def)
  ultimately show ?thesis using create_address_space_shares_kernel [of machine_small 0] by auto
qed

section \<open>The other mapping interface\<close>

lemma table_addr_nonzero:
  assumes "as_wf m pd" "unat i < 1024" "present (entry m pd i)" "unat j < 1024"
  shows "page_base (entry m pd i) + 4 * j \<noteq> 0"
proof -
  have "frame_no (page_base (entry m pd i) + 4 * j) = frame_no (entry m pd i)"
    using entry_addr(2) [OF page_base_aligned(1) assms(4)] page_base_aligned(2) by simp
  then show ?thesis using assms by (auto simp: as_wf_def frame_no_def)
qed

lemma installs_here:
  assumes wf: "as_wf m pd" and pres: "present (entry m pd (pd_index v))"
  shows "installs m pd (page_base (entry m pd (pd_index v))) (pd_index v) (pt_index v) pte
           (set_entry (page_base (entry m pd (pd_index v))) (pt_index v) pte m)"
    and "as_wf (set_entry (page_base (entry m pd (pd_index v))) (pt_index v) pte m) pd"
  using installs_present [OF wf index_bounds(1) index_bounds(2) pres pres refl]
    install_present_wf [OF wf pres pres refl] by (simp_all add: set_entry_same)

definition vmm_pte :: "u32 \<Rightarrow> u32 \<Rightarrow> u32" where
  "vmm_pte phys flags = page_base phys OR (flags AND 0xFFF) OR PAGE_PRESENT"

lemma vmm_map_page_cases:
  assumes wf: "as_wf m pd"
  obtains (failed) "vmm_map_page phys virt flags pd m = Some m"
      "\<not> present (entry m pd (pd_index virt))" "free_frames (frames m) = {}"
  | (mapped) pt m' where "vmm_map_page phys virt flags pd m = Some m'" "as_wf m' pd"
      "installs m pd pt (pd_index virt) (pt_index virt) (vmm_pte phys flags) m'"
proof (cases "present (entry m pd (pd_index virt))")
  case True
  then have "vmm_map_page phys virt flags pd m =
      Some (set_entry (page_base (entry m pd (pd_index virt))) (pt_index virt) (vmm_pte phys flags) m)"
    using table_addr_nonzero [OF wf _ True, of "pt_index virt"]
    by (simp add: vmm_map_page_def vmm_get_page_def set_entry_def vmm_pte_def)
  then show ?thesis using mapped installs_here [OF wf True] by blast
next
  case False
  have "pmm_ok (frames m)" using wf by (simp add: as_wf_def)
  then show ?thesis
  proof (cases rule: alloc_cases)
    case exhausted
    then show ?thesis using failed False by (simp add: vmm_map_page_def vmm_get_page_def)
  next
    case (fresh a p)
    have fl: "present (PAGE_PRESENT OR PAGE_RW)" "(PAGE_PRESENT OR PAGE_RW) AND NOT 0xFFF = 0"
      using map_flags by auto
    have "frame_no (a + 4 * pt_index virt) \<noteq> 0"
      using entry_addr(2) [OF fresh(3), of "pt_index virt"] aligned_nonzero [OF fresh(3,2)] by simp
    then have "a + 4 * pt_index virt \<noteq> 0" by (auto simp: frame_no_def)
    then have "vmm_map_page phys virt flags pd m = Some (set_entry a (pt_index virt) (vmm_pte phys flags)
        (set_entry pd (pd_index virt) (a OR (PAGE_PRESENT OR PAGE_RW)) (zero_page a (m\<lparr>frames := p\<rparr>))))"
      using False fresh page_base_id [OF fresh(3)]
      by (simp add: vmm_map_page_def vmm_get_page_def vmm_pte_def Let_def or.assoc)
         (simp add: set_entry_def)
    then show ?thesis
      using mapped install_fresh_wf [OF wf False fresh(2-6) fl]
        installs_fresh(1) [OF wf index_bounds(1) index_bounds(2) False fresh(3,4) fl state_fields(5)] by blast
  qed
qed

lemma vmm_unmap_page_removes:
  assumes wf: "as_wf m pd"
  shows "\<exists>m'. vmm_unmap_page virt pd m = Some m' \<and> as_wf m' pd
    \<and> (\<forall>v. pte_at m' pd v = (if frame_no v = frame_no virt then None else pte_at m pd v))"
proof (cases "present (entry m pd (pd_index virt))")
  case True
  let ?m = "set_entry (page_base (entry m pd (pd_index virt))) (pt_index virt) 0 m"
  have "vmm_unmap_page virt pd m = Some ?m"
    using True table_addr_nonzero [OF wf _ True, of "pt_index virt"]
    by (simp add: vmm_unmap_page_def vmm_get_page_def set_entry_def)
  then show ?thesis
    using installs_here [OF wf True, of 0] installs_pte_at by fastforce
next
  case False
  have "pte_at m pd v = None" if "frame_no v = frame_no virt" for v
  proof -
    have "pd_index v = pd_index virt" using that index_eq_iff [of v virt] by simp
    then show ?thesis using False by (simp add: pte_at_def)
  qed
  then show ?thesis using False wf by (simp add: vmm_unmap_page_def vmm_get_page_def)
qed

text \<open>
  C26: unmapping undoes mapping. After \<open>vmm_map_page\<close> has mapped a page, it translates to
  the given frame; \<open>vmm_unmap_page\<close> then leaves it unmapped, and every other page translates as
  before the two calls.
\<close>

theorem vmm_map_unmap:
  assumes "as_wf m pd" "free_frames (frames m) \<noteq> {}"
  shows "\<exists>m1 m2. vmm_map_page phys virt flags pd m = Some m1
    \<and> pte_at m1 pd virt = Some (page_base phys OR (flags AND 0xFFF) OR PAGE_PRESENT)
    \<and> vmm_unmap_page virt pd m1 = Some m2 \<and> as_wf m2 pd
    \<and> (\<forall>v. pte_at m2 pd v = (if frame_no v = frame_no virt then None else pte_at m pd v))"
proof (cases rule: vmm_map_page_cases [OF assms(1), of phys virt flags])
  case 1
  then show ?thesis using assms(2) by blast
next
  case (2 pt m1)
  have "present (vmm_pte phys flags)" by (simp add: flag_bits vmm_pte_def bit_or_iff PAGE_PRESENT_def)
  then have "pte_at m1 pd virt = Some (vmm_pte phys flags)"
    and "\<And>v. frame_no v \<noteq> frame_no virt \<Longrightarrow> pte_at m1 pd v = pte_at m pd v"
    using installs_pte_at [OF 2(3)] by simp_all
  then show ?thesis
    using vmm_unmap_page_removes [OF 2(2), of virt] 2(1) unfolding vmm_pte_def by fastforce
qed

lemma machine_small_free: "free_frames (frames machine_small) \<noteq> {}"
  by (auto simp: free_frames_def machine_small_def pmm_small_used intro!: exI [of _ 3]) (simp add: pmm_small_def)

theorem vmm_map_unmap_witness:
  "as_wf machine_small 0x1000 \<and> (\<exists>m1. vmm_map_page 0x5123 0x400000 3 0x1000 machine_small = Some m1
      \<and> pte_at m1 0x1000 0x400000 = Some 0x5003)"
  using vmm_map_unmap [OF machine_small_wf machine_small_free, of "0x5123" "0x400000" 3] machine_small_wf
  by (auto simp: page_base_def PAGE_PRESENT_def)

end
