(* ===== verification/Block_Spec.thy ===== *)
theory Block_Spec
  imports Prelude
begin

text \<open>
  The contract of a block allocator, as the users of the kernel heap rely on it: blocks in use are pairwise disjoint,
  allocating adds one block and releasing removes one, and neither touches the contents of the
  other blocks. A client is a sequence of requests to allocate, release and store a byte.
\<close>

datatype areq = Acquire usize | Release u32 | Store u32 u8

fun run_reqs :: "(usize \<Rightarrow> 's \<Rightarrow> (u32 \<times> 's) option) \<Rightarrow> (u32 \<Rightarrow> 's \<Rightarrow> 's option) \<Rightarrow> (u32 \<Rightarrow> u8 \<Rightarrow> 's \<Rightarrow> 's)
    \<Rightarrow> areq list \<Rightarrow> 's \<Rightarrow> (u32 list \<times> 's) option" where
  "run_reqs acq rel sto [] s = Some ([], s)"
| "run_reqs acq rel sto (Acquire n # rs) s = do {
     (p, s) \<leftarrow> acq n s;
     (ps, s) \<leftarrow> run_reqs acq rel sto rs s;
     Some (p # ps, s)
   }"
| "run_reqs acq rel sto (Release p # rs) s = do { s \<leftarrow> rel p s; run_reqs acq rel sto rs s }"
| "run_reqs acq rel sto (Store a v # rs) s = run_reqs acq rel sto rs (sto a v s)"

definition in_block :: "(u32 \<Rightarrow> usize option) \<Rightarrow> u32 \<Rightarrow> u32 \<Rightarrow> bool" where
  "in_block B p a \<longleftrightarrow> (\<exists>n. B p = Some n \<and> unat p \<le> unat a \<and> unat a < unat p + unat n)"

text \<open>A client that asks for at most \<open>lim\<close> bytes at a time, and releases and writes only what it has.\<close>

fun legal_reqs :: "('s \<Rightarrow> u32 \<Rightarrow> usize option) \<Rightarrow> nat \<Rightarrow> (usize \<Rightarrow> 's \<Rightarrow> (u32 \<times> 's) option) \<Rightarrow> (u32 \<Rightarrow> 's \<Rightarrow> 's option)
    \<Rightarrow> (u32 \<Rightarrow> u8 \<Rightarrow> 's \<Rightarrow> 's) \<Rightarrow> areq list \<Rightarrow> 's \<Rightarrow> bool" where
  "legal_reqs blk lim acq rel sto [] s \<longleftrightarrow> True"
| "legal_reqs blk lim acq rel sto (Acquire n # rs) s \<longleftrightarrow>
     unat n \<le> lim \<and> (case acq n s of None \<Rightarrow> True | Some (_, s) \<Rightarrow> legal_reqs blk lim acq rel sto rs s)"
| "legal_reqs blk lim acq rel sto (Release p # rs) s \<longleftrightarrow>
     blk s p \<noteq> None \<and> (case rel p s of None \<Rightarrow> True | Some s \<Rightarrow> legal_reqs blk lim acq rel sto rs s)"
| "legal_reqs blk lim acq rel sto (Store a v # rs) s \<longleftrightarrow>
     (\<exists>p. in_block (blk s) p a) \<and> legal_reqs blk lim acq rel sto rs (sto a v s)"

text \<open>The requests that release a block or overwrite a byte, and what a run keeps apart from these.\<close>

fun released :: "areq \<Rightarrow> u32 set" where
  "released (Release p) = {p}"
| "released _ = {}"

fun written :: "areq \<Rightarrow> u32 set" where
  "written (Store a _) = {a}"
| "written _ = {}"

definition kept :: "('s \<Rightarrow> u32 \<Rightarrow> usize option) \<Rightarrow> ('s \<Rightarrow> u32 \<Rightarrow> u8) \<Rightarrow> u32 set \<Rightarrow> u32 set \<Rightarrow> 's \<Rightarrow> 's \<Rightarrow> bool" where
  "kept blk byte R W s s' \<longleftrightarrow> (\<forall>p n. blk s p = Some n \<longrightarrow> p \<notin> R \<longrightarrow> blk s' p = Some n \<and>
     (\<forall>a. in_block (blk s) p a \<longrightarrow> a \<notin> W \<longrightarrow> byte s' a = byte s a))"

lemma kept_trans:
  assumes "kept blk byte R W s s1" "kept blk byte R' W' s1 s2"
  shows "kept blk byte (R \<union> R') (W \<union> W') s s2"
proof -
  have "in_block (blk s1) p a" if "in_block (blk s) p a" "p \<notin> R" for p a
    using that assms(1) by (auto simp: kept_def in_block_def)
  then show ?thesis
    using assms unfolding kept_def by (metis UnCI)
qed

locale block_allocator =
  fixes ok :: "'s \<Rightarrow> bool" and blk :: "'s \<Rightarrow> u32 \<Rightarrow> usize option" and byte :: "'s \<Rightarrow> u32 \<Rightarrow> u8" and lim :: nat
    and acq :: "usize \<Rightarrow> 's \<Rightarrow> (u32 \<times> 's) option" and rel :: "u32 \<Rightarrow> 's \<Rightarrow> 's option" and sto :: "u32 \<Rightarrow> u8 \<Rightarrow> 's \<Rightarrow> 's"
  assumes blk_disjoint: "ok s \<Longrightarrow> in_block (blk s) p a \<Longrightarrow> in_block (blk s) q a \<Longrightarrow> p = q"
    and acq_law: "ok s \<Longrightarrow> unat n \<le> lim \<Longrightarrow> \<exists>p s'. acq n s = Some (p, s') \<and> ok s' \<and>
      (if p = 0 then blk s' = blk s else blk s p = None \<and> (\<exists>m \<ge> n. blk s' = (blk s)(p \<mapsto> m))) \<and>
      (\<forall>q a. in_block (blk s) q a \<longrightarrow> byte s' a = byte s a)"
    and rel_law: "ok s \<Longrightarrow> blk s p = Some n \<Longrightarrow> \<exists>s'. rel p s = Some s' \<and> ok s' \<and> blk s' = (blk s)(p := None) \<and> byte s' = byte s"
    and sto_law: "ok s \<Longrightarrow> in_block (blk s) p a \<Longrightarrow> ok (sto a v s) \<and> blk (sto a v s) = blk s \<and> byte (sto a v s) = (byte s)(a := v)"
begin

lemma step_safe:
  assumes "ok s" "legal_reqs blk lim acq rel sto (r # rs) s"
  obtains ps s1 where "\<forall>qs s'. run_reqs acq rel sto rs s1 = Some (qs, s') \<longrightarrow> run_reqs acq rel sto (r # rs) s = Some (ps @ qs, s')"
    "ok s1" "legal_reqs blk lim acq rel sto rs s1" "kept blk byte (released r) (written r) s s1"
proof (cases r)
  case (Acquire n)
  then obtain p s1 where s1: "acq n s = Some (p, s1)" "ok s1" "\<forall>q a. in_block (blk s) q a \<longrightarrow> byte s1 a = byte s a"
      "if p = 0 then blk s1 = blk s else blk s p = None \<and> (\<exists>m \<ge> n. blk s1 = (blk s)(p \<mapsto> m))"
    using acq_law [OF assms(1)] assms(2) by fastforce
  then have "kept blk byte {} {} s s1"
    by (auto simp: kept_def split: if_splits)
  then show ?thesis
    using that [where ps = "[p]" and ?s1.0 = s1] s1 assms(2) Acquire by simp
next
  case (Release p)
  then obtain s1 where s1: "rel p s = Some s1" "ok s1" "blk s1 = (blk s)(p := None)" "byte s1 = byte s"
    using rel_law [OF assms(1)] assms(2) by fastforce
  then show ?thesis
    using that [where ps = "[]" and ?s1.0 = s1] assms(2) Release by (simp add: kept_def)
next
  case (Store b v)
  then obtain p where "in_block (blk s) p b"
    using assms(2) by auto
  then show ?thesis
    using that [where ps = "[]" and ?s1.0 = "sto b v s"] sto_law [OF assms(1), of p b v] assms(2) Store by (simp add: kept_def)
qed

lemma run_safe:
  assumes "ok s" "legal_reqs blk lim acq rel sto rs s"
  shows "\<exists>ps s'. run_reqs acq rel sto rs s = Some (ps, s') \<and> ok s' \<and>
    kept blk byte (\<Union> (released ` set rs)) (\<Union> (written ` set rs)) s s'"
  using assms
proof (induction rs arbitrary: s)
  case (Cons r rs)
  obtain ps s1 where s1: "\<forall>qs s'. run_reqs acq rel sto rs s1 = Some (qs, s') \<longrightarrow> run_reqs acq rel sto (r # rs) s = Some (ps @ qs, s')"
      "ok s1" "legal_reqs blk lim acq rel sto rs s1" "kept blk byte (released r) (written r) s s1"
    by (rule step_safe [OF Cons.prems])
  then obtain qs s' where "run_reqs acq rel sto rs s1 = Some (qs, s')" "ok s'"
      "kept blk byte (\<Union> (released ` set rs)) (\<Union> (written ` set rs)) s1 s'"
    using Cons.IH by blast
  then show ?case
    using s1(1) kept_trans [OF s1(4)] by auto
qed (simp add: kept_def)

lemma run_disjoint:
  assumes "ok s" "legal_reqs blk lim acq rel sto rs s" "run_reqs acq rel sto rs s = Some (ps, s')"
    "in_block (blk s') p a" "in_block (blk s') q a"
  shows "p = q"
  using run_safe [OF assms(1,2)] assms(3-5) blk_disjoint by auto

end

end
