(* ===== verification/Heap.thy ===== *)
theory Heap
  imports Paging Block_Spec
begin

text \<open>
  The kernel heap: \<^verbatim>\<open>src/kernel/mm/heap.c\<close>. The headers in front of the blocks are typed objects in a store
  indexed by their addresses, a pointer is an address with 0 for \<open>NULL\<close>, and the other bytes of the heap are a
  function of their addresses. Following a pointer to an address without a header is a \<open>None\<close> result, as is
  an access of the frame manager outside its bitmap.
\<close>

section \<open>Model\<close>

record heap_chunk =
  csize :: usize
  cfree :: bool
  cprev :: u32
  cnext :: u32

record heap =
  heap_machine :: machine
  heap_base :: u32
  heap_start_addr :: u32
  heap_end_addr :: u32
  heap_max_addr :: u32
  heap_pd :: u32
  chunks :: "u32 \<Rightarrow> heap_chunk option"
  hbytes :: "u32 \<Rightarrow> u8"

text \<open>\<open>sizeof (heap_chunk_t)\<close>: four words. \<open>sizeof (void *)\<close> is 4 and \<open>SIZE_MAX\<close> is \<open>-1\<close>.\<close>

definition HDR :: u32 where "HDR = 16"

definition memset_zero :: "u32 \<Rightarrow> usize \<Rightarrow> (u32 \<Rightarrow> u8) \<Rightarrow> u32 \<Rightarrow> u8" where
  "memset_zero dst n B = (\<lambda>a. if a - dst < n then 0 else B a)"


text \<open>A pointer stored in memory, little-endian.\<close>

definition load_ptr :: "u32 \<Rightarrow> (u32 \<Rightarrow> u8) \<Rightarrow> u32" where
  "load_ptr a B = ucast (B a) OR push_bit 8 (ucast (B (a + 1))) OR push_bit 16 (ucast (B (a + 2)))
     OR push_bit 24 (ucast (B (a + 3)))"

definition store_ptr :: "u32 \<Rightarrow> u32 \<Rightarrow> (u32 \<Rightarrow> u8) \<Rightarrow> u32 \<Rightarrow> u8" where
  "store_ptr a v B = B(a := ucast v, a + 1 := ucast (drop_bit 8 v), a + 2 := ucast (drop_bit 16 v),
     a + 3 := ucast (drop_bit 24 v))"

text \<open>
  The backing of one page: a mapped frame once there is a page directory, the identity-mapped frames reserved
  before that. Clearing a page clears whatever was in it, headers included.
\<close>

definition back_page :: "heap \<Rightarrow> (Errno \<times> heap) option" where
  "back_page h =
     (if heap_pd h \<noteq> 0 then do {
        (f, m) \<leftarrow> alloc (heap_machine h);
        if f = 0 then Some (ERR_FRAME_UNAVAILABLE, h\<lparr>heap_machine := m\<rparr>)
        else do {
          m \<leftarrow> vmm_map_page f (heap_end_addr h) PAGE_RW (heap_pd h) m;
          Some (ERR_SUCCESS, h\<lparr>heap_machine := m\<rparr>)
        }
      }
      else do {
        let phys = heap_end_addr h;
        (r, p) \<leftarrow> pmm_reserve_region phys (phys + PAGE_SIZE) (frames (heap_machine h));
        Some (ERR_SUCCESS, h\<lparr>heap_machine := (heap_machine h)\<lparr>frames := p\<rparr>\<rparr>)
      })"

definition clear_page :: "heap \<Rightarrow> heap" where
  "clear_page h = h\<lparr>chunks := (\<lambda>a. if a - heap_end_addr h < PAGE_SIZE then None else chunks h a),
     hbytes := memset_zero (heap_end_addr h) PAGE_SIZE (hbytes h), heap_end_addr := heap_end_addr h + PAGE_SIZE\<rparr>"

fun expand_loop :: "nat \<Rightarrow> heap \<Rightarrow> (Errno \<times> heap) option" where
  "expand_loop 0 h = Some (ERR_SUCCESS, h)"
| "expand_loop (Suc n) h =
     (if heap_end_addr h + PAGE_SIZE > heap_max_addr h then Some (ERR_HEAP_EXHAUSTED, h)
      else do {
        (rc, h) \<leftarrow> back_page h;
        if rc \<noteq> ERR_SUCCESS then Some (rc, h) else expand_loop n (clear_page h)
      })"

definition expand_heap_by_pages :: "u32 \<Rightarrow> heap \<Rightarrow> (Errno \<times> heap) option" where
  "expand_heap_by_pages pages h = expand_loop (unat pages) h"

definition heap_init :: "u32 \<Rightarrow> u32 \<Rightarrow> u32 \<Rightarrow> heap \<Rightarrow> heap" where
  "heap_init heap_start heap_max dir h =
     h\<lparr>heap_start_addr := heap_start, heap_end_addr := heap_start, heap_max_addr := heap_max, heap_pd := dir, heap_base := 0\<rparr>"

text \<open>First fit, and the walk to the last chunk; a cyclic list is walked forever.\<close>

partial_function (option) find_free_chunk :: "usize \<Rightarrow> (u32 \<Rightarrow> heap_chunk option) \<Rightarrow> u32 \<Rightarrow> u32 option" where
  "find_free_chunk sz H cur =
     (if cur = 0 then Some 0
      else do {
        c \<leftarrow> H cur;
        if cfree c \<and> csize c \<ge> sz then Some cur else find_free_chunk sz H (cnext c)
      })"

partial_function (option) last_chunk :: "(u32 \<Rightarrow> heap_chunk option) \<Rightarrow> u32 \<Rightarrow> u32 option" where
  "last_chunk H cur = do {
     c \<leftarrow> H cur;
     if cnext c \<noteq> 0 then last_chunk H (cnext c) else Some cur
   }"

definition upd_chunk :: "u32 \<Rightarrow> (heap_chunk \<Rightarrow> heap_chunk) \<Rightarrow> heap \<Rightarrow> heap option" where
  "upd_chunk a f h = do { c \<leftarrow> chunks h a; Some (h\<lparr>chunks := (chunks h)(a \<mapsto> f c)\<rparr>) }"

definition request_space :: "usize \<Rightarrow> heap \<Rightarrow> (u32 \<times> heap) option" where
  "request_space sz h =
     (let total = sz + HDR; needed_pages = (total + PAGE_SIZE - 1) div PAGE_SIZE in do {
        (rc, h) \<leftarrow> expand_heap_by_pages needed_pages h;
        if rc \<noteq> ERR_SUCCESS then Some (0, h)
        else do {
          let chunk = heap_end_addr h - needed_pages * PAGE_SIZE;
          let h = h\<lparr>chunks := (chunks h)(chunk \<mapsto> \<lparr>csize = sz, cfree = False, cprev = 0, cnext = 0\<rparr>)\<rparr>;
          if heap_base h = 0 then Some (chunk, h\<lparr>heap_base := chunk\<rparr>)
          else do {
            cur \<leftarrow> last_chunk (chunks h) (heap_base h);
            h \<leftarrow> upd_chunk cur (\<lambda>c. c\<lparr>cnext := chunk\<rparr>) h;
            h \<leftarrow> upd_chunk chunk (\<lambda>c. c\<lparr>cprev := cur\<rparr>) h;
            Some (chunk, h)
          }
        }
      })"

definition malloc :: "usize \<Rightarrow> heap \<Rightarrow> (u32 \<times> heap) option" where
  "malloc sz h =
     (if sz = 0 then Some (0, h)
      else do {
        chunk \<leftarrow> find_free_chunk sz (chunks h) (heap_base h);
        if chunk \<noteq> 0 then do {
          h \<leftarrow> upd_chunk chunk (\<lambda>c. c\<lparr>cfree := False\<rparr>) h;
          Some (chunk + HDR, h)
        }
        else do {
          (chunk, h) \<leftarrow> request_space sz h;
          Some (if chunk = 0 then 0 else chunk + HDR, h)
        }
      })"

text \<open>The two halves of coalescing in \<open>free\<close>.\<close>

definition merge_next :: "u32 \<Rightarrow> heap \<Rightarrow> heap option" where
  "merge_next chunk h = do {
     c \<leftarrow> chunks h chunk;
     if cnext c = 0 then Some h
     else do {
       n \<leftarrow> chunks h (cnext c);
       if \<not> cfree n then Some h
       else do {
         h \<leftarrow> upd_chunk chunk (\<lambda>c. c\<lparr>csize := csize c + (HDR + csize n), cnext := cnext n\<rparr>) h;
         if cnext n \<noteq> 0 then upd_chunk (cnext n) (\<lambda>d. d\<lparr>cprev := chunk\<rparr>) h else Some h
       }
     }
   }"

definition merge_prev :: "u32 \<Rightarrow> heap \<Rightarrow> heap option" where
  "merge_prev chunk h = do {
     c \<leftarrow> chunks h chunk;
     if cprev c = 0 then Some h
     else do {
       p \<leftarrow> chunks h (cprev c);
       if \<not> cfree p then Some h
       else do {
         h \<leftarrow> upd_chunk (cprev c) (\<lambda>p. p\<lparr>csize := csize p + (HDR + csize c), cnext := cnext c\<rparr>) h;
         if cnext c \<noteq> 0 then upd_chunk (cnext c) (\<lambda>d. d\<lparr>cprev := cprev c\<rparr>) h else Some h
       }
     }
   }"

definition free :: "u32 \<Rightarrow> heap \<Rightarrow> heap option" where
  "free ptr h =
     (if ptr = 0 then Some h
      else do {
        let chunk = ptr - HDR;
        h \<leftarrow> upd_chunk chunk (\<lambda>c. c\<lparr>cfree := True\<rparr>) h;
        h \<leftarrow> merge_next chunk h;
        merge_prev chunk h
      })"

definition free_align :: "u32 \<Rightarrow> heap \<Rightarrow> (Errno \<times> heap) option" where
  "free_align ptr h =
     (if ptr = 0 then Some (ERR_INVALID_ARGUMENT, h)
      else do {
        h \<leftarrow> free (load_ptr (ptr - 4) (hbytes h)) h;
        Some (ERR_SUCCESS, h)
      })"

definition malloc_usable_size :: "u32 \<Rightarrow> heap \<Rightarrow> usize option" where
  "malloc_usable_size ptr h = (if ptr = 0 then Some 0 else map_option csize (chunks h (ptr - HDR)))"

definition calloc :: "usize \<Rightarrow> usize \<Rightarrow> heap \<Rightarrow> (u32 \<times> heap) option" where
  "calloc nmemb sz h =
     (if nmemb = 0 \<or> sz = 0 then Some (0, h)
      else if nmemb > (- 1) div sz then Some (0, h)
      else do {
        let total = nmemb * sz;
        (p, h) \<leftarrow> malloc total h;
        Some (p, if p = 0 then h else h\<lparr>hbytes := memset_zero p total (hbytes h)\<rparr>)
      })"


definition malloc_align :: "usize \<Rightarrow> usize \<Rightarrow> heap \<Rightarrow> (u32 \<times> heap) option" where
  "malloc_align sz align h =
     (if align = 0 \<or> align AND (align - 1) \<noteq> 0 then Some (0, h)
      else do {
        let total = sz + align - 1 + 4;
        (raw, h) \<leftarrow> malloc total h;
        if raw = 0 then Some (0, h)
        else do {
          let aligned = align_up (raw + 4) align;
          Some (aligned, h\<lparr>hbytes := store_ptr (aligned - 4) raw (hbytes h)\<rparr>)
        }
      })"

section \<open>The chunk list\<close>

text \<open>
  A segment of the list: it starts at \<open>x\<close>, whose predecessor is \<open>p\<close>, above the address \<open>lo\<close>, and leads to
  \<open>x'\<close>, whose predecessor is \<open>p'\<close>, above \<open>lo'\<close>; the chunks lie one behind the other.
\<close>

definition chunk_end :: "u32 \<Rightarrow> heap_chunk \<Rightarrow> nat" where
  "chunk_end a c = unat a + 16 + unat (csize c)"

fun seg :: "(u32 \<Rightarrow> heap_chunk option) \<Rightarrow> nat \<Rightarrow> u32 \<Rightarrow> u32 \<Rightarrow> u32 list \<Rightarrow> nat \<Rightarrow> u32 \<Rightarrow> u32 \<Rightarrow> bool" where
  "seg H lo p x [] lo' p' x' \<longleftrightarrow> lo = lo' \<and> p = p' \<and> x = x'"
| "seg H lo p x (a # as) lo' p' x' \<longleftrightarrow> x = a \<and> a \<noteq> 0 \<and> lo \<le> unat a \<and>
     (\<exists>c. H a = Some c \<and> cprev c = p \<and> seg H (chunk_end a c) a (cnext c) as lo' p' x')"

lemma seg_append:
  "seg H lo p x (as @ bs) lo' p' x' \<longleftrightarrow> (\<exists>l q y. seg H lo p x as l q y \<and> seg H l q y bs lo' p' x')"
  by (induction as arbitrary: lo p x) auto

lemma seg_cong:
  "(\<And>a. a \<in> set as \<Longrightarrow> H' a = H a) \<Longrightarrow> seg H' lo p x as lo' p' x' \<longleftrightarrow> seg H lo p x as lo' p' x'"
  by (induction as arbitrary: lo p x) auto

lemma seg_bounds: "seg H lo p x as lo' p' x' \<Longrightarrow> lo \<le> lo'"
  by (induction as arbitrary: lo p x) (fastforce simp: chunk_end_def)+

lemma seg_chunk:
  assumes "seg H lo p x as lo' p' x'" "a \<in> set as"
  shows "\<exists>c. H a = Some c \<and> a \<noteq> 0 \<and> lo \<le> unat a \<and> chunk_end a c \<le> lo'"
  using assms
proof (induction as arbitrary: lo p x)
  case (Cons b as)
  then obtain c where c: "H b = Some c" "lo \<le> unat b" "b \<noteq> 0" "seg H (chunk_end b c) b (cnext c) as lo' p' x'"
    by auto
  then have "chunk_end b c \<le> lo'" "lo \<le> chunk_end b c"
    using seg_bounds by (auto simp: chunk_end_def)
  then show ?case
    using Cons.IH [OF c(4)] Cons.prems(2) c by fastforce
qed simp

lemma seg_disjoint:
  assumes "seg H lo p x as lo' p' x'" "a \<in> set as" "b \<in> set as" "a \<noteq> b" "H a = Some c" "H b = Some d"
  shows "chunk_end a c \<le> unat b \<or> chunk_end b d \<le> unat a"
  using assms(1-4)
proof (induction as arbitrary: lo p x)
  case (Cons e as)
  then obtain f where f: "H e = Some f" "seg H (chunk_end e f) e (cnext f) as lo' p' x'"
    by auto
  then show ?case
    using Cons.IH [OF f(2)] Cons.prems seg_chunk [OF f(2)] assms(5,6) by fastforce
qed simp

lemma seg_distinct: "seg H lo p x as lo' p' x' \<Longrightarrow> distinct as"
proof (induction as arbitrary: lo p x)
  case (Cons a as)
  then obtain c where "seg H (chunk_end a c) a (cnext c) as lo' p' x'"
    by auto
  then show ?case
    using Cons.IH seg_chunk [where a = a and as = as] by (fastforce simp: chunk_end_def)
qed simp

lemma seg_update:
  assumes "seg H lo p x as lo' p' x'" "b \<notin> set as"
  shows "seg (H(b := v)) lo p x as lo' p' x'"
  using assms by (subst seg_cong [of as _ H]) auto

lemma seg_flag:
  assumes "seg H lo p x as lo' p' x'" "H b = Some c"
  shows "seg (H(b \<mapsto> c\<lparr>cfree := f\<rparr>)) lo p x as lo' p' x'"
  using assms by (induction as arbitrary: lo p x) (auto simp: chunk_end_def)

text \<open>The chunks reached from an address, as the walks of the code reach them.\<close>

inductive_set chain :: "(u32 \<Rightarrow> heap_chunk option) \<Rightarrow> u32 \<Rightarrow> u32 set" for H x where
  start: "x \<noteq> 0 \<Longrightarrow> x \<in> chain H x"
| step: "a \<in> chain H x \<Longrightarrow> H a = Some c \<Longrightarrow> cnext c \<noteq> 0 \<Longrightarrow> cnext c \<in> chain H x"

lemma chain_step: "H x = Some c \<Longrightarrow> x \<noteq> 0 \<Longrightarrow> chain H x = insert x (chain H (cnext c))"
proof (intro equalityI subsetI)
  fix a
  assume H: "H x = Some c" "x \<noteq> 0"
  {
    assume "a \<in> chain H x"
    then show "a \<in> insert x (chain H (cnext c))"
      by induction (use H in \<open>auto intro: chain.intros\<close>)
  }
  assume "a \<in> insert x (chain H (cnext c))"
  moreover have "b \<in> chain H x" if "b \<in> chain H (cnext c)" for b
    using that by induction (use H in \<open>auto intro: chain.intros\<close>)
  ultimately show "a \<in> chain H x"
    using H(2) chain.start by auto
qed

lemma chain_null: "chain H 0 = {}"
proof -
  have "False" if "a \<in> chain H 0" for a
    using that by induction auto
  then show ?thesis by auto
qed

lemma seg_chain: "seg H lo p x as lo' p' 0 \<Longrightarrow> chain H x = set as"
  by (induction as arbitrary: lo p x) (auto simp: chain_null chain_step)

lemma find_free_chunk_seg:
  "seg H lo p x as lo' p' 0 \<Longrightarrow> find_free_chunk n H x =
     Some (case find (\<lambda>a. cfree (the (H a)) \<and> csize (the (H a)) \<ge> n) as of None \<Rightarrow> 0 | Some a \<Rightarrow> a)"
  by (induction as arbitrary: lo p x) (subst find_free_chunk.simps, auto)+

lemma last_chunk_seg: "seg H lo p x (as @ [q]) lo' q 0 \<Longrightarrow> last_chunk H x = Some q"
proof (induction as arbitrary: lo p x)
  case Nil
  then show ?case by (subst last_chunk.simps) auto
next
  case (Cons a as)
  then obtain c where "H x = Some c" "seg H (chunk_end a c) a (cnext c) (as @ [q]) lo' q 0"
    by auto
  moreover have "cnext c \<noteq> 0"
    using calculation(2) by (cases as) auto
  ultimately show ?case
    using Cons.IH by (subst last_chunk.simps) auto
qed

section \<open>The invariant\<close>

definition backing_ok :: "heap \<Rightarrow> bool" where
  "backing_ok h \<longleftrightarrow> (if heap_pd h \<noteq> 0 then as_wf (heap_machine h) (heap_pd h)
     else pmm_inv (frames (heap_machine h)) \<and> frames_up_to (heap_max_addr h) \<le> nframes (frames (heap_machine h)))"

definition heap_wf_list :: "heap \<Rightarrow> u32 list \<Rightarrow> nat \<Rightarrow> u32 \<Rightarrow> bool" where
  "heap_wf_list h cs hi q \<longleftrightarrow> seg (chunks h) (unat (heap_start_addr h)) 0 (heap_base h) cs hi q 0 \<and> hi \<le> unat (heap_end_addr h) \<and>
     heap_start_addr h \<noteq> 0 \<and> heap_start_addr h \<le> heap_end_addr h \<and> heap_end_addr h \<le> heap_max_addr h \<and>
     unat (heap_max_addr h) < 0xFFFFF000 \<and> backing_ok h"

definition heap_wf :: "heap \<Rightarrow> bool" where
  "heap_wf h \<longleftrightarrow> (\<exists>cs hi q. heap_wf_list h cs hi q)"

text \<open>The blocks in use, by the pointers handed out: their sizes.\<close>

definition live :: "heap \<Rightarrow> u32 \<Rightarrow> usize option" where
  "live h p = (case chunks h (p - HDR) of
      None \<Rightarrow> None
    | Some c \<Rightarrow> if p - HDR \<in> chain (chunks h) (heap_base h) \<and> \<not> cfree c then Some (csize c) else None)"

lemma live_list:
  assumes "heap_wf_list h cs hi q"
  shows "live h p = (if p - HDR \<in> set cs \<and> \<not> cfree (the (chunks h (p - HDR))) then Some (csize (the (chunks h (p - HDR)))) else None)"
proof -
  have "seg (chunks h) (unat (heap_start_addr h)) 0 (heap_base h) cs hi q 0"
    using assms by (simp add: heap_wf_list_def)
  then show ?thesis
    using seg_chain seg_chunk by (fastforce simp: live_def split: option.split)
qed

lemma unat_hdr:
  assumes "heap_wf_list h cs hi q" "a \<in> set cs"
  shows "unat (a + HDR) = unat a + 16" "a \<noteq> 0" "\<exists>c. chunks h a = Some c \<and> chunk_end a c \<le> unat (heap_end_addr h)"
proof -
  obtain c where c: "chunks h a = Some c" "chunk_end a c \<le> hi" "a \<noteq> 0"
    using seg_chunk assms by (fastforce simp: heap_wf_list_def)
  then show "\<exists>c. chunks h a = Some c \<and> chunk_end a c \<le> unat (heap_end_addr h)" "a \<noteq> 0"
    using assms(1) by (auto simp: heap_wf_list_def)
  have "unat a + 16 < 2 ^ 32"
    using c assms(1) by (auto simp: heap_wf_list_def chunk_end_def word_le_nat_alt)
  then show "unat (a + HDR) = unat a + 16"
    by (simp add: HDR_def unat_word_ariths)
qed

lemma live_bounds:
  assumes "heap_wf h" "live h p = Some n"
  shows "p \<noteq> 0" "unat (heap_start_addr h) + 16 \<le> unat p" "unat p + unat n \<le> unat (heap_end_addr h)"
    "unat (p - HDR) + 16 = unat p"
proof -
  obtain cs hi q where w: "heap_wf_list h cs hi q"
    using assms(1) by (auto simp: heap_wf_def)
  then have p: "p - HDR \<in> set cs" "n = csize (the (chunks h (p - HDR)))"
    using assms(2) live_list [OF w] by (auto split: if_splits)
  note u = unat_hdr [OF w p(1)]
  then show 1: "unat (p - HDR) + 16 = unat p"
    by simp
  show "unat p + unat n \<le> unat (heap_end_addr h)"
    using u(3) p(2) 1 by (auto simp: chunk_end_def)
  have "unat (heap_start_addr h) \<le> unat (p - HDR)"
    using w p(1) seg_chunk by (fastforce simp: heap_wf_list_def)
  then show "unat (heap_start_addr h) + 16 \<le> unat p" "p \<noteq> 0"
    using 1 by auto
qed

lemma live_disjoint:
  assumes "heap_wf h" "live h p = Some n" "live h r = Some m" "p \<noteq> r"
  shows "unat p + unat n \<le> unat r - 16 \<or> unat r + unat m \<le> unat p - 16"
proof -
  obtain cs hi q where w: "heap_wf_list h cs hi q"
    using assms(1) by (auto simp: heap_wf_def)
  have p: "p - HDR \<in> set cs" "n = csize (the (chunks h (p - HDR)))" "r - HDR \<in> set cs" "m = csize (the (chunks h (r - HDR)))"
    using assms(2,3) live_list [OF w] by (auto split: if_splits)
  moreover have "p - HDR \<noteq> r - HDR"
    using assms(4) by simp
  moreover have "seg (chunks h) (unat (heap_start_addr h)) 0 (heap_base h) cs hi q 0"
    using w by (simp add: heap_wf_list_def)
  ultimately have "unat (p - HDR) + 16 + unat n \<le> unat (r - HDR) \<or> unat (r - HDR) + 16 + unat m \<le> unat (p - HDR)"
    using seg_disjoint [of "chunks h" _ _ _ cs _ _ _ "p - HDR" "r - HDR"] unat_hdr(3) [OF w p(1)] unat_hdr(3) [OF w p(3)]
    by (fastforce simp: chunk_end_def)
  then show ?thesis
    using live_bounds(4) [OF assms(1,2)] live_bounds(4) [OF assms(1,3)] by auto
qed

section \<open>Growing the heap\<close>

lemma reserve_page_ok:
  assumes "pmm_inv p" "a < e" "unat e \<le> 0xFFFFF000" "frames_up_to e \<le> nframes p"
  shows "\<exists>p'. pmm_reserve_region a e p = Some (err ERR_SUCCESS, p') \<and> pmm_inv p' \<and> nframes p' = nframes p"
proof -
  note al = align_up_loop_end [OF assms(3)]
  have k: "frame_no a \<le> frames_up_to (align_up e PMM_FRAME_SIZE)" and n: "frames_up_to (align_up e PMM_FRAME_SIZE) \<le> nframes p"
    using frame_no_le_up_to [OF assms(2)] assms(4) al by simp_all
  have upd: "frame_no a \<le> f \<Longrightarrow> insert f (used_set p \<union> {frame_no a..<f}) = used_set p \<union> {frame_no a..<Suc f}" for f
    by auto
  show ?thesis
    using region_loop [where upd = insert, OF assms(1) al(2) n k reserve_frame_spec upd] assms(2)
    by (auto simp: pmm_reserve_region_def align_down_frame)
qed

lemma as_wf_more_used:
  assumes "as_wf m pd" "pmm_ok p" "used_set p \<supseteq> used_set (frames m)"
  shows "as_wf (m\<lparr>frames := p\<rparr>) pd"
  using assms by (auto simp: as_wf_def)

lemma next_page:
  assumes "heap_wf_list h cs hi q" "\<not> heap_end_addr h + PAGE_SIZE > heap_max_addr h"
  shows "unat (heap_end_addr h + PAGE_SIZE) = unat (heap_end_addr h) + 4096"
    "unat (heap_end_addr h) + 4096 \<le> unat (heap_max_addr h)" "unat (heap_max_addr h) < 0xFFFFF000"
proof -
  have "unat (heap_end_addr h) < 0xFFFFF000" "unat (heap_max_addr h) < 0xFFFFF000"
    using assms(1) by (auto simp: heap_wf_list_def word_le_nat_alt)
  then show "unat (heap_end_addr h + PAGE_SIZE) = unat (heap_end_addr h) + 4096" "unat (heap_max_addr h) < 0xFFFFF000"
    by (simp_all add: PAGE_SIZE_def unat_word_ariths)
  then show "unat (heap_end_addr h) + 4096 \<le> unat (heap_max_addr h)"
    using assms(2) by (simp add: word_less_nat_alt)
qed

lemma back_page_ok:
  assumes w: "heap_wf_list h cs hi q" and room: "\<not> heap_end_addr h + PAGE_SIZE > heap_max_addr h"
  shows "\<exists>rc m. back_page h = Some (rc, h\<lparr>heap_machine := m\<rparr>) \<and> backing_ok (h\<lparr>heap_machine := m\<rparr>)"
proof (cases "heap_pd h = 0")
  case True
  note n = next_page [OF w room]
  have "frames_up_to (heap_end_addr h + PAGE_SIZE) \<le> frames_up_to (heap_max_addr h)"
    using n by (auto simp: frames_up_to_def intro!: div_le_mono)
  then obtain p' where p: "pmm_reserve_region (heap_end_addr h) (heap_end_addr h + PAGE_SIZE) (frames (heap_machine h)) = Some (0, p')"
      "pmm_inv p'" "nframes p' = nframes (frames (heap_machine h))"
    using w True n reserve_page_ok [of "frames (heap_machine h)" "heap_end_addr h" "heap_end_addr h + PAGE_SIZE"]
    by (auto simp: heap_wf_list_def backing_ok_def word_less_nat_alt)
  then have "back_page h = Some (ERR_SUCCESS, h\<lparr>heap_machine := (heap_machine h)\<lparr>frames := p'\<rparr>\<rparr>)"
    using True by (simp add: back_page_def)
  moreover have "backing_ok (h\<lparr>heap_machine := (heap_machine h)\<lparr>frames := p'\<rparr>\<rparr>)"
    using w True p by (auto simp: heap_wf_list_def backing_ok_def)
  ultimately show ?thesis
    by blast
next
  case False
  then have a: "as_wf (heap_machine h) (heap_pd h)"
    using w by (simp add: heap_wf_list_def backing_ok_def)
  then have "pmm_ok (frames (heap_machine h))"
    by (simp add: as_wf_def)
  then show ?thesis
  proof (cases rule: alloc_cases)
    case exhausted
    then show ?thesis
      using False a
      by (intro exI [of _ ERR_FRAME_UNAVAILABLE] exI [of _ "heap_machine h"]) (simp add: back_page_def backing_ok_def)
  next
    case (fresh f p)
    have m: "as_wf ((heap_machine h)\<lparr>frames := p\<rparr>) (heap_pd h)"
      using as_wf_more_used [OF a fresh(5)] fresh(6) by auto
    obtain m' where "vmm_map_page f (heap_end_addr h) PAGE_RW (heap_pd h) ((heap_machine h)\<lparr>frames := p\<rparr>) = Some m'"
        "as_wf m' (heap_pd h)"
      using vmm_map_page_cases [OF m] m by metis
    then show ?thesis
      using False fresh(1,2) by (auto simp: back_page_def backing_ok_def)
  qed
qed

text \<open>Growing keeps the list and every byte below the old end; the new pages are zero.\<close>

lemma clear_page_wf:
  assumes w: "heap_wf_list h cs hi q" and room: "\<not> heap_end_addr h + PAGE_SIZE > heap_max_addr h"
  shows "heap_wf_list (clear_page h) cs hi q" "unat (heap_end_addr (clear_page h)) = unat (heap_end_addr h) + 4096"
    "unat a < unat (heap_end_addr h) \<Longrightarrow> hbytes (clear_page h) a = hbytes h a"
    "unat a < unat (heap_end_addr h) \<Longrightarrow> chunks (clear_page h) a = chunks h a"
proof -
  note n = next_page [OF w room]
  have far: "\<not> b - heap_end_addr h < PAGE_SIZE" if "unat b < unat (heap_end_addr h)" for b
  proof -
    have "unat (b - heap_end_addr h) = unat b + 2 ^ 32 - unat (heap_end_addr h)"
      using that by (simp add: unat_sub_if')
    then show ?thesis
      using n by (simp add: word_less_nat_alt PAGE_SIZE_def)
  qed
  then show "unat a < unat (heap_end_addr h) \<Longrightarrow> hbytes (clear_page h) a = hbytes h a"
    "unat a < unat (heap_end_addr h) \<Longrightarrow> chunks (clear_page h) a = chunks h a"
    by (auto simp: clear_page_def memset_zero_def)
  have "unat a < unat (heap_end_addr h)" if "a \<in> set cs" for a
    using unat_hdr(3) [OF w that] by (auto simp: chunk_end_def)
  then have "seg (chunks (clear_page h)) (unat (heap_start_addr h)) 0 (heap_base h) cs hi q 0"
    using w far by (subst seg_cong [of cs _ "chunks h"]) (auto simp: clear_page_def heap_wf_list_def)
  then show "heap_wf_list (clear_page h) cs hi q"
    using w n by (auto simp: heap_wf_list_def clear_page_def backing_ok_def word_le_nat_alt)
  show "unat (heap_end_addr (clear_page h)) = unat (heap_end_addr h) + 4096"
    using n(1) by (simp add: clear_page_def)
qed

lemma expand_ok:
  assumes "heap_wf_list h cs hi q"
  shows "\<exists>rc h'. expand_loop n h = Some (rc, h') \<and> heap_wf_list h' cs hi q \<and> heap_base h' = heap_base h \<and>
    heap_start_addr h' = heap_start_addr h \<and> unat (heap_end_addr h) \<le> unat (heap_end_addr h') \<and>
    (rc = ERR_SUCCESS \<longrightarrow> unat (heap_end_addr h') = unat (heap_end_addr h) + 4096 * n) \<and>
    (\<forall>a. unat a < unat (heap_end_addr h) \<longrightarrow> hbytes h' a = hbytes h a \<and> chunks h' a = chunks h a)"
  using assms
proof (induction n arbitrary: h)
  case (Suc n)
  show ?case
  proof (cases "heap_end_addr h + PAGE_SIZE > heap_max_addr h")
    case False
    obtain rc m where b: "back_page h = Some (rc, h\<lparr>heap_machine := m\<rparr>)" "backing_ok (h\<lparr>heap_machine := m\<rparr>)"
      using back_page_ok [OF Suc.prems False] by blast
    then have w: "heap_wf_list (h\<lparr>heap_machine := m\<rparr>) cs hi q"
      using Suc.prems by (simp add: heap_wf_list_def)
    have room: "\<not> heap_end_addr (h\<lparr>heap_machine := m\<rparr>) + PAGE_SIZE > heap_max_addr (h\<lparr>heap_machine := m\<rparr>)"
      using False by simp
    note c = clear_page_wf [OF w room]
    show ?thesis
    proof (cases "rc = ERR_SUCCESS")
      case True
      then show ?thesis
        using Suc.IH [OF c(1)] False b(1) c(2-4) by (auto simp: clear_page_def)
    next
      case rc: False
      then show ?thesis
        using False b(1) w by auto
    qed
  qed (use Suc.prems in auto)
qed auto

lemma seg_last:
  assumes "seg H lo p x (cs @ [l]) hi q y"
  shows "q = l" "\<exists>c. H l = Some c \<and> cnext c = y"
  using assms by (auto simp: seg_append)

lemma seg_extend:
  assumes s: "seg H lo p x (cs @ [l]) hi q 0" and c: "H l = Some c"
    and a: "hi \<le> unat a" "a \<noteq> 0" "cprev d = l" "cnext d = 0"
  shows "seg (H(l \<mapsto> c\<lparr>cnext := a\<rparr>, a \<mapsto> d)) lo p x (cs @ [l, a]) (chunk_end a d) a 0"
proof -
  have d: "distinct (cs @ [l])" "chunk_end l c \<le> hi"
    using seg_distinct [OF s] seg_chunk [OF s, of l] c by auto
  have "b \<noteq> a" if "b \<in> set (cs @ [l])" for b
    using seg_chunk [OF s that] a(1) by (auto simp: chunk_end_def)
  then have "a \<notin> set cs" "a \<noteq> l"
    by auto
  moreover obtain m r where m: "seg H lo p x cs m r l" "m \<le> unat l" "l \<noteq> 0" "cprev c = r" "chunk_end l c = hi"
    using s c by (auto simp: seg_append)
  ultimately have "seg (H(l \<mapsto> c\<lparr>cnext := a\<rparr>, a \<mapsto> d)) lo p x cs m r l"
    using seg_update [OF seg_update [OF m(1), of l], of a] d(1) by simp
  then show ?thesis
    using m a d(2) \<open>a \<noteq> l\<close> by (auto simp: seg_append chunk_end_def)
qed

text \<open>The chunks of a list read the same in two stores, apart from the links.\<close>

definition same_chunks :: "u32 list \<Rightarrow> (u32 \<Rightarrow> heap_chunk option) \<Rightarrow> (u32 \<Rightarrow> heap_chunk option) \<Rightarrow> bool" where
  "same_chunks cs H H' \<longleftrightarrow> (\<forall>a \<in> set cs. map_option (\<lambda>c. (csize c, cfree c)) (H' a) = map_option (\<lambda>c. (csize c, cfree c)) (H a))"

lemma request_pages:
  assumes "unat sz \<le> 0xFFFFEFF0"
  shows "unat ((sz + HDR + PAGE_SIZE - 1) div PAGE_SIZE) * 4096 \<ge> unat sz + 16"
proof -
  have "unat (sz + HDR + PAGE_SIZE - 1) = unat sz + 16 + 4095"
    using assms by (simp add: HDR_def PAGE_SIZE_def unat_word_ariths)
  then have "unat ((sz + HDR + PAGE_SIZE - 1) div PAGE_SIZE) = (unat sz + 16 + 4095) div 4096"
    by (simp add: unat_div_distrib PAGE_SIZE_def)
  then show ?thesis
    by linarith
qed

lemma request_space_shape:
  assumes w: "heap_wf_list h cs hi q"
  shows "\<exists>a h'. request_space sz h = Some (a, h') \<and> heap_start_addr h' = heap_start_addr h \<and>
    (\<forall>b. unat b < unat (heap_end_addr h) \<longrightarrow> hbytes h' b = hbytes h b) \<and> same_chunks cs (chunks h) (chunks h') \<and>
    (if a = 0 then heap_wf_list h' cs hi q
     else a = heap_end_addr h \<and> unat (heap_end_addr h') = unat a + 4096 * unat ((sz + HDR + PAGE_SIZE - 1) div PAGE_SIZE) \<and>
       seg (chunks h') (unat (heap_start_addr h)) 0 (heap_base h') (cs @ [a]) (unat a + 16 + unat sz) a 0 \<and>
       (unat a + 16 + unat sz \<le> unat (heap_end_addr h') \<longrightarrow> heap_wf_list h' (cs @ [a]) (unat a + 16 + unat sz) a) \<and>
       map_option (\<lambda>c. (csize c, cfree c)) (chunks h' a) = Some (sz, False) \<and> a \<notin> set cs)"
proof -
  let ?n = "(sz + HDR + PAGE_SIZE - 1) div PAGE_SIZE"
  obtain rc h1 where e: "expand_loop (unat ?n) h = Some (rc, h1)" "heap_wf_list h1 cs hi q" "heap_base h1 = heap_base h"
      "heap_start_addr h1 = heap_start_addr h"
      "rc = ERR_SUCCESS \<longrightarrow> unat (heap_end_addr h1) = unat (heap_end_addr h) + 4096 * unat ?n"
      "\<forall>a. unat a < unat (heap_end_addr h) \<longrightarrow> hbytes h1 a = hbytes h a \<and> chunks h1 a = chunks h a"
    using expand_ok [OF w, of "unat ?n"] by auto
  have below: "unat b < unat (heap_end_addr h)" if "b \<in> set cs" for b
    using unat_hdr(3) [OF w that] by (auto simp: chunk_end_def)
  show ?thesis
  proof (cases "rc = ERR_SUCCESS")
    case False
    then show ?thesis
      using e below by (auto simp: request_space_def expand_heap_by_pages_def same_chunks_def)
  next
    case True
    let ?a = "heap_end_addr h1 - ?n * PAGE_SIZE" and ?new = "\<lparr>csize = sz, cfree = False, cprev = 0, cnext = 0\<rparr>"
    have "of_nat (unat (heap_end_addr h1)) = (of_nat (unat (heap_end_addr h) + 4096 * unat ?n) :: u32)"
      using e(5) True by simp
    then have a: "?a = heap_end_addr h"
      by (simp add: PAGE_SIZE_def algebra_simps)
    have ne: "heap_end_addr h \<noteq> 0" "unat (heap_end_addr h1) = unat (heap_end_addr h) + 4096 * unat ?n"
      using w e(5) True by (auto simp: heap_wf_list_def word_le_nat_alt unat_eq_0)
    have fresh: "heap_end_addr h \<notin> set cs"
      using below by auto
    show ?thesis
    proof (cases cs rule: rev_cases)
      case Nil
      then have "heap_base h = 0"
        using w by (auto simp: heap_wf_list_def)
      let ?h' = "h1\<lparr>chunks := (chunks h1)(heap_end_addr h \<mapsto> ?new), heap_base := heap_end_addr h\<rparr>"
      have "request_space sz h = Some (heap_end_addr h, ?h')"
        using e(1,3) True a \<open>heap_base h = 0\<close> by (simp add: request_space_def expand_heap_by_pages_def Let_def)
      moreover have "seg (chunks ?h') (unat (heap_start_addr h)) 0 (heap_end_addr h) (cs @ [heap_end_addr h])
          (unat (heap_end_addr h) + 16 + unat sz) (heap_end_addr h) 0"
        using ne(1) Nil w by (auto simp: heap_wf_list_def chunk_end_def word_le_nat_alt)
      ultimately show ?thesis
        using e(2,4,6) ne fresh Nil by (auto simp: same_chunks_def heap_wf_list_def backing_ok_def)
    next
      case (snoc cs0 l)
      let ?H = "chunks h1"
      have s: "seg ?H (unat (heap_start_addr h)) 0 (heap_base h) (cs0 @ [l]) hi q 0" "hi \<le> unat (heap_end_addr h)"
        using e(2-4) snoc w by (auto simp: heap_wf_list_def)
      then have base: "heap_base h \<noteq> 0"
        by (cases cs0) auto
      obtain c where c: "?H l = Some c" "q = l"
        using seg_last [OF s(1)] by auto
      have la: "last_chunk (?H(heap_end_addr h \<mapsto> ?new)) (heap_base h) = Some l" "l \<noteq> heap_end_addr h"
        using last_chunk_seg [OF seg_update] s(1) fresh snoc c(2) by auto
      let ?H' = "?H(l \<mapsto> c\<lparr>cnext := heap_end_addr h\<rparr>, heap_end_addr h \<mapsto> ?new\<lparr>cprev := l\<rparr>)"
      have "request_space sz h = Some (heap_end_addr h, h1\<lparr>chunks := ?H'\<rparr>)"
        using e(1,3) True a base la c(1)
        by (simp add: request_space_def expand_heap_by_pages_def Let_def upd_chunk_def fun_upd_twist)
      moreover have "seg ?H' (unat (heap_start_addr h)) 0 (heap_base h) (cs @ [heap_end_addr h])
          (unat (heap_end_addr h) + 16 + unat sz) (heap_end_addr h) 0"
        using seg_extend [OF s(1) c(1) s(2) ne(1), of "?new\<lparr>cprev := l\<rparr>"] snoc by (simp add: chunk_end_def)
      moreover have "same_chunks cs (chunks h) ?H'"
        using e(6) below c(1) fresh by (auto simp: same_chunks_def)
      ultimately show ?thesis
        using e(2-4,6) ne fresh by (auto simp: heap_wf_list_def backing_ok_def)
    qed
  qed
qed

lemma request_space_ok:
  assumes w: "heap_wf_list h cs hi q" and sz: "unat sz \<le> 0xFFFFEFF0"
  shows "\<exists>a h'. request_space sz h = Some (a, h') \<and> heap_start_addr h' = heap_start_addr h \<and>
    (\<forall>b. unat b < unat (heap_end_addr h) \<longrightarrow> hbytes h' b = hbytes h b) \<and> same_chunks cs (chunks h) (chunks h') \<and>
    (if a = 0 then heap_wf_list h' cs hi q
     else \<exists>hi'. heap_wf_list h' (cs @ [a]) hi' a \<and> map_option (\<lambda>c. (csize c, cfree c)) (chunks h' a) = Some (sz, False) \<and> a \<notin> set cs)"
proof -
  obtain a h' where r: "request_space sz h = Some (a, h')" "heap_start_addr h' = heap_start_addr h"
    "\<forall>b. unat b < unat (heap_end_addr h) \<longrightarrow> hbytes h' b = hbytes h b" "same_chunks cs (chunks h) (chunks h')"
    "if a = 0 then heap_wf_list h' cs hi q
     else a = heap_end_addr h \<and> unat (heap_end_addr h') = unat a + 4096 * unat ((sz + HDR + PAGE_SIZE - 1) div PAGE_SIZE) \<and>
       seg (chunks h') (unat (heap_start_addr h)) 0 (heap_base h') (cs @ [a]) (unat a + 16 + unat sz) a 0 \<and>
       (unat a + 16 + unat sz \<le> unat (heap_end_addr h') \<longrightarrow> heap_wf_list h' (cs @ [a]) (unat a + 16 + unat sz) a) \<and>
       map_option (\<lambda>c. (csize c, cfree c)) (chunks h' a) = Some (sz, False) \<and> a \<notin> set cs"
    using request_space_shape [OF w, of sz] by blast
  then show ?thesis
    using request_pages [OF sz] by (intro exI [of _ a] exI [of _ h']) (auto split: if_splits)
qed

section \<open>Allocating\<close>

lemma same_live:
  assumes "heap_wf_list h cs hi q" "heap_wf_list h' (cs @ ds) hi' q'" "same_chunks cs (chunks h) (chunks h')" "p - HDR \<notin> set ds"
  shows "live h' p = live h p"
proof (cases "p - HDR \<in> set cs")
  case True
  then obtain c c' where "chunks h (p - HDR) = Some c" "chunks h' (p - HDR) = Some c'"
    using unat_hdr(3) [OF assms(1)] unat_hdr(3) [OF assms(2)] by fastforce
  then show ?thesis
    using assms(3) True by (auto simp: live_list [OF assms(1)] live_list [OF assms(2)] same_chunks_def)
qed (use assms(4) in \<open>simp add: live_list [OF assms(1)] live_list [OF assms(2)]\<close>)

lemma malloc_ok:
  assumes "heap_wf h" and sz: "unat sz \<le> 0xFFFFEFF0"
  shows "\<exists>p h'. malloc sz h = Some (p, h') \<and> heap_wf h' \<and> heap_start_addr h' = heap_start_addr h \<and>
    (if p = 0 then live h' = live h else live h p = None \<and> (\<exists>n \<ge> sz. live h' = (live h)(p \<mapsto> n))) \<and>
    (\<forall>b. unat b < unat (heap_end_addr h) \<longrightarrow> hbytes h' b = hbytes h b)"
proof -
  obtain cs hi q where w: "heap_wf_list h cs hi q"
    using assms(1) by (auto simp: heap_wf_def)
  let ?fit = "\<lambda>a. cfree (the (chunks h a)) \<and> csize (the (chunks h a)) \<ge> sz"
  have f: "find_free_chunk sz (chunks h) (heap_base h) = Some (case find ?fit cs of None \<Rightarrow> 0 | Some a \<Rightarrow> a)"
    using w find_free_chunk_seg unfolding heap_wf_list_def by blast
  show ?thesis
  proof (cases "sz = 0")
    case False
    show ?thesis
    proof (cases "find ?fit cs")
      case None
      obtain a h' where r: "request_space sz h = Some (a, h')" "heap_start_addr h' = heap_start_addr h"
          "\<forall>b. unat b < unat (heap_end_addr h) \<longrightarrow> hbytes h' b = hbytes h b" "same_chunks cs (chunks h) (chunks h')"
          "if a = 0 then heap_wf_list h' cs hi q
           else \<exists>hi'. heap_wf_list h' (cs @ [a]) hi' a \<and> map_option (\<lambda>c. (csize c, cfree c)) (chunks h' a) = Some (sz, False) \<and> a \<notin> set cs"
        using request_space_ok [OF w sz] by auto
      then have m: "malloc sz h = Some (if a = 0 then 0 else a + HDR, h')"
        using False f None by (simp add: malloc_def)
      show ?thesis
      proof (cases "a = 0")
        case True
        then have "live h' = live h"
          using same_live [OF w, of h' "[]"] r(4,5) by auto
        then show ?thesis
          using m r True by (auto simp: heap_wf_def)
      next
        case a: False
        then obtain hi' where hi': "heap_wf_list h' (cs @ [a]) hi' a"
            "map_option (\<lambda>c. (csize c, cfree c)) (chunks h' a) = Some (sz, False)" "a \<notin> set cs"
          using r(5) by auto
        have "live h' p = ((live h)(a + HDR \<mapsto> sz)) p" for p
        proof (cases "p = a + HDR")
          case True
          then show ?thesis
            using hi'(2) by (auto simp: live_list [OF hi'(1)])
        next
          case False
          then have "p - HDR \<noteq> a"
            by auto
          then show ?thesis
            using same_live [OF w hi'(1) r(4), of p] False by simp
        qed
        then have "live h' = (live h)(a + HDR \<mapsto> sz)"
          by blast
        moreover have "live h (a + HDR) = None" "a + HDR \<noteq> 0"
          using hi'(3) unat_hdr(1) [OF hi'(1), of a] by (auto simp: live_list [OF w])
        ultimately show ?thesis
          using m r a hi'(1) by (auto simp: heap_wf_def)
      qed
    next
      case (Some a)
      then have a: "a \<in> set cs" "?fit a"
        using find_Some_set by fastforce+
      obtain c where c: "chunks h a = Some c" "a \<noteq> 0"
        using unat_hdr(2,3) [OF w a(1)] by auto
      let ?h' = "h\<lparr>chunks := (chunks h)(a \<mapsto> c\<lparr>cfree := False\<rparr>)\<rparr>"
      have m: "malloc sz h = Some (a + HDR, ?h')"
        using False f Some c by (simp add: malloc_def upd_chunk_def)
      have w': "heap_wf_list ?h' cs hi q"
        using w c(1) by (auto simp: heap_wf_list_def backing_ok_def intro: seg_flag)
      have "live ?h' = (live h)(a + HDR \<mapsto> csize c)" "live h (a + HDR) = None" "a + HDR \<noteq> 0"
        using a c unat_hdr(1) [OF w a(1)] by (auto simp: live_list [OF w] live_list [OF w'] fun_eq_iff)
      then show ?thesis
        using m w' a(2) c(1) by (auto simp: heap_wf_def)
    qed
  qed (use assms(1) in \<open>simp add: malloc_def\<close>)
qed

section \<open>Releasing\<close>

lemma seg_lower: "seg H lo p x bs hi q y \<Longrightarrow> bs \<noteq> [] \<Longrightarrow> lo' \<le> lo \<Longrightarrow> seg H lo' p x bs hi q y"
  by (cases bs) auto

definition merged :: "u32 \<Rightarrow> heap_chunk \<Rightarrow> heap_chunk \<Rightarrow> (u32 \<Rightarrow> heap_chunk option) \<Rightarrow> u32 \<Rightarrow> heap_chunk option" where
  "merged a c n H = (let H' = H(a \<mapsto> c\<lparr>csize := csize c + (HDR + csize n), cnext := cnext n\<rparr>) in
     if cnext n = 0 then H' else H'(cnext n := map_option (\<lambda>d. d\<lparr>cprev := a\<rparr>) (H' (cnext n))))"

lemma seg_merge:
  assumes s: "seg H lo p x (as @ a # b # bs) hi q 0" and c: "H a = Some c" "H b = Some n" and hi: "hi < 2 ^ 32"
  shows "\<exists>hi' q'. seg (merged a c n H) lo p x (as @ a # bs) hi' q' 0 \<and> hi' \<le> hi" "cnext c = b"
    "same_chunks (as @ bs) H (merged a c n H)"
proof -
  let ?H = "merged a c n H"
  obtain l r where l: "seg H lo p x as l r a" "a \<noteq> 0" "l \<le> unat a" "cprev c = r" "cnext c = b"
      "b \<noteq> 0" "chunk_end a c \<le> unat b" "cprev n = a" "seg H (chunk_end b n) b (cnext n) bs hi q 0"
    using s c by (auto simp: seg_append)
  have d: "distinct (as @ a # b # bs)"
    using seg_distinct [OF s] .
  have e: "chunk_end b n \<le> hi"
    using seg_bounds [OF l(9)] .
  have "unat (csize c + (HDR + csize n)) = unat (csize c) + (16 + unat (csize n))"
    using e l(7) hi by (simp add: chunk_end_def HDR_def unat_word_ariths)
  then have ce: "chunk_end a (c\<lparr>csize := csize c + (HDR + csize n), cnext := cnext n\<rparr>) \<le> chunk_end b n"
    using l(7) by (simp add: chunk_end_def)
  have nx: "cnext n = (case bs of [] \<Rightarrow> 0 | d # _ \<Rightarrow> d)"
    using l(9) by (cases bs) auto
  have as: "seg ?H lo p x as l r a"
    using l(1) d nx by (subst seg_cong [of as _ H]) (auto simp: merged_def Let_def split: list.splits)
  show "\<exists>hi' q'. seg ?H lo p x (as @ a # bs) hi' q' 0 \<and> hi' \<le> hi"
  proof (cases bs)
    case Nil
    then show ?thesis
      using as l ce e nx by (auto simp: seg_append merged_def Let_def)
  next
    case (Cons d ds)
    then obtain f where f: "H d = Some f" "d \<noteq> 0" "chunk_end b n \<le> unat d" "seg H (chunk_end d f) d (cnext f) ds hi q 0"
      using l(9) nx by auto
    have "seg ?H (chunk_end d f) d (cnext f) ds hi q 0"
      using f(4) d Cons nx by (subst seg_cong [of ds _ H]) (auto simp: merged_def Let_def)
    moreover have "?H d = Some (f\<lparr>cprev := a\<rparr>)" "?H a = Some (c\<lparr>csize := csize c + (HDR + csize n), cnext := d\<rparr>)"
      using f(1,2) d Cons nx by (auto simp: merged_def Let_def)
    moreover have "chunk_end d (f\<lparr>cprev := a\<rparr>) = chunk_end d f"
      by (simp add: chunk_end_def)
    ultimately have "seg ?H l r a (a # bs) hi q 0"
      using l(2-4) ce f(2,3) Cons nx by auto
    then show ?thesis
      using as unfolding seg_append by blast
  qed
  show "cnext c = b"
    by (rule l(5))
  show "same_chunks (as @ bs) H ?H"
    using d c by (auto simp: same_chunks_def merged_def Let_def option.map_comp o_def)
qed

lemma heap_wf_end: "heap_wf_list h cs hi q \<Longrightarrow> hi < 2 ^ 32"
  using unat_less_32 [of "heap_end_addr h"] by (simp add: heap_wf_list_def)

text \<open>Merging a free chunk with its successor changes no block in use.\<close>

definition keeps_blocks :: "heap \<Rightarrow> heap \<Rightarrow> bool" where
  "keeps_blocks h h' \<longleftrightarrow> live h' = live h \<and> hbytes h' = hbytes h \<and> heap_start_addr h' = heap_start_addr h \<and>
     heap_end_addr h' = heap_end_addr h"

lemma merge_next_ok:
  assumes w: "heap_wf_list h (as @ a # bs) hi q" and c: "chunks h a = Some c" "cfree c"
  shows "\<exists>h' bs' hi' q'. merge_next a h = Some h' \<and> heap_wf_list h' (as @ a # bs') hi' q' \<and> keeps_blocks h h' \<and>
    (\<exists>c'. chunks h' a = Some c' \<and> cfree c' \<and> cprev c' = cprev c)"
proof (cases bs)
  case Nil
  then have "cnext c = 0"
    using w c(1) by (auto simp: heap_wf_list_def seg_append)
  then show ?thesis
    using w c Nil by (auto simp: merge_next_def keeps_blocks_def)
next
  case (Cons b bs')
  have s: "seg (chunks h) (unat (heap_start_addr h)) 0 (heap_base h) (as @ a # b # bs') hi q 0"
    using w Cons by (simp add: heap_wf_list_def)
  obtain n where n: "chunks h b = Some n" "b \<noteq> 0"
    using seg_chunk [OF s, of b] by auto
  note m = seg_merge [OF s c(1) n(1) heap_wf_end [OF w]]
  show ?thesis
  proof (cases "cfree n")
    case False
    then show ?thesis
      using w c Cons n m(2) by (auto simp: merge_next_def keeps_blocks_def)
  next
    case True
    let ?h' = "h\<lparr>chunks := merged a c n (chunks h)\<rparr>"
    obtain hi' q' where s': "seg (chunks ?h') (unat (heap_start_addr h)) 0 (heap_base h) (as @ a # bs') hi' q' 0" "hi' \<le> hi"
      using m(1) by auto
    have d: "distinct (as @ a # b # bs')"
      using seg_distinct [OF s] .
    have nx: "cnext n = (case bs' of [] \<Rightarrow> 0 | x # _ \<Rightarrow> x)"
      using s n(1) by (cases bs') (auto simp: seg_append)
    have "cnext n = 0 \<or> chunks h (cnext n) \<noteq> None \<and> cnext n \<noteq> a"
      using nx d seg_chunk [OF s, of "cnext n"] by (auto split: list.splits)
    then have r: "merge_next a h = Some ?h'"
      using c(1) n True m(2) by (auto simp: merge_next_def upd_chunk_def merged_def Let_def)
    have w': "heap_wf_list ?h' (as @ a # bs') hi' q'"
      using w s' by (auto simp: heap_wf_list_def backing_ok_def)
    have a': "chunks ?h' a = Some (c\<lparr>csize := csize c + (HDR + csize n), cnext := cnext n\<rparr>)"
      using nx d by (auto simp: merged_def Let_def split: list.splits)
    have "live ?h' p = live h p" for p
    proof (cases "p - HDR \<in> set (as @ bs')")
      case True
      then obtain e e' where "chunks h (p - HDR) = Some e" "chunks ?h' (p - HDR) = Some e'"
        using unat_hdr(3) [OF w, of "p - HDR"] unat_hdr(3) [OF w', of "p - HDR"] Cons by fastforce
      then show ?thesis
        using bspec [OF m(3) [unfolded same_chunks_def] True] True Cons
        by (auto simp: live_list [OF w] live_list [OF w'])
    next
      case False
      then show ?thesis
        using Cons a' c n(1) True unfolding live_list [OF w] live_list [OF w'] by auto
    qed
    then have "keeps_blocks h ?h'"
      by (auto simp: keeps_blocks_def)
    then show ?thesis
      using r w' a' c(2) by (intro exI [of _ ?h'] exI [of _ bs'] exI [of _ hi'] exI [of _ q']) auto
  qed
qed

lemma merge_prev_next:
  assumes "chunks h a = Some c" "cfree c" "cprev c = p" "p \<noteq> 0" "chunks h p = Some d" "cnext d = a" "a \<noteq> 0" "cfree d"
  shows "merge_prev a h = merge_next p h"
  using assms by (auto simp: merge_prev_def merge_next_def)

lemma live_after:
  assumes "keeps_blocks h h'" "keeps_blocks h' h''"
  shows "keeps_blocks h h''"
  using assms by (simp add: keeps_blocks_def)

lemma free_ok:
  assumes "heap_wf h" and l: "live h p = Some k"
  shows "\<exists>h'. free p h = Some h' \<and> heap_wf h' \<and> live h' = (live h)(p := None) \<and> hbytes h' = hbytes h \<and>
    heap_start_addr h' = heap_start_addr h \<and> heap_end_addr h' = heap_end_addr h"
proof -
  obtain cs hi q where w: "heap_wf_list h cs hi q"
    using assms(1) by (auto simp: heap_wf_def)
  let ?a = "p - HDR"
  obtain c where c: "chunks h ?a = Some c" "?a \<in> set cs"
    using l live_list [OF w] unat_hdr(3) [OF w] by (fastforce split: if_splits)
  then obtain as bs where cs: "cs = as @ ?a # bs"
    by (meson split_list)
  let ?h1 = "h\<lparr>chunks := (chunks h)(?a \<mapsto> c\<lparr>cfree := True\<rparr>)\<rparr>"
  have w1: "heap_wf_list ?h1 (as @ ?a # bs) hi q"
    using w c(1) cs by (auto simp: heap_wf_list_def backing_ok_def intro: seg_flag)
  have l1: "live ?h1 = (live h)(p := None)"
    using cs by (auto simp: live_list [OF w] live_list [OF w1] fun_eq_iff)
  obtain h2 bs' hi' q' c' where h2: "merge_next ?a ?h1 = Some h2" "heap_wf_list h2 (as @ ?a # bs') hi' q'" "keeps_blocks ?h1 h2"
      "chunks h2 ?a = Some c'" "cfree c'" "cprev c' = cprev c"
    using merge_next_ok [OF w1, of "c\<lparr>cfree := True\<rparr>"] by fastforce
  have "\<exists>h3. merge_prev ?a h2 = Some h3 \<and> heap_wf h3 \<and> keeps_blocks h2 h3"
  proof (cases as rule: rev_cases)
    case Nil
    then have "cprev c' = 0"
      using h2(2,4) by (auto simp: heap_wf_list_def)
    then show ?thesis
      using h2(2,4) by (auto simp: merge_prev_def keeps_blocks_def heap_wf_def)
  next
    case (snoc as' r)
    then obtain d where d: "chunks h2 r = Some d" "cprev c' = r" "r \<noteq> 0" "cnext d = ?a" "?a \<noteq> 0"
      using h2(2,4) by (auto simp: heap_wf_list_def seg_append)
    show ?thesis
    proof (cases "cfree d")
      case False
      then show ?thesis
        using d h2(2,4) by (auto simp: merge_prev_def keeps_blocks_def heap_wf_def)
    next
      case True
      have "heap_wf_list h2 (as' @ r # ?a # bs') hi' q'"
        using h2(2) snoc by simp
      then show ?thesis
        using merge_next_ok [OF _ d(1) True] merge_prev_next [OF h2(4,5) d(2,3,1,4,5) True] by (fastforce simp: heap_wf_def)
    qed
  qed
  then obtain h3 where h3: "merge_prev ?a h2 = Some h3" "heap_wf h3" "keeps_blocks ?h1 h3"
    using live_after [OF h2(3)] by blast
  have "free p h = merge_prev ?a h2"
    using live_bounds(1) [OF assms] c(1) h2(1) by (simp add: free_def upd_chunk_def)
  then show ?thesis
    using h3 l1 by (auto simp: keeps_blocks_def)
qed

section \<open>The heap as a block allocator\<close>

text \<open>
  A user of the heap writes a byte. The bytes of a block in use hold no header, so the store of headers is not concerned.
\<close>

definition store_byte :: "u32 \<Rightarrow> u8 \<Rightarrow> heap \<Rightarrow> heap" where
  "store_byte a v h = h\<lparr>hbytes := (hbytes h)(a := v)\<rparr>"

lemma bytes_irrelevant [simp]:
  "heap_wf (h\<lparr>hbytes := B\<rparr>) = heap_wf h" "live (h\<lparr>hbytes := B\<rparr>) = live h" "hbytes (store_byte a v h) = (hbytes h)(a := v)"
  "heap_wf (store_byte a v h) = heap_wf h" "live (store_byte a v h) = live h"
  by (simp_all add: heap_wf_def heap_wf_list_def backing_ok_def live_def store_byte_def fun_eq_iff split: option.split)

lemma in_block_below: "heap_wf h \<Longrightarrow> in_block (live h) p a \<Longrightarrow> unat a < unat (heap_end_addr h)"
  using live_bounds(3) by (fastforce simp: in_block_def)

interpretation kheap: block_allocator heap_wf live hbytes "0xFFFFEFF0" malloc free store_byte
proof (unfold_locales, goal_cases)
  case (1 h p a q)
  then show ?case
    using live_disjoint [of h p _ q] by (fastforce simp: in_block_def)
next
  case (2 h n)
  then show ?case
    using malloc_ok [OF 2] in_block_below [OF 2(1)] by blast
next
  case (3 h p n)
  then show ?case
    using free_ok [OF 3] by blast
qed simp


text \<open>A small heap: a block of 8 bytes in use and a free chunk of 100 bytes.\<close>

definition heap_small :: heap where
  "heap_small = \<lparr>heap_machine = machine_small, heap_base = 0x4000, heap_start_addr = 0x4000, heap_end_addr = 0x6000,
     heap_max_addr = 0x6000, heap_pd = 0x1000,
     chunks = [0x4000 \<mapsto> \<lparr>csize = 8, cfree = False, cprev = 0, cnext = 0x5000\<rparr>,
               0x5000 \<mapsto> \<lparr>csize = 100, cfree = True, cprev = 0x4000, cnext = 0\<rparr>], hbytes = (\<lambda>_. 9)\<rparr>"

lemma heap_small_list: "heap_wf_list heap_small [0x4000, 0x5000] 0x5074 0x5000"
  using machine_small_wf by (simp add: heap_wf_list_def heap_small_def backing_ok_def chunk_end_def)

lemma heap_small_wf: "heap_wf heap_small"
  using heap_small_list by (auto simp: heap_wf_def)



lemma heap_small_malloc:
  "malloc 20 heap_small = Some (0x5010, heap_small\<lparr>chunks := (chunks heap_small)(0x5000 \<mapsto> \<lparr>csize = 100, cfree = False, cprev = 0x4000, cnext = 0\<rparr>)\<rparr>)"
proof -
  have "find_free_chunk 20 (chunks heap_small) 0x4000 = Some 0x5000"
    by (subst find_free_chunk.simps, simp add: heap_small_def, subst find_free_chunk.simps) simp
  then show ?thesis
    by (simp add: malloc_def upd_chunk_def heap_small_def HDR_def)
qed


section \<open>Calls on top of malloc and free\<close>


lemma in_range: "unat p \<le> unat a \<Longrightarrow> unat a < unat p + unat n \<Longrightarrow> a - p < n" for a p n :: u32
  by (simp add: word_less_nat_alt unat_sub word_le_nat_alt)



lemma load_store_ptr: "load_ptr a (store_ptr a v B) = v"
proof (rule bit_word_eqI)
  fix n
  assume "n < LENGTH(32)"
  moreover have "n < 24 \<or> 24 + (n - 24) = n"
    by auto
  ultimately show "bit (load_ptr a (store_ptr a v B)) n = bit v n"
    by (auto simp: load_ptr_def store_ptr_def bit_simps)
qed

lemma align_up_range:
  assumes "unat a + unat b < 2 ^ 32" "b \<noteq> 0"
  shows "unat a \<le> unat (align_up a b)" "unat (align_up a b) < unat a + unat b" "align_up a b AND (b - 1) = 0"
proof -
  let ?x = "a + (b - 1)" and ?m = "b - 1"
  have m: "unat ?m = unat b - 1" "0 < unat b"
    using assms(2) by (simp_all add: unat_minus_one unat_gt_0)
  then have x: "unat ?x = unat a + (unat b - 1)"
    using assms(1) by (subst unat_word_ariths) simp
  have le: "unat (?x AND ?m) \<le> unat ?m" "unat (?x AND NOT ?m) \<le> unat ?x"
    using word_and_le1 [of ?x ?m] word_and_le2 [of ?x "NOT ?m"] by (simp_all add: word_le_nat_alt)
  have "unat ((?x AND NOT ?m) + (?x AND ?m)) = (unat (?x AND NOT ?m) + unat (?x AND ?m)) mod 2 ^ 32"
    by (simp add: unat_word_ariths)
  then have s: "unat ?x = (unat (?x AND NOT ?m) + unat (?x AND ?m)) mod 2 ^ 32"
    by (simp add: split_mask)
  have al: "align_up a b = ?x AND NOT ?m"
    by (simp add: align_up_def algebra_simps)
  show "unat (align_up a b) < unat a + unat b"
    using le(2) x m(2) unfolding al by linarith
  have "unat ?x \<le> unat (?x AND NOT ?m) + unat (?x AND ?m)"
    unfolding s by (rule mod_less_eq_dividend)
  then show "unat a \<le> unat (align_up a b)"
    using le(1) x m unfolding al by linarith
  show "align_up a b AND (b - 1) = 0"
    unfolding al by (auto intro: bit_word_eqI simp: bit_simps)
qed

text \<open>
  Aligned blocks. An aligned allocation that succeeds returns an aligned address whose bytes lie inside one new
  block; the other blocks and their contents are as before; and handing the address to \<open>free_align\<close> releases exactly that block.
\<close>

theorem malloc_align_free_align:
  assumes "heap_wf h" "al \<noteq> 0" "al AND (al - 1) = 0" "unat n + unat al \<le> 0xFFFFEFED" "malloc_align n al h = Some (r, h')" "r \<noteq> 0"
  shows "heap_wf h' \<and> r AND (al - 1) = 0 \<and>
    (\<exists>p m. live h p = None \<and> live h' = (live h)(p \<mapsto> m) \<and> unat p + 4 \<le> unat r \<and> unat r + unat n \<le> unat p + unat m) \<and>
    (\<forall>q a. in_block (live h) q a \<longrightarrow> hbytes h' a = hbytes h a) \<and>
    (\<exists>h''. free_align r h' = Some (ERR_SUCCESS, h'') \<and> heap_wf h'' \<and> live h'' = live h)"
proof -
  have tot: "unat (n + al - 1 + 4) = unat n + unat al + 3"
  proof -
    have "n + al - 1 + 4 = n + al + 3"
      by simp
    then show ?thesis
      using assms(4) by (simp add: unat_word_ariths)
  qed
  obtain p h1 where h1: "malloc (n + al - 1 + 4) h = Some (p, h1)" "heap_wf h1"
      "if p = 0 then live h1 = live h else live h p = None \<and> (\<exists>m \<ge> n + al - 1 + 4. live h1 = (live h)(p \<mapsto> m))"
      "\<forall>b. unat b < unat (heap_end_addr h) \<longrightarrow> hbytes h1 b = hbytes h b"
    using malloc_ok [OF assms(1), of "n + al - 1 + 4"] tot assms(4) by auto
  have p0: "p \<noteq> 0"
    using assms(2,3,5,6) h1(1) by (auto simp: malloc_align_def)
  then obtain m where m: "m \<ge> n + al - 1 + 4" "live h1 = (live h)(p \<mapsto> m)" "live h p = None"
    using h1(3) by auto
  have r: "r = align_up (p + 4) al" "h' = h1\<lparr>hbytes := store_ptr (r - 4) p (hbytes h1)\<rparr>"
    using assms(2,3,5) h1(1) p0 by (auto simp: malloc_align_def Let_def)
  have m': "unat m \<ge> unat n + unat al + 3"
    using m(1) tot by (simp add: word_le_nat_alt)
  have e: "unat p + unat m < 0xFFFFF000"
    using live_bounds(3) [OF h1(2), of p m] m(2) h1(2) by (auto simp: heap_wf_def heap_wf_list_def word_le_nat_alt)
  moreover have al0: "0 < unat al"
    using assms(2) by (simp add: unat_gt_0)
  ultimately have p4: "unat (p + 4) = unat p + 4"
    using m' al0 by (subst unat_word_ariths) simp
  have al: "unat p + 4 \<le> unat r" "unat r < unat p + 4 + unat al" "r AND (al - 1) = 0"
    using align_up_range [of "p + 4" al] e m' assms(2) unfolding r(1) p4 by auto
  have inside: "in_block (live h1) p (r - 4 + i)" if "i < 4" for i
  proof -
    have "unat (r - 4) = unat r - 4"
      using al(1) by (simp add: unat_sub_if')
    moreover have "unat i < 4"
      using that by (simp add: word_less_nat_alt)
    ultimately have "unat (r - 4 + i) = unat r - 4 + unat i"
      using al(1) unat_less_32 [of r] by (subst unat_word_ariths) simp
    then show ?thesis
      using m(2) al m' \<open>unat i < 4\<close> by (auto simp: in_block_def)
  qed
  have "hbytes h' a = hbytes h a" if "in_block (live h) q a" for q a
  proof -
    have q: "in_block (live h1) q a" "q \<noteq> p"
      using that m by (auto simp: in_block_def)
    then have "a \<noteq> r - 4 + i" if "i < 4" for i
      using inside [OF that] kheap.blk_disjoint [OF h1(2)] by blast
    from this [of 0] this [of 1] this [of 2] this [of 3]
    show ?thesis
      using h1(4) in_block_below [OF assms(1) that] by (simp add: r(2) store_ptr_def)
  qed
  moreover have "\<exists>h''. free_align r h' = Some (ERR_SUCCESS, h'') \<and> heap_wf h'' \<and> live h'' = live h"
    using free_ok [of h' p m] h1(2) m assms(6)
    by (auto simp: r(2) free_align_def load_store_ptr fun_upd_idem_iff)
  moreover have "live h' = (live h)(p \<mapsto> m)" "heap_wf h'"
    using m(2) h1(2) by (simp_all add: r(2))
  ultimately show ?thesis
    using al m(3) m' by (intro conjI exI [of _ p] exI [of _ m]) auto
qed

theorem malloc_align_free_align_witness:
  "\<exists>h' h''. malloc_align 1 16 heap_small = Some (0x5020, h') \<and> (0x5020 :: u32) AND 15 = 0 \<and>
     free_align 0x5020 h' = Some (ERR_SUCCESS, h'') \<and> live h'' = live heap_small"
proof -
  obtain h' where m: "malloc_align 1 16 heap_small = Some (0x5020, h')"
    by (simp add: malloc_align_def heap_small_malloc align_up_def)
  then show ?thesis
    using malloc_align_free_align [OF heap_small_wf _ _ _ m] by auto
qed



text \<open>The heap starts well-formed and empty, given pages for the whole of its range.\<close>

lemma heap_init_wf:
  assumes "st \<noteq> 0" "st \<le> mx" "unat mx < 0xFFFFF000" "backing_ok (h\<lparr>heap_pd := dir, heap_max_addr := mx\<rparr>)"
  shows "heap_wf (heap_init st mx dir h) \<and> live (heap_init st mx dir h) = Map.empty"
proof -
  have "heap_wf_list (heap_init st mx dir h) [] (unat st) 0"
    using assms by (cases "dir = 0") (simp_all add: heap_wf_list_def heap_init_def backing_ok_def)
  then show ?thesis
    using live_list by (fastforce simp: heap_wf_def)
qed

end
