(* ===== verification/Usercopy.thy ===== *)
theory Usercopy
  imports Paging
begin

text \<open>
  Copying between the kernel and the current user address space: \<^verbatim>\<open>src/kernel/mm/usercopy.c\<close>. The kernel's buffer is a list of bytes,
  \<open>NULL\<close> being \<open>None\<close>. User memory is reached the way the processor reaches it, through the directory in \<open>cr3\<close>;
  the kernel runs with supervisor rights, so any present page can be accessed. A \<open>None\<close> result is a page fault
  or an access outside the kernel's buffer.
\<close>

section \<open>Model\<close>

text \<open>Bytes of the physical memory, little-endian in its words.\<close>

definition phys_byte :: "machine \<Rightarrow> u32 \<Rightarrow> u8" where
  "phys_byte m a = ucast (drop_bit (8 * unat (a AND 3)) (mem m (a AND NOT 3)))"

definition set_phys_byte :: "u32 \<Rightarrow> u8 \<Rightarrow> machine \<Rightarrow> machine" where
  "set_phys_byte a b m =
     (let w = a AND NOT 3; sh = 8 * unat (a AND 3)
      in m\<lparr>mem := (mem m)(w := (mem m w AND NOT (push_bit sh 0xFF)) OR push_bit sh (ucast b))\<rparr>)"

definition translate :: "machine \<Rightarrow> u32 \<Rightarrow> u32 option" where
  "translate m v = map_option (\<lambda>pte. page_base pte OR (v AND 0xFFF)) (pte_at m (cr3 m) v)"

fun load_bytes :: "machine \<Rightarrow> u32 \<Rightarrow> nat \<Rightarrow> u8 list option" where
  "load_bytes m v 0 = Some []"
| "load_bytes m v (Suc n) = do {
     a \<leftarrow> translate m v;
     bs \<leftarrow> load_bytes m (v + 1) n;
     Some (phys_byte m a # bs)
   }"

fun store_bytes :: "u32 \<Rightarrow> u8 list \<Rightarrow> machine \<Rightarrow> machine option" where
  "store_bytes v [] m = Some m"
| "store_bytes v (b # bs) m = do {
     a \<leftarrow> translate m v;
     store_bytes (v + 1) bs (set_phys_byte a b m)
   }"

text \<open>The current process, if there is one, is given by its page directory.\<close>

definition current_address_space :: "u32 option \<Rightarrow> u32" where
  "current_address_space process = (case process of None \<Rightarrow> 0 | Some pd \<Rightarrow> pd)"

definition copy_from_user :: "u32 option \<Rightarrow> u8 list option \<Rightarrow> u32 \<Rightarrow> usize \<Rightarrow> machine \<Rightarrow> (int \<times> u8 list option) option" where
  "copy_from_user process kernel_dst user_src n m =
     (if (kernel_dst = None \<or> user_src = 0) \<and> n \<noteq> 0 then Some (err ERR_BAD_ADDRESS, kernel_dst)
      else do {
        valid \<leftarrow> paging_user_range_valid (current_address_space process) user_src n False m;
        if \<not> valid then Some (err ERR_BAD_ADDRESS, kernel_dst)
        else if n \<noteq> 0 then do {
          dst \<leftarrow> kernel_dst;
          bs \<leftarrow> load_bytes m user_src (unat n);
          if unat n \<le> length dst then Some (err ERR_SUCCESS, Some (bs @ drop (unat n) dst)) else None
        }
        else Some (err ERR_SUCCESS, kernel_dst)
      })"

definition copy_to_user :: "u32 option \<Rightarrow> u32 \<Rightarrow> u8 list option \<Rightarrow> usize \<Rightarrow> machine \<Rightarrow> (int \<times> machine) option" where
  "copy_to_user process user_dst kernel_src n m =
     (if (user_dst = 0 \<or> kernel_src = None) \<and> n \<noteq> 0 then Some (err ERR_BAD_ADDRESS, m)
      else do {
        valid \<leftarrow> paging_user_range_valid (current_address_space process) user_dst n True m;
        if \<not> valid then Some (err ERR_BAD_ADDRESS, m)
        else if n \<noteq> 0 then do {
          src \<leftarrow> kernel_src;
          if unat n \<le> length src then do {
            m \<leftarrow> store_bytes user_dst (take (unat n) src) m;
            Some (err ERR_SUCCESS, m)
          } else None
        }
        else Some (err ERR_SUCCESS, m)
      })"

text \<open>
  The loop of \<open>copy_user_string\<close>, with \<open>k\<close> rounds left at index \<open>i\<close>; \<open>address\<close> is a 64-bit sum.
\<close>

fun user_string_loop :: "u32 option \<Rightarrow> u32 \<Rightarrow> nat \<Rightarrow> usize \<Rightarrow> usize \<Rightarrow> u8 list \<Rightarrow> machine \<Rightarrow> (int \<times> u8 list) option" where
  "user_string_loop process source 0 i capacity dst m =
     (if unat (capacity - 1) < length dst then Some (err ERR_BUFFER_TOO_SMALL, dst[unat (capacity - 1) := 0]) else None)"
| "user_string_loop process source (Suc k) i capacity dst m =
     (let address = (ucast source :: u64) + ucast i in
      if address > 0xFFFFFFFF then Some (err ERR_BAD_ADDRESS, dst)
      else do {
        (result, cell) \<leftarrow> copy_from_user process (Some (drop (unat i) dst)) (ucast address) 1 m;
        let dst = take (unat i) dst @ the cell;
        if result \<noteq> err ERR_SUCCESS then Some (result, dst)
        else if unat i < length dst then
          (if dst ! unat i = 0 then Some (err ERR_SUCCESS, dst)
           else user_string_loop process source k (i + 1) capacity dst m)
        else None
      })"

definition copy_user_string :: "u32 option \<Rightarrow> u8 list option \<Rightarrow> usize \<Rightarrow> u32 \<Rightarrow> machine \<Rightarrow> (int \<times> u8 list option) option" where
  "copy_user_string process kernel_dst capacity user_src m =
     (case kernel_dst of
        None \<Rightarrow> Some (err ERR_BAD_ADDRESS, None)
      | Some dst \<Rightarrow>
          if capacity = 0 \<or> user_src = 0 then Some (err ERR_BAD_ADDRESS, Some dst)
          else map_option (map_prod id Some) (user_string_loop process user_src (unat capacity) 0 capacity dst m))"

section \<open>Reading\<close>

text \<open>A byte of the user's memory, as a program running in the address space reads it.\<close>

definition user_byte :: "machine \<Rightarrow> u32 \<Rightarrow> u8" where
  "user_byte m v = phys_byte m (the (translate m v))"

lemma access_translates: "user_access m (cr3 m) wr v \<Longrightarrow> \<exists>a. translate m v = Some a"
  by (auto simp: user_access_def translate_def split: option.splits)

lemma load_bytes_eq:
  assumes "\<forall>i < n. user_access m (cr3 m) wr (v + of_nat i)"
  shows "load_bytes m v n = Some (map (\<lambda>i. user_byte m (v + of_nat i)) [0..<n])"
  using assms
proof (induction n arbitrary: v)
  case (Suc n)
  have "user_access m (cr3 m) wr (v + 1 + of_nat i)" if "i < n" for i
    using Suc.prems that by (auto dest: spec [of _ "Suc i"] simp: algebra_simps)
  then have "load_bytes m (v + 1) n = Some (map (\<lambda>i. user_byte m (v + 1 + of_nat i)) [0..<n])"
    using Suc.IH by blast
  moreover obtain a where "translate m v = Some a"
    using access_translates [of m wr v] spec [OF Suc.prems, of 0] by auto
  moreover have "map (\<lambda>i. user_byte m (v + of_nat i)) [0..<Suc n] =
      user_byte m v # map (\<lambda>i. user_byte m (v + 1 + of_nat i)) [0..<n]"
    by (simp add: upt_conv_Cons map_Suc_upt [symmetric] algebra_simps del: upt_Suc)
  ultimately show ?case
    by (simp add: user_byte_def)
qed simp

text \<open>The bytes of a range of user memory are accessible, without running past the end of the address space.\<close>

definition user_range :: "machine \<Rightarrow> bool \<Rightarrow> u32 \<Rightarrow> nat \<Rightarrow> bool" where
  "user_range m wr v n \<longleftrightarrow> unat v + n \<le> 2 ^ 32 \<and> (\<forall>i < n. user_access m (cr3 m) wr (v + of_nat i))"

lemma range_index:
  fixes v :: u32
  assumes "unat v + n \<le> 2 ^ 32"
  shows "(\<forall>w :: u32. unat v \<le> unat w \<and> unat w < unat v + n \<longrightarrow> P w) \<longleftrightarrow> (\<forall>i < n. P (v + of_nat i))"
proof (intro iffI allI impI)
  fix i
  assume P: "\<forall>w. unat v \<le> unat w \<and> unat w < unat v + n \<longrightarrow> P w" and i: "i < n"
  have "unat (v + of_nat i) = unat v + i"
    using i assms by (subst unat_word_ariths) (simp add: unat_of_nat)
  then show "P (v + of_nat i)"
    using P i by simp
next
  fix w :: u32
  assume P: "\<forall>i < n. P (v + of_nat i)" and w: "unat v \<le> unat w \<and> unat w < unat v + n"
  have "v + of_nat (unat w - unat v) = w"
    using w by (simp add: of_nat_diff)
  moreover have "unat w - unat v < n"
    using w by arith
  ultimately show "P w"
    using P by metis
qed

lemma valid_iff_range:
  assumes "pd \<noteq> 0" "cr3 m = pd"
  shows "paging_user_range_valid pd v n wr m = Some (user_range m wr v (unat n))"
  using user_range_valid_spec [OF assms(1)] range_index [of v "unat n" "user_access m pd wr"] assms(2)
  by (auto simp: user_range_def)

lemma copy_from_user_spec:
  assumes "pd \<noteq> 0" "cr3 m = pd" "unat n \<le> length dst"
  shows "copy_from_user (Some pd) (Some dst) src n m =
    Some (if n \<noteq> 0 \<and> src = 0 \<or> \<not> user_range m False src (unat n) then (err ERR_BAD_ADDRESS, Some dst)
          else (err ERR_SUCCESS, Some (map (\<lambda>i. user_byte m (src + of_nat i)) [0..<unat n] @ drop (unat n) dst)))"
  using assms load_bytes_eq [of "unat n" m False src]
  by (auto simp: copy_from_user_def current_address_space_def valid_iff_range user_range_def)

text \<open>
  C6: reading from user memory. While the address space of the current process is loaded, \<open>copy_from_user\<close> never faults:
  it copies the bytes a program in that address space would read if user mode may read all of them, and otherwise reports
  a bad address and leaves the buffer alone.
\<close>

theorem copy_from_user_exact:
  assumes "pd \<noteq> 0" "cr3 m = pd" "unat n \<le> length dst"
  shows "copy_from_user (Some pd) (Some dst) src n m =
    Some (if n \<noteq> 0 \<and> src = 0 \<or> \<not> user_range m False src (unat n) then (err ERR_BAD_ADDRESS, Some dst)
          else (err ERR_SUCCESS, Some (map (\<lambda>i. user_byte m (src + of_nat i)) [0..<unat n] @ drop (unat n) dst)))"
  by (rule copy_from_user_spec [OF assms])

section \<open>Strings\<close>

text \<open>
  What a user string at \<open>v\<close> looks like within \<open>n\<close> bytes: it ends, with the index of its terminator;
  it is longer; or a byte before its end cannot be read.
\<close>

datatype user_string = Ends nat | Longer | Unreadable nat

fun scan_string :: "machine \<Rightarrow> u32 \<Rightarrow> nat \<Rightarrow> nat \<Rightarrow> user_string" where
  "scan_string m v i 0 = Longer"
| "scan_string m v i (Suc k) =
     (if \<not> user_range m False v (Suc i) then Unreadable i
      else if user_byte m (v + of_nat i) = 0 then Ends i
      else scan_string m v (Suc i) k)"

abbreviation user_bytes :: "machine \<Rightarrow> u32 \<Rightarrow> nat \<Rightarrow> u8 list" where
  "user_bytes m v n \<equiv> map (\<lambda>i. user_byte m (v + of_nat i)) [0..<n]"

lemma scan_string_meaning:
  "user_range m False v i \<Longrightarrow> (\<forall>j < i. user_byte m (v + of_nat j) \<noteq> 0) \<Longrightarrow>
   (case scan_string m v i k of
      Ends e \<Rightarrow> i \<le> e \<and> e < i + k \<and> user_range m False v (Suc e) \<and> user_byte m (v + of_nat e) = 0 \<and> 0 \<notin> set (user_bytes m v e)
    | Longer \<Rightarrow> user_range m False v (i + k) \<and> 0 \<notin> set (user_bytes m v (i + k))
    | Unreadable e \<Rightarrow> i \<le> e \<and> e < i + k \<and> \<not> user_range m False v (Suc e) \<and> 0 \<notin> set (user_bytes m v e))"
proof (induction m v i k rule: scan_string.induct)
  case (1 m v i)
  then show ?case by auto
next
  case (2 m v i k)
  show ?case
  proof (cases "user_range m False v (Suc i) \<and> user_byte m (v + of_nat i) \<noteq> 0")
    case True
    then have "case scan_string m v (Suc i) k of
      Ends e \<Rightarrow> Suc i \<le> e \<and> e < Suc i + k \<and> user_range m False v (Suc e) \<and> user_byte m (v + of_nat e) = 0 \<and> 0 \<notin> set (user_bytes m v e)
    | Longer \<Rightarrow> user_range m False v (Suc i + k) \<and> 0 \<notin> set (user_bytes m v (Suc i + k))
    | Unreadable e \<Rightarrow> Suc i \<le> e \<and> e < Suc i + k \<and> \<not> user_range m False v (Suc e) \<and> 0 \<notin> set (user_bytes m v e)"
      using 2 less_Suc_eq by simp
    then show ?thesis
      using True by (auto split: user_string.splits)
  qed (use 2 in \<open>auto split: if_splits\<close>)
qed

lemma user_string_loop_spec:
  assumes "pd \<noteq> 0" "cr3 m = pd" "src \<noteq> 0" "i + k = unat cap" "cap \<noteq> 0" "unat cap \<le> length dst"
    "user_range m False src i"
  shows "user_string_loop (Some pd) src k (of_nat i) cap (user_bytes m src i @ drop i dst) m =
    Some (case scan_string m src i k of
        Ends e \<Rightarrow> (err ERR_SUCCESS, user_bytes m src (Suc e) @ drop (Suc e) dst)
      | Longer \<Rightarrow> (err ERR_BUFFER_TOO_SMALL, (user_bytes m src (unat cap) @ drop (unat cap) dst)[unat cap - 1 := 0])
      | Unreadable e \<Rightarrow> (err ERR_BAD_ADDRESS, user_bytes m src e @ drop e dst))"
  using assms(4,7)
proof (induction k arbitrary: i)
  case 0
  then have "unat (cap - 1) = unat cap - 1" "i = unat cap" "0 < unat cap"
    using assms(5) by (simp_all add: unat_minus_one unat_gt_0)
  then show ?case
    using assms(6) by simp
next
  case (Suc k)
  have i: "i < 2 ^ 32" "i < length dst"
    using Suc.prems(1) assms(6) unat_less_32 [of cap] by linarith+
  have addr: "unat ((ucast src :: u64) + ucast (of_nat i :: u32)) = unat src + i"
    using i(1) unat_less_32 [of src] by (simp add: unat_word_ariths unat_ucast_64 unat_of_nat)
  have ge: "(ucast src :: u64) + ucast (of_nat i :: u32) > 0xFFFFFFFF \<longleftrightarrow> \<not> unat src + Suc i \<le> 2 ^ 32"
    using addr by (auto simp: word_less_nat_alt)
  show ?case
  proof (cases "unat src + Suc i \<le> 2 ^ 32")
    case False
    then have "\<not> user_range m False src (Suc i)"
      by (simp add: user_range_def)
    then show ?thesis
      using ge False i(2) by simp
  next
    case True
    have "unat (src + of_nat i) = unat src + i"
      using True i(1) by (subst unat_word_ariths) (simp add: unat_of_nat)
    then have a: "src + of_nat i \<noteq> 0" "unat (src + of_nat i) + 1 \<le> 2 ^ 32"
      using assms(3) True by (auto simp: unat_eq_0)
    have cast: "ucast ((ucast src :: u64) + ucast (of_nat i :: u32)) = src + of_nat i"
      using addr \<open>unat (src + of_nat i) = unat src + i\<close> True
      by (intro word_unat_eq_iff [THEN iffD2]) (simp add: unsigned_ucast_eq take_bit_nat_eq_self)
    have one: "user_range m False (src + of_nat i) 1 \<longleftrightarrow> user_range m False src (Suc i)"
      using Suc.prems(2) True a(2) by (auto simp: user_range_def less_Suc_eq)
    have d: "drop i (user_bytes m src i @ drop i dst) = drop i dst" "take i (user_bytes m src i @ drop i dst) = user_bytes m src i"
        "drop 1 (drop i dst) = drop (Suc i) dst" "1 \<le> length (drop i dst)"
      using i(2) by auto
    have c: "copy_from_user (Some pd) (Some (drop i dst)) (src + of_nat i) 1 m =
        Some (if \<not> user_range m False src (Suc i) then (err ERR_BAD_ADDRESS, Some (drop i dst))
              else (err ERR_SUCCESS, Some (user_byte m (src + of_nat i) # drop (Suc i) dst)))"
      using copy_from_user_spec [OF assms(1,2), of 1 "drop i dst" "src + of_nat i"] a(1) one d(4) by simp
    have sx: "user_bytes m src i @ user_byte m (src + of_nat i) # drop (Suc i) dst = user_bytes m src (Suc i) @ drop (Suc i) dst"
      by simp
    have n: "unat (of_nat i :: u32) = i" "(of_nat i :: u32) + 1 = of_nat (Suc i)"
      using i(1) by (simp_all add: unat_of_nat)
    show ?thesis
      using Suc.IH [of "Suc i"] Suc.prems ge True i(2)
      by (simp add: n c d cast sx nth_append Let_def del: upt_Suc) (simp add: nth_append add.commute)
  qed
qed

text \<open>
  C34: reading a user string. With a buffer of at least the given capacity, \<open>copy_user_string\<close> never faults. If a terminator comes
  within the capacity and everything up to it is readable, it succeeds with the string in the buffer; if the bytes within the capacity
  are readable without a terminator, it reports that the buffer is too small and leaves a terminated prefix; otherwise it reports a bad address, having
  copied the bytes before the first one that is not readable.
\<close>

theorem copy_user_string_exact:
  assumes "pd \<noteq> 0" "cr3 m = pd" "src \<noteq> 0" "cap \<noteq> 0" "unat cap \<le> length dst"
  shows "\<exists>r out. copy_user_string (Some pd) (Some dst) cap src m = Some (r, Some out) \<and> length out = length dst \<and>
    (if r = err ERR_SUCCESS then
       \<exists>e < unat cap. user_range m False src (Suc e) \<and> user_bytes m src (Suc e) = take (Suc e) out \<and>
         out ! e = 0 \<and> 0 \<notin> set (take e out)
     else if r = err ERR_BUFFER_TOO_SMALL then
       user_range m False src (unat cap) \<and> 0 \<notin> set (user_bytes m src (unat cap)) \<and>
       take (unat cap) out = user_bytes m src (unat cap - 1) @ [0]
     else r = err ERR_BAD_ADDRESS \<and>
       (\<exists>e < unat cap. \<not> user_range m False src (Suc e) \<and> 0 \<notin> set (user_bytes m src e) \<and> out = user_bytes m src e @ drop e dst))"
proof -
  have r0: "user_range m False src 0"
    using unat_less_32 [of src] by (simp add: user_range_def less_imp_le)
  have l: "copy_user_string (Some pd) (Some dst) cap src m = map_option (map_prod id Some)
      (Some (case scan_string m src 0 (unat cap) of
        Ends e \<Rightarrow> (err ERR_SUCCESS, user_bytes m src (Suc e) @ drop (Suc e) dst)
      | Longer \<Rightarrow> (err ERR_BUFFER_TOO_SMALL, (user_bytes m src (unat cap) @ drop (unat cap) dst)[unat cap - 1 := 0])
      | Unreadable e \<Rightarrow> (err ERR_BAD_ADDRESS, user_bytes m src e @ drop e dst)))"
    using user_string_loop_spec [OF assms(1-3) _ assms(4,5) r0] assms(3,4) by (simp add: copy_user_string_def)
  have cap: "0 < unat cap" "unat cap = Suc (unat cap - 1)"
    using assms(4) by (simp_all add: unat_gt_0)
  show ?thesis
  proof (cases "scan_string m src 0 (unat cap)")
    case (Ends e)
    then have e: "e < unat cap" "user_range m False src (Suc e)" "user_byte m (src + of_nat e) = 0" "0 \<notin> set (user_bytes m src e)"
      using scan_string_meaning [OF r0, of "unat cap"] by auto
    then show ?thesis
      using l Ends assms(5) by (auto simp: nth_append intro!: exI [of _ e])
  next
    case Longer
    let ?b = "user_bytes m src (unat cap - 1)"
    have "user_bytes m src (unat cap) = ?b @ [user_byte m (src + of_nat (unat cap - 1))]"
      by (subst cap(2)) simp
    then have "(user_bytes m src (unat cap) @ drop (unat cap) dst)[unat cap - 1 := 0] = (?b @ [0]) @ drop (unat cap) dst"
      by (simp add: list_update_append)
    then show ?thesis
      using l Longer scan_string_meaning [OF r0, of "unat cap"] cap assms(5) by simp
  next
    case (Unreadable e)
    then show ?thesis
      using l scan_string_meaning [OF r0, of "unat cap"] assms(5) by (auto intro!: exI [of _ e])
  qed
qed

section \<open>Writing\<close>

text \<open>No page that user mode may write is itself a page table of the address space.\<close>

definition tables_protected :: "machine \<Rightarrow> u32 \<Rightarrow> bool" where
  "tables_protected m pd \<longleftrightarrow> (\<forall>v a. user_access m pd True v \<longrightarrow> pte_at m pd v = Some a \<longrightarrow>
     frame_no a \<noteq> frame_no pd \<and> (\<forall>i. unat i < 1024 \<and> present (entry m pd i) \<longrightarrow> frame_no a \<noteq> frame_no (entry m pd i)))"

lemma frame_no_drop: "frame_no a = frame_no b \<longleftrightarrow> drop_bit 12 a = drop_bit 12 b"
  by (simp add: frame_no_def word_unat_eq_iff drop_bit_eq_div unat_div_distrib)

lemma masks: "(0xFFF :: u32) = mask 12" "(3 :: u32) = mask 2" "(0xFF :: u32) = mask 8"
  by (simp_all add: mask_eq_exp_minus_1)

lemma frame_of_address: "frame_no (page_base e OR (v AND 0xFFF)) = frame_no e" "frame_no (x AND NOT 3) = frame_no x"
  unfolding frame_no_drop page_base_def masks
  by (auto intro!: bit_word_eqI simp: bit_simps) (drule bit_imp_le_length, simp)+

lemma byte_index: "unat ((x :: u32) AND 3) < 4"
proof -
  have "x AND 3 \<le> 3"
    by (rule word_and_le1)
  then show ?thesis
    by (simp add: word_le_nat_alt)
qed

lemma phys_byte_set: "phys_byte (set_phys_byte a b m) c = (if c = a then b else phys_byte m c)"
proof (cases "c AND NOT 3 = a AND NOT 3")
  case True
  let ?s = "8 * unat (a AND 3)" and ?t = "8 * unat (c AND 3)"
  let ?w = "(mem m (a AND NOT 3) AND NOT (push_bit ?s 0xFF)) OR push_bit ?s (ucast b)"
  have i: "unat (a AND 3) < 4" "unat (c AND 3) < 4"
    by (rule byte_index)+
  have eq: "c = a \<longleftrightarrow> unat (c AND 3) = unat (a AND 3)"
    using True split_mask [of c 3] split_mask [of a 3] by (metis word_unat_eq_iff)
  have "bit (ucast (drop_bit ?t ?w) :: u8) n = bit (if c = a then b else ucast (drop_bit ?t (mem m (a AND NOT 3)))) n" if n: "n < 8" for n
  proof (cases "unat (c AND 3) = unat (a AND 3)")
    case same: True
    then show ?thesis
      using eq i n by (auto simp: bit_simps masks(3))
  next
    case False
    then have "?t + n < ?s \<or> ?s + 8 \<le> ?t + n"
      using n by auto
    then show ?thesis
      using eq False i n by (auto simp: bit_simps masks(3) dest: bit_imp_le_length)
  qed
  then have "(ucast (drop_bit ?t ?w) :: u8) = (if c = a then b else ucast (drop_bit ?t (mem m (a AND NOT 3))))"
    by (intro bit_word_eqI) simp
  then show ?thesis
    using True by (simp add: phys_byte_def set_phys_byte_def Let_def)
next
  case False
  then show ?thesis
    by (auto simp: phys_byte_def set_phys_byte_def Let_def)
qed

lemma set_phys_byte_fields [simp]: "cr3 (set_phys_byte a b m) = cr3 m"
  by (simp add: set_phys_byte_def Let_def)

lemma set_phys_byte_entry:
  assumes "aligned t" "unat i < 1024" "frame_no a \<noteq> frame_no t"
  shows "entry (set_phys_byte a b m) t i = entry m t i"
proof -
  have "t + 4 * i \<noteq> a AND NOT 3"
    using entry_addr(2) [OF assms(1,2)] frame_of_address(2) [of a] assms(3) by metis
  then show ?thesis
    by (simp add: entry_def set_phys_byte_def Let_def)
qed

text \<open>A write to a page open to the user leaves the translation alone.\<close>

definition same_map :: "u32 \<Rightarrow> machine \<Rightarrow> machine \<Rightarrow> bool" where
  "same_map pd m m' \<longleftrightarrow> cr3 m' = cr3 m \<and> (\<forall>i. unat i < 1024 \<longrightarrow> entry m' pd i = entry m pd i) \<and> (\<forall>v. pte_at m' pd v = pte_at m pd v)"

lemma same_map_access:
  assumes "same_map pd m m'"
  shows "user_access m' pd wr v = user_access m pd wr v" "tables_protected m pd \<Longrightarrow> tables_protected m' pd"
    "cr3 m = pd \<Longrightarrow> translate m' v = translate m v"
  using assms by (auto simp: same_map_def user_access_def tables_protected_def translate_def)

lemma set_phys_byte_map:
  assumes "aligned pd" "tables_protected m pd" "cr3 m = pd" "user_access m pd True v" "translate m v = Some a"
  shows "same_map pd m (set_phys_byte a b m)"
proof -
  obtain e where e: "pte_at m pd v = Some e" "frame_no a = frame_no e"
    using assms(3,5) frame_of_address(1) by (auto simp: translate_def)
  have pd: "entry (set_phys_byte a b m) pd i = entry m pd i" if "unat i < 1024" for i
    using set_phys_byte_entry [OF assms(1) that] e assms(2,4) by (auto simp: tables_protected_def)
  moreover have "entry (set_phys_byte a b m) (page_base (entry m pd i)) j = entry m (page_base (entry m pd i)) j"
    if "unat i < 1024" "unat j < 1024" "present (entry m pd i)" for i j
    using set_phys_byte_entry [OF page_base_aligned(1) that(2)] page_base_aligned(2) e assms(2,4) that
    by (auto simp: tables_protected_def)
  ultimately show ?thesis
    by (auto simp: same_map_def pte_at_def Let_def)
qed

lemma same_map_trans: "same_map pd m m1 \<Longrightarrow> same_map pd m1 m2 \<Longrightarrow> same_map pd m m2"
  by (simp add: same_map_def)

lemma store_bytes_safe:
  assumes "aligned pd" "tables_protected m pd" "cr3 m = pd" "\<forall>i < length bs. user_access m pd True (v + of_nat i)"
  shows "\<exists>m'. store_bytes v bs m = Some m' \<and> same_map pd m m' \<and>
    (\<forall>a. phys_byte m' a = (case find (\<lambda>i. translate m (v + of_nat i) = Some a) (rev [0..<length bs]) of
        None \<Rightarrow> phys_byte m a | Some i \<Rightarrow> bs ! i))"
  using assms(2-4)
proof (induction bs arbitrary: v m)
  case (Cons b bs)
  have v: "user_access m pd True v"
    using spec [OF Cons.prems(3), of 0] by simp
  then obtain a where a: "translate m v = Some a"
    using access_translates Cons.prems(2) by blast
  let ?m = "set_phys_byte a b m"
  have s: "same_map pd m ?m"
    using set_phys_byte_map [OF assms(1) Cons.prems(1,2) v a] .
  have "user_access ?m pd True (v + 1 + of_nat i)" if "i < length bs" for i
    using spec [OF Cons.prems(3), of "Suc i"] that same_map_access(1) [OF s] by (simp add: algebra_simps)
  then obtain m' where m': "store_bytes (v + 1) bs ?m = Some m'" "same_map pd ?m m'"
      "\<forall>c. phys_byte m' c = (case find (\<lambda>i. translate ?m (v + 1 + of_nat i) = Some c) (rev [0..<length bs]) of
        None \<Rightarrow> phys_byte ?m c | Some i \<Rightarrow> bs ! i)"
    using Cons.IH [of ?m "v + 1"] same_map_access(2) [OF s] Cons.prems(1,2) by auto
  have idx: "rev [0..<length (b # bs)] = map Suc (rev [0..<length bs]) @ [0]"
    by (simp add: rev_map [symmetric] map_Suc_upt upt_conv_Cons del: upt_Suc)
  have fm: "find P (map Suc xs) = map_option Suc (find (\<lambda>i. P (Suc i)) xs)" for P xs
    by (induction xs) auto
  have "phys_byte m' c = (case find (\<lambda>i. translate m (v + of_nat i) = Some c) (rev [0..<length (b # bs)]) of
      None \<Rightarrow> phys_byte m c | Some i \<Rightarrow> (b # bs) ! i)" for c
    unfolding idx find_append fm using m'(3) a Cons.prems(2)
    by (auto simp: same_map_access(3) [OF s] phys_byte_set algebra_simps split: option.split)
  then show ?case
    using m'(1) a same_map_trans [OF s m'(2)] by auto
qed (simp add: same_map_def)

text \<open>
  C7: writing to user memory. While the address space of the current process is loaded and its page tables are in no page that user mode may write,
  \<open>copy_to_user\<close> never faults. If user mode may write all the bytes it succeeds: every address translates as before, each byte of
  the physical memory that a page of the range maps is the last byte copied to it, and no other byte changes. Otherwise it reports
  a bad address and changes nothing.
\<close>

theorem copy_to_user_exact:
  assumes "pd \<noteq> 0" "aligned pd" "cr3 m = pd" "tables_protected m pd" "unat n \<le> length src"
  shows "\<exists>r m'. copy_to_user (Some pd) dst (Some src) n m = Some (r, m') \<and>
    (if n \<noteq> 0 \<and> dst = 0 \<or> \<not> user_range m True dst (unat n) then r = err ERR_BAD_ADDRESS \<and> m' = m
     else r = err ERR_SUCCESS \<and> (\<forall>v. translate m' v = translate m v) \<and>
       (\<forall>a. phys_byte m' a = (case find (\<lambda>i. translate m (dst + of_nat i) = Some a) (rev [0..<unat n]) of
          None \<Rightarrow> phys_byte m a | Some i \<Rightarrow> src ! i)))"
proof (cases "n \<noteq> 0 \<and> dst = 0 \<or> \<not> user_range m True dst (unat n)")
  case True
  then show ?thesis
    using assms by (auto simp: copy_to_user_def current_address_space_def valid_iff_range)
next
  case False
  then have r: "user_range m True dst (unat n)" "n = 0 \<or> dst \<noteq> 0"
    by auto
  have len: "length (take (unat n) src) = unat n"
    using assms(5) by simp
  obtain m' where m': "store_bytes dst (take (unat n) src) m = Some m'" "same_map pd m m'"
      "\<forall>a. phys_byte m' a = (case find (\<lambda>i. translate m (dst + of_nat i) = Some a) (rev [0..<unat n]) of
        None \<Rightarrow> phys_byte m a | Some i \<Rightarrow> take (unat n) src ! i)"
    using store_bytes_safe [OF assms(2,4,3), of "take (unat n) src" dst, unfolded len] r(1) assms(3) by (auto simp: user_range_def)
  have lim: "i < unat n" if "find P (rev [0..<unat n]) = Some i" for P i
    using find_Some_set [OF that] by auto
  have "phys_byte m' a = (case find (\<lambda>i. translate m (dst + of_nat i) = Some a) (rev [0..<unat n]) of
        None \<Rightarrow> phys_byte m a | Some i \<Rightarrow> src ! i)" for a
    using m'(3) lim by (simp split: option.split)
  moreover have "copy_to_user (Some pd) dst (Some src) n m = Some (err ERR_SUCCESS, m')"
    using assms r m'(1) by (auto simp: copy_to_user_def current_address_space_def valid_iff_range)
  ultimately show ?thesis
    using False same_map_access(3) [OF m'(2) assms(3)] by auto
qed

section \<open>An example\<close>

text \<open>One user page at 0x400000, in frame 3, that starts with the bytes 0x42, 0x41 and 0.\<close>

definition machine_user :: machine where
  "machine_user = machine_small\<lparr>mem := (\<lambda>_. 0)(0x1004 := 0x2007, 0x2000 := 0x3007, 0x3000 := 0x4142), cr3 := 0x1000\<rparr>"

lemma machine_user_pte:
  assumes "frame_no v = 0x400"
  shows "pte_at machine_user 0x1000 v = Some 0x3007" "user_access machine_user 0x1000 wr v"
proof -
  have i: "pd_index v = 1" "pt_index v = 0"
    using assms by (simp_all add: word_unat_eq_iff unat_pd_index unat_pt_index)
  then show "pte_at machine_user 0x1000 v = Some 0x3007"
    by (simp add: pte_at_def machine_user_def entry_def present_def PAGE_PRESENT_def page_base_def)
  then show "user_access machine_user 0x1000 wr v"
    using i by (simp add: user_access_def machine_user_def entry_def user_def writable_def PAGE_USER_def PAGE_RW_def)
qed

lemma machine_user_cr3: "cr3 machine_user = 0x1000"
  by (simp add: machine_user_def)

lemma machine_user_bytes:
  "user_byte machine_user 0x400000 = 0x42" "user_byte machine_user 0x400001 = 0x41" "user_byte machine_user 0x400002 = 0"
  using machine_user_pte(1) [of "0x400000"] machine_user_pte(1) [of "0x400001"] machine_user_pte(1) [of "0x400002"]
  by (simp_all add: user_byte_def translate_def machine_user_cr3 frame_no_def page_base_def) (simp_all add: phys_byte_def machine_user_def)

lemma machine_user_range: "n \<le> 4096 \<Longrightarrow> user_range machine_user wr 0x400000 n"
proof -
  assume n: "n \<le> 4096"
  have "frame_no (0x400000 + of_nat i) = 0x400" if "i < n" for i
    using that n by (simp add: frame_no_def unat_word_ariths unat_of_nat)
  then show ?thesis
    using n machine_user_pte(2) by (simp add: user_range_def machine_user_cr3)
qed

theorem copy_from_user_exact_witness:
  "copy_from_user (Some 0x1000) (Some [9, 9, 9]) 0x400000 2 machine_user = Some (err ERR_SUCCESS, Some [0x42, 0x41, 9])"
  using copy_from_user_exact [of "0x1000" machine_user 2 "[9, 9, 9]" "0x400000"] machine_user_range [of 2 False]
  by (simp add: machine_user_cr3 machine_user_bytes upt_rec)

theorem copy_user_string_exact_witness:
  "\<exists>out. copy_user_string (Some 0x1000) (Some [9, 9, 9, 9]) 4 0x400000 machine_user = Some (err ERR_SUCCESS, Some out)"
proof -
  have "0 \<in> set (user_bytes machine_user 0x400000 4)"
    using machine_user_bytes by (simp add: upt_rec)
  moreover have "user_range machine_user False 0x400000 (Suc e)" if "e < 4" for e
    using that by (intro machine_user_range) simp
  ultimately show ?thesis
    using copy_user_string_exact [of "0x1000" machine_user "0x400000" 4 "[9, 9, 9, 9]"] machine_user_cr3 by (auto split: if_splits)
qed

lemma machine_user_entry:
  assumes "aligned t" "unat i < 1024"
  shows "entry machine_user t i =
    (if t = 0x3000 \<and> i = 0 then 0x4142 else if t = 0x2000 \<and> i = 0 then 0x3007 else if t = 0x1000 \<and> i = 1 then 0x2007 else 0)"
proof -
  have m: "machine_user = set_entry 0x3000 0 0x4142 (set_entry 0x2000 0 0x3007 (set_entry 0x1000 1 0x2007 (machine_small\<lparr>cr3 := 0x1000\<rparr>)))"
    by (simp add: machine_user_def machine_small_def set_entry_def)
  show ?thesis
    using assms unfolding m by (auto simp: entry_set_entry aligned_def) (simp_all add: entry_def machine_small_def)
qed

lemma machine_user_protected: "tables_protected machine_user 0x1000"
proof -
  have al: "aligned 0x1000" "aligned 0x2000"
    by (simp_all add: aligned_def)
  have pd: "entry machine_user 0x1000 i = (if i = 1 then 0x2007 else 0)" if "unat i < 1024" for i
    using machine_user_entry [OF al(1) that] by simp
  have "frame_no a = 3" if "pte_at machine_user 0x1000 v = Some a" for v a
    using that pd [of "pd_index v"] machine_user_entry [OF al(2), of "pt_index v"]
    by (auto simp: pte_at_def Let_def page_base_def frame_no_def split: if_splits)
  then show ?thesis
    using pd by (auto simp: tables_protected_def frame_no_def)
qed

theorem copy_to_user_exact_witness:
  "\<exists>m'. copy_to_user (Some 0x1000) 0x400000 (Some [7]) 1 machine_user = Some (err ERR_SUCCESS, m') \<and> phys_byte m' 0x3000 = 7"
proof -
  have "translate machine_user 0x400000 = Some 0x3000"
    using machine_user_pte(1) [of "0x400000"] by (simp add: translate_def machine_user_cr3 frame_no_def page_base_def)
  then show ?thesis
    using copy_to_user_exact [OF _ _ machine_user_cr3 machine_user_protected, of 1 "[7]" "0x400000"] machine_user_range [of 1 True]
    by (auto simp: aligned_def upt_rec)
qed

end
