(* ===== verification/Kfs.thy ===== *)
theory Kfs
  imports Prelude
begin

text \<open>
  The objects of the virtual file system: vnodes (\<^verbatim>\<open>include/kernel/fs/vnode.h\<close>,
  \<^verbatim>\<open>src/kernel/fs/vfs/vnode.c\<close>) and open files (\<^verbatim>\<open>include/kernel/fs/file.h\<close>,
  \<^verbatim>\<open>src/kernel/fs/vfs/ref.c\<close>, \<^verbatim>\<open>src/kernel/fs/vfs/file.c\<close>). Objects live in maps from identifiers, which
  stand for their addresses; freeing an object removes it, so that a dangling reference is
  one to an identifier outside the map. A file system is a set of vnode operations, functions on the
  state; a concrete file system extends the state record with its own objects.
\<close>

section \<open>State\<close>

datatype vnode_type =
    VNODE_TYPE_NONE | VNODE_TYPE_FILE | VNODE_TYPE_DIR | VNODE_TYPE_DEV | VNODE_TYPE_BLOCK | VNODE_TYPE_EXEC

type_synonym vid = nat
type_synonym fid = nat

text \<open>
  \<open>vops\<close> names a table of operations, \<open>vdata\<close> the object of the file system behind the vnode and
  \<open>vexec\<close> an executable callback; \<open>None\<close> is \<open>NULL\<close>.
\<close>

record vnode =
  vtype :: vnode_type
  refcnt :: u32
  vmount :: "nat option"
  vops :: "nat option"
  vdata :: "nat option"
  vexec :: "nat option"

text \<open>\<open>fgeneric\<close> says that \<open>ops\<close> is \<open>vfs_generic_file_ops\<close>, the only table the sources install.\<close>

record vfile =
  fvn :: "vid option"
  offset :: usize
  flags :: u32
  fgeneric :: bool
  refcount :: int

text \<open>
  Allocation takes a fresh identifier. Whether the \<open>n\<close>-th call of the allocator succeeds
  is decided by \<open>alloc_ok n\<close>, which is arbitrary; \<open>fill\<close> is the arbitrary content of fresh memory.
\<close>

record kfs =
  vnodes :: "vid \<rightharpoonup> vnode"
  files :: "fid \<rightharpoonup> vfile"
  root_vn :: "vid option"
  next_id :: nat
  alloc_ok :: "nat \<Rightarrow> bool"
  alloc_no :: nat
  fill :: "nat \<Rightarrow> u8"

definition kmalloc :: "'z kfs_scheme \<Rightarrow> nat option \<times> 'z kfs_scheme" where
  "kmalloc s =
     (let s' = s\<lparr>alloc_no := alloc_no s + 1\<rparr> in
      if alloc_ok s (alloc_no s) then (Some (next_id s), s'\<lparr>next_id := next_id s + 1\<rparr>) else (None, s'))"

record vfs_stat =
  st_type :: vnode_type
  st_size :: usize
  st_capacity :: usize
  st_mode :: u32
  st_uid :: u32
  st_gid :: u32
  st_atime :: u32
  st_mtime :: u32
  st_ctime :: u32

text \<open>
  The operations of \<open>struct vnode_ops\<close> the sources call, each absent for a \<open>NULL\<close> slot. A read
  returns the bytes stored to the buffer, \<open>out\<close> being their number, in the order
  result code, bytes or count, state.
\<close>

record 's vnode_ops =
  op_lookup :: "(vid \<Rightarrow> string \<Rightarrow> 's \<Rightarrow> int \<times> vid option \<times> 's) option"
  op_create :: "(vid \<Rightarrow> string \<Rightarrow> vnode_type \<Rightarrow> 's \<Rightarrow> int \<times> vid option \<times> 's) option"
  op_unlink :: "(vid \<Rightarrow> string \<Rightarrow> 's \<Rightarrow> int \<times> 's) option"
  op_read :: "(vid \<Rightarrow> bool \<Rightarrow> usize \<Rightarrow> usize \<Rightarrow> 's \<Rightarrow> int \<times> u8 list \<times> 's) option"
  op_write :: "(vid \<Rightarrow> u8 list option \<Rightarrow> usize \<Rightarrow> usize \<Rightarrow> 's \<Rightarrow> int \<times> usize \<times> 's) option"
  op_readdir :: "(vid \<Rightarrow> usize \<Rightarrow> 's \<Rightarrow> int \<times> (string \<times> vnode_type) option) option"
  op_truncate :: "(vid \<Rightarrow> usize \<Rightarrow> 's \<Rightarrow> int \<times> 's) option"
  op_getattr :: "(vid \<Rightarrow> 's \<Rightarrow> int \<times> vfs_stat option) option"
  op_setattr :: "(vid \<Rightarrow> vfs_stat option \<Rightarrow> 's \<Rightarrow> int \<times> 's) option"
  op_destroy :: "(vid \<Rightarrow> 's \<Rightarrow> 's) option"

definition no_ops :: "'s vnode_ops" where
  "no_ops = \<lparr>op_lookup = None, op_create = None, op_unlink = None, op_read = None, op_write = None,
     op_readdir = None, op_truncate = None, op_getattr = None, op_setattr = None, op_destroy = None\<rparr>"

text \<open>The operation in slot \<open>sel\<close> of a vnode, if the vnode has a table and the slot is filled.\<close>

definition vop :: "(nat \<Rightarrow> 's vnode_ops) \<Rightarrow> ('s vnode_ops \<Rightarrow> 'f option) \<Rightarrow> vnode \<Rightarrow> 'f option" where
  "vop tbl sel vn = (case vops vn of None \<Rightarrow> None | Some t \<Rightarrow> sel (tbl t))"

section \<open>vnode.c\<close>

definition vnode_create :: "nat option \<Rightarrow> vnode_type \<Rightarrow> nat option \<Rightarrow> nat option \<Rightarrow> 'z kfs_scheme
    \<Rightarrow> vid option \<times> 'z kfs_scheme" where
  "vnode_create mp type ops data s =
     (case kmalloc s of
        (None, s) \<Rightarrow> (None, s)
      | (Some v, s) \<Rightarrow>
          (Some v, s\<lparr>vnodes := (vnodes s)(v \<mapsto>
             \<lparr>vtype = type, refcnt = 1, vmount = mp, vops = ops, vdata = data, vexec = None\<rparr>)\<rparr>))"

definition vnode_ref :: "vid option \<Rightarrow> 'z kfs_scheme \<Rightarrow> 'z kfs_scheme" where
  "vnode_ref vp s =
     (case vp of
        None \<Rightarrow> s
      | Some v \<Rightarrow> s\<lparr>vnodes := (vnodes s)(v := map_option (\<lambda>vn. vn\<lparr>refcnt := refcnt vn + 1\<rparr>) (vnodes s v))\<rparr>)"

text \<open>
  A vnode that is not in the store is a dangling pointer, which the model leaves alone.
\<close>

definition vnode_unref :: "(nat \<Rightarrow> 'z kfs_scheme vnode_ops) \<Rightarrow> vid option \<Rightarrow> 'z kfs_scheme \<Rightarrow> 'z kfs_scheme" where
  "vnode_unref tbl vp s =
     (case vp of
        None \<Rightarrow> s
      | Some v \<Rightarrow>
          (case vnodes s v of
             None \<Rightarrow> s
           | Some vn \<Rightarrow>
               if refcnt vn = 0 then s
               else
                 let vn' = vn\<lparr>refcnt := refcnt vn - 1\<rparr>;
                     s = s\<lparr>vnodes := (vnodes s)(v \<mapsto> vn')\<rparr>
                 in if refcnt vn' = 0 then
                      let s = (case vop tbl op_destroy vn' of None \<Rightarrow> s | Some destroy \<Rightarrow> destroy v s)
                      in s\<lparr>vnodes := (vnodes s)(v := None)\<rparr>
                    else s))"

section \<open>Open files\<close>

definition upd_file :: "fid \<Rightarrow> (vfile \<Rightarrow> vfile) \<Rightarrow> 'z kfs_scheme \<Rightarrow> 'z kfs_scheme" where
  "upd_file f g s = s\<lparr>files := (files s)(f := map_option g (files s f))\<rparr>"

definition vfs_close :: "(nat \<Rightarrow> 'z kfs_scheme vnode_ops) \<Rightarrow> fid option \<Rightarrow> 'z kfs_scheme \<Rightarrow> int \<times> 'z kfs_scheme" where
  "vfs_close tbl fp s =
     (case fp of
        None \<Rightarrow> (err ERR_SUCCESS, s)
      | Some f \<Rightarrow>
          (case files s f of
             None \<Rightarrow> (err ERR_SUCCESS, s)
           | Some fl \<Rightarrow>
               if refcount fl > 1 then (err ERR_SUCCESS, upd_file f (\<lambda>x. x\<lparr>refcount := refcount x - 1\<rparr>) s)
               else
                 let s = vnode_unref tbl (fvn fl) s
                 in (err ERR_SUCCESS, s\<lparr>files := (files s)(f := None)\<rparr>)))"

definition file_ref :: "fid option \<Rightarrow> 'z kfs_scheme \<Rightarrow> 'z kfs_scheme" where
  "file_ref fp s = (case fp of None \<Rightarrow> s | Some f \<Rightarrow> upd_file f (\<lambda>x. x\<lparr>refcount := refcount x + 1\<rparr>) s)"

definition file_unref :: "(nat \<Rightarrow> 'z kfs_scheme vnode_ops) \<Rightarrow> fid option \<Rightarrow> 'z kfs_scheme \<Rightarrow> 'z kfs_scheme" where
  "file_unref tbl fp s =
     (case fp of
        None \<Rightarrow> s
      | Some f \<Rightarrow>
          (case files s f of
             None \<Rightarrow> s
           | Some fl \<Rightarrow>
               if refcount fl \<le> 1 then snd (vfs_close tbl fp s)
               else upd_file f (\<lambda>x. x\<lparr>refcount := refcount x - 1\<rparr>) s))"

text \<open>
  Reading and writing at the file's offset. The result is the return value, the bytes stored
  to the buffer (for a read), \<open>*out\<close> and the state. \<open>buf\<close> says whether the buffer pointer of a read
  is not \<open>NULL\<close>; for a write it is the buffer's content.
\<close>

definition vfs_generic_read :: "(nat \<Rightarrow> 'z kfs_scheme vnode_ops) \<Rightarrow> fid option \<Rightarrow> bool \<Rightarrow> usize \<Rightarrow> 'z kfs_scheme
    \<Rightarrow> int \<times> u8 list \<times> usize \<times> 'z kfs_scheme" where
  "vfs_generic_read tbl fp buf len s =
     (case Option.bind fp (files s) of
        None \<Rightarrow> (err ERR_INVALID_ARGUMENT, [], 0, s)
      | Some fl \<Rightarrow>
          (case Option.bind (fvn fl) (vnodes s) of
             None \<Rightarrow> (err ERR_INVALID_ARGUMENT, [], 0, s)
           | Some vn \<Rightarrow>
               if len \<noteq> 0 \<and> \<not> buf then (err ERR_INVALID_ARGUMENT, [], 0, s)
               else (case vop tbl op_read vn of
                   None \<Rightarrow> (err ERR_NOT_SUPPORTED, [], 0, s)
                 | Some rd \<Rightarrow>
                     let (result, bs, s) = rd (the (fvn fl)) buf (offset fl) len s;
                         n = of_nat (length bs)
                     in if n > len then (err ERR_IO_ERROR, bs, 0, s)
                        else if n > - 1 - offset fl then (err ERR_INVALID_ARGUMENT, bs, 0, s)
                        else
                          let s = (if result = err ERR_SUCCESS
                                   then upd_file (the fp) (\<lambda>x. x\<lparr>offset := offset x + n\<rparr>) s else s)
                          in (result, bs, n, s))))"

definition vfs_generic_write :: "(nat \<Rightarrow> 'z kfs_scheme vnode_ops) \<Rightarrow> fid option \<Rightarrow> u8 list option \<Rightarrow> usize
    \<Rightarrow> 'z kfs_scheme \<Rightarrow> int \<times> usize \<times> 'z kfs_scheme" where
  "vfs_generic_write tbl fp buf len s =
     (case Option.bind fp (files s) of
        None \<Rightarrow> (err ERR_INVALID_ARGUMENT, 0, s)
      | Some fl \<Rightarrow>
          (case Option.bind (fvn fl) (vnodes s) of
             None \<Rightarrow> (err ERR_INVALID_ARGUMENT, 0, s)
           | Some vn \<Rightarrow>
               if len \<noteq> 0 \<and> buf = None then (err ERR_INVALID_ARGUMENT, 0, s)
               else (case vop tbl op_write vn of
                   None \<Rightarrow> (err ERR_NOT_SUPPORTED, 0, s)
                 | Some wr \<Rightarrow>
                     let (result, n, s) = wr (the (fvn fl)) buf (offset fl) len s
                     in if n > len then (err ERR_IO_ERROR, 0, s)
                        else if n > - 1 - offset fl then (err ERR_INVALID_ARGUMENT, 0, s)
                        else
                          let s = (if result = err ERR_SUCCESS
                                   then upd_file (the fp) (\<lambda>x. x\<lparr>offset := offset x + n\<rparr>) s else s)
                          in (result, n, s))))"

definition vfs_generic_seek :: "fid option \<Rightarrow> usize \<Rightarrow> 'z kfs_scheme \<Rightarrow> int \<times> 'z kfs_scheme" where
  "vfs_generic_seek fp off s =
     (case fp of
        None \<Rightarrow> (err ERR_INVALID_ARGUMENT, s)
      | Some f \<Rightarrow> (err ERR_SUCCESS, upd_file f (\<lambda>x. x\<lparr>offset := off\<rparr>) s))"

text \<open>A file whose table of operations is \<open>NULL\<close> has \<open>fgeneric\<close> false.\<close>

definition file_has_ops :: "fid option \<Rightarrow> 'z kfs_scheme \<Rightarrow> bool" where
  "file_has_ops fp s = (case Option.bind fp (files s) of None \<Rightarrow> False | Some fl \<Rightarrow> fgeneric fl)"

definition vfs_read :: "(nat \<Rightarrow> 'z kfs_scheme vnode_ops) \<Rightarrow> fid option \<Rightarrow> bool \<Rightarrow> usize \<Rightarrow> 'z kfs_scheme
    \<Rightarrow> int \<times> u8 list \<times> usize \<times> 'z kfs_scheme" where
  "vfs_read tbl fp buf len s =
     (if \<not> file_has_ops fp s then (err ERR_INVALID_ARGUMENT, [], 0, s)
      else vfs_generic_read tbl fp buf len s)"

definition vfs_write :: "(nat \<Rightarrow> 'z kfs_scheme vnode_ops) \<Rightarrow> fid option \<Rightarrow> u8 list option \<Rightarrow> usize
    \<Rightarrow> 'z kfs_scheme \<Rightarrow> int \<times> usize \<times> 'z kfs_scheme" where
  "vfs_write tbl fp buf len s =
     (if \<not> file_has_ops fp s then (err ERR_INVALID_ARGUMENT, 0, s)
      else vfs_generic_write tbl fp buf len s)"

definition vfs_seek :: "fid option \<Rightarrow> usize \<Rightarrow> 'z kfs_scheme \<Rightarrow> int \<times> 'z kfs_scheme" where
  "vfs_seek fp off s =
     (if \<not> file_has_ops fp s then (err ERR_INVALID_ARGUMENT, s) else vfs_generic_seek fp off s)"

definition vfs_readdir :: "(nat \<Rightarrow> 'z kfs_scheme vnode_ops) \<Rightarrow> vid option \<Rightarrow> usize \<Rightarrow> 'z kfs_scheme
    \<Rightarrow> int \<times> (string \<times> vnode_type) option" where
  "vfs_readdir tbl vp index s =
     (case Option.bind vp (vnodes s) of
        None \<Rightarrow> (err ERR_INVALID_ARGUMENT, None)
      | Some vn \<Rightarrow>
          (case vop tbl op_readdir vn of
             None \<Rightarrow> (err ERR_NOT_SUPPORTED, None)
           | Some rd \<Rightarrow> rd (the vp) index s))"

end
