(* ===== verification/Vfs_Path.thy ===== *)
theory Vfs_Path
  imports Kfs
begin

text \<open>
  Path resolution: \<^verbatim>\<open>src/kernel/fs/vfs/lookup.c\<close>. A path is a string without its terminating zero,
  a cursor into it the rest of the string. The scanner is shown to enumerate the components of a
  path, and resolution to be a walk along them.
\<close>

section \<open>Model\<close>

definition VFS_NAME_MAX :: nat where
  "VFS_NAME_MAX = 255"

abbreviation slash :: char where
  "slash \<equiv> CHR ''/''"

fun skip_slashes :: "string \<Rightarrow> string" where
  "skip_slashes [] = []"
| "skip_slashes (c # cs) = (if c = slash then skip_slashes cs else c # cs)"

text \<open>The copying loop: \<open>len\<close> characters are already copied; \<open>None\<close> is \<open>ERR_NAME_TOO_LONG\<close>.\<close>

fun take_component :: "nat \<Rightarrow> string \<Rightarrow> (string \<times> string) option" where
  "take_component len [] = Some ([], [])"
| "take_component len (c # cs) =
     (if c = slash then Some ([], c # cs)
      else if len = VFS_NAME_MAX then None
      else map_option (\<lambda>(n, r). (c # n, r)) (take_component (Suc len) cs))"

text \<open>The result: return value, cursor, name, \<open>has_component\<close>, \<open>has_more\<close>.\<close>

definition vfs_next_component :: "string \<Rightarrow> int \<times> string \<times> string \<times> bool \<times> bool" where
  "vfs_next_component cursor =
     (let p = skip_slashes cursor in
      if p = [] then (err ERR_SUCCESS, p, [], False, False)
      else (case take_component 0 p of
          None \<Rightarrow> (err ERR_NAME_TOO_LONG, cursor, [], False, False)
        | Some (name, rest) \<Rightarrow>
            let p = skip_slashes rest in (err ERR_SUCCESS, p, name, True, p \<noteq> [])))"

definition vfs_lookup_component :: "(nat \<Rightarrow> 'z kfs_scheme vnode_ops) \<Rightarrow> vid option \<Rightarrow> string \<Rightarrow> 'z kfs_scheme
    \<Rightarrow> int \<times> vid option \<times> 'z kfs_scheme" where
  "vfs_lookup_component tbl dir name s =
     (case Option.bind dir (vnodes s) of
        None \<Rightarrow> (err ERR_INVALID_ARGUMENT, None, s)
      | Some vn \<Rightarrow>
          if vtype vn \<noteq> VNODE_TYPE_DIR then (err ERR_NOT_DIRECTORY, None, s)
          else (case vop tbl op_lookup vn of
              None \<Rightarrow> (err ERR_NOT_SUPPORTED, None, s)
            | Some lookup \<Rightarrow> lookup (the dir) name s))"

lemma skip_slashes_length: "length (skip_slashes p) \<le> length p"
  by (induction p) auto

lemma take_component_length: "take_component n p = Some (name, rest) \<Longrightarrow> length rest + length name = length p"
  by (induction n p arbitrary: name rest rule: take_component.induct) (auto split: if_splits)

lemma take_component_nonempty:
  "take_component n (c # cs) = Some (name, rest) \<Longrightarrow> c \<noteq> slash \<Longrightarrow> length rest < length (c # cs)"
  by (auto split: if_splits dest: take_component_length)

lemma skip_slashes_hd: "skip_slashes p = c # cs \<Longrightarrow> c \<noteq> slash"
  by (induction p) (auto split: if_splits)

lemma next_component_shorter:
  assumes "vfs_next_component p = (r, p', name, True, hm)"
  shows "length p' < length p"
proof -
  obtain c cs where sk: "skip_slashes p = c # cs"
    using assms by (cases "skip_slashes p") (auto simp: vfs_next_component_def)
  then obtain rest where rest: "take_component 0 (c # cs) = Some (name, rest)" "p' = skip_slashes rest"
    using assms by (auto simp: vfs_next_component_def Let_def split: option.splits)
  have "length rest < length (c # cs)"
    using take_component_nonempty [OF rest(1)] skip_slashes_hd [OF sk] by simp
  then show ?thesis
    using sk rest(2) skip_slashes_length [of p] skip_slashes_length [of rest] by simp
qed

text \<open>
  The loop of \<open>vfs_lookup\<close>, from a cursor and a directory.
\<close>

function lookup_loop :: "(nat \<Rightarrow> 'z kfs_scheme vnode_ops) \<Rightarrow> string \<Rightarrow> vid \<Rightarrow> 'z kfs_scheme
    \<Rightarrow> int \<times> vid option \<times> 'z kfs_scheme" where
  "lookup_loop tbl cursor cur s =
     (case vfs_next_component cursor of
        (r, cursor', name, has_component, has_more) \<Rightarrow>
          if r \<noteq> err ERR_SUCCESS then (r, None, s)
          else if \<not> has_component then (err ERR_SUCCESS, Some cur, s)
          else (case vfs_lookup_component tbl (Some cur) name s of
              (r, nxt, s) \<Rightarrow>
                if r \<noteq> err ERR_SUCCESS then (r, None, s)
                else (case nxt of
                    None \<Rightarrow> (err ERR_INTERNAL, None, s)
                  | Some n \<Rightarrow> lookup_loop tbl cursor' n s)))"
  by auto
termination
  by (relation "measure (\<lambda>(tbl, cursor, cur, s). length cursor)") (auto dest: sym next_component_shorter)

declare lookup_loop.simps [simp del]

definition ends_with_slash :: "string \<Rightarrow> bool" where
  "ends_with_slash path \<longleftrightarrow> path \<noteq> [] \<and> last path = slash"

definition vfs_lookup :: "(nat \<Rightarrow> 'z kfs_scheme vnode_ops) \<Rightarrow> string option \<Rightarrow> vid option option \<Rightarrow> 'z kfs_scheme
    \<Rightarrow> int \<times> vid option option \<times> 'z kfs_scheme" where
  "vfs_lookup tbl path out s =
     (if path = None \<or> path = Some [] \<or> out = None then (err ERR_INVALID_ARGUMENT, out, s)
      else (case root_vn s of
          None \<Rightarrow> (err ERR_NOT_FOUND, Some None, s)
        | Some root \<Rightarrow>
            (case lookup_loop tbl (the path) root s of
               (r, cur, s) \<Rightarrow>
                 if r \<noteq> err ERR_SUCCESS then (r, Some None, s)
                 else if ends_with_slash (the path) \<and>
                    (case Option.bind cur (vnodes s) of None \<Rightarrow> True | Some vn \<Rightarrow> vtype vn \<noteq> VNODE_TYPE_DIR)
                 then (err ERR_NOT_DIRECTORY, Some None, s)
                 else (err ERR_SUCCESS, Some cur, s))))"

definition vfs_resolve :: "(nat \<Rightarrow> 'z kfs_scheme vnode_ops) \<Rightarrow> string option \<Rightarrow> 'z kfs_scheme
    \<Rightarrow> vid option \<times> 'z kfs_scheme" where
  "vfs_resolve tbl path s =
     (case vfs_lookup tbl path (Some None) s of
        (r, v, s) \<Rightarrow> if r = err ERR_SUCCESS then (the v, s) else (None, s))"

text \<open>
  The loop of \<open>vfs_resolve_parent_path\<close>; the result holds the parent and the leaf name, whose copy
  is allocated.
\<close>

function parent_loop :: "(nat \<Rightarrow> 'z kfs_scheme vnode_ops) \<Rightarrow> string \<Rightarrow> vid \<Rightarrow> 'z kfs_scheme
    \<Rightarrow> int \<times> (vid \<times> string) option \<times> 'z kfs_scheme" where
  "parent_loop tbl cursor cur s =
     (case vfs_next_component cursor of
        (r, cursor', name, has_component, has_more) \<Rightarrow>
          if r \<noteq> err ERR_SUCCESS then (r, None, s)
          else if \<not> has_component then (err ERR_INVALID_ARGUMENT, None, s)
          else if \<not> has_more then
            (if name = ''.'' \<or> name = ''..'' then (err ERR_INVALID_ARGUMENT, None, s)
             else (case kmalloc s of
                 (None, s) \<Rightarrow> (err ERR_OUT_OF_MEMORY, None, s)
               | (Some _, s) \<Rightarrow> (err ERR_SUCCESS, Some (cur, name), s)))
          else (case vfs_lookup_component tbl (Some cur) name s of
              (r, nxt, s) \<Rightarrow>
                if r \<noteq> err ERR_SUCCESS then (r, None, s)
                else (case nxt of
                    None \<Rightarrow> (err ERR_INTERNAL, None, s)
                  | Some n \<Rightarrow> parent_loop tbl cursor' n s)))"
  by auto
termination
  by (relation "measure (\<lambda>(tbl, cursor, cur, s). length cursor)") (auto dest: sym next_component_shorter)

declare parent_loop.simps [simp del]

text \<open>The two out-parameters are one result here: \<open>None\<close> where they are set to \<open>NULL\<close>.\<close>

definition vfs_resolve_parent_path :: "(nat \<Rightarrow> 'z kfs_scheme vnode_ops) \<Rightarrow> string option \<Rightarrow> 'z kfs_scheme
    \<Rightarrow> int \<times> (vid \<times> string) option \<times> 'z kfs_scheme" where
  "vfs_resolve_parent_path tbl path s =
     (if path = None \<or> path = Some [] then (err ERR_INVALID_ARGUMENT, None, s)
      else (case root_vn s of
          None \<Rightarrow> (err ERR_NOT_FOUND, None, s)
        | Some root \<Rightarrow> parent_loop tbl (the path) root s))"

definition vfs_resolve_path :: "(nat \<Rightarrow> 'z kfs_scheme vnode_ops) \<Rightarrow> string option \<Rightarrow> 'z kfs_scheme
    \<Rightarrow> (vid \<times> string) option \<times> 'z kfs_scheme" where
  "vfs_resolve_path tbl path s =
     (case vfs_resolve_parent_path tbl path s of
        (r, res, s) \<Rightarrow> if r \<noteq> err ERR_SUCCESS then (None, s) else (res, s))"

section \<open>The components of a path\<close>

fun splits :: "string \<Rightarrow> string list" where
  "splits [] = [[]]"
| "splits (c # cs) = (if c = slash then [] # splits cs else (c # hd (splits cs)) # tl (splits cs))"

definition components :: "string \<Rightarrow> string list" where
  "components p = filter (\<lambda>c. c \<noteq> []) (splits p)"

lemma splits_nonempty [simp]: "splits p \<noteq> []"
  by (cases p) auto

lemma splits_takeWhile: "hd (splits p) = takeWhile (\<lambda>c. c \<noteq> slash) p"
  by (induction p) auto

lemma components_skip: "components (skip_slashes p) = components p"
  by (induction p) (auto simp: components_def)

lemma components_Nil [simp]: "components [] = []"
  by (simp add: components_def)

lemma components_Cons:
  assumes "c \<noteq> slash"
  shows "components (c # cs) =
    takeWhile (\<lambda>c. c \<noteq> slash) (c # cs) # components (dropWhile (\<lambda>c. c \<noteq> slash) (c # cs))"
proof -
  have "filter (\<lambda>c. c \<noteq> []) (tl (splits cs)) = filter (\<lambda>c. c \<noteq> []) (splits (dropWhile (\<lambda>c. c \<noteq> slash) cs))" for cs
    by (induction cs) auto
  then show ?thesis using assms by (auto simp: components_def splits_takeWhile)
qed

lemma take_component_spec:
  "take_component n p =
    (if n + length (takeWhile (\<lambda>c. c \<noteq> slash) p) \<le> VFS_NAME_MAX
     then Some (takeWhile (\<lambda>c. c \<noteq> slash) p, dropWhile (\<lambda>c. c \<noteq> slash) p) else None)"
  if "n \<le> VFS_NAME_MAX" for n
  using that
  by (induction n p rule: take_component.induct) auto

text \<open>The scanner takes the first component and leaves the others.\<close>

lemma vfs_next_component_spec:
  "case components p of
     [] \<Rightarrow> vfs_next_component p = (err ERR_SUCCESS, [], [], False, False)
   | c # cs \<Rightarrow>
       if length c \<le> VFS_NAME_MAX
       then \<exists>p'. vfs_next_component p = (err ERR_SUCCESS, p', c, True, cs \<noteq> []) \<and> components p' = cs
       else vfs_next_component p = (err ERR_NAME_TOO_LONG, p, [], False, False)"
proof (cases "skip_slashes p")
  case Nil
  then have "components p = []" using components_skip [of p] by simp
  with Nil show ?thesis by (simp add: vfs_next_component_def)
next
  case (Cons c cs)
  define w where "w = takeWhile (\<lambda>c. c \<noteq> slash) (c # cs)"
  define r where "r = dropWhile (\<lambda>c. c \<noteq> slash) (c # cs)"
  have comps: "components p = w # components r"
    using components_skip [of p] components_Cons [OF skip_slashes_hd [OF Cons]] Cons by (simp add: w_def r_def)
  have tc: "take_component 0 (c # cs) = (if length w \<le> VFS_NAME_MAX then Some (w, r) else None)"
    using take_component_spec [of 0 "c # cs"] by (simp add: w_def r_def)
  have more: "skip_slashes r \<noteq> [] \<longleftrightarrow> components r \<noteq> []"
  proof (cases "skip_slashes r")
    case Nil
    then show ?thesis using components_skip [of r] by simp
  next
    case (Cons d ds)
    then have "components r \<noteq> []"
      using components_skip [of r] components_Cons [OF skip_slashes_hd [OF Cons], of ds] by (metis list.distinct(1))
    with Cons show ?thesis by simp
  qed
  show ?thesis
    unfolding vfs_next_component_def Cons comps Let_def tc list.case
    using more components_skip [of r] by auto
qed

section \<open>Resolution is a walk along the components\<close>

fun walk :: "(nat \<Rightarrow> 'z kfs_scheme vnode_ops) \<Rightarrow> string list \<Rightarrow> vid \<Rightarrow> 'z kfs_scheme
    \<Rightarrow> int \<times> vid option \<times> 'z kfs_scheme" where
  "walk tbl [] cur s = (err ERR_SUCCESS, Some cur, s)"
| "walk tbl (c # cs) cur s =
     (if length c > VFS_NAME_MAX then (err ERR_NAME_TOO_LONG, None, s)
      else (case vfs_lookup_component tbl (Some cur) c s of
          (r, nxt, s) \<Rightarrow>
            if r \<noteq> err ERR_SUCCESS then (r, None, s)
            else (case nxt of None \<Rightarrow> (err ERR_INTERNAL, None, s) | Some n \<Rightarrow> walk tbl cs n s)))"

lemma next_component_cases:
  obtains (none) "components p = []" "vfs_next_component p = (err ERR_SUCCESS, [], [], False, False)"
  | (one) c cs p' where "components p = c # cs" "length c \<le> VFS_NAME_MAX"
      "vfs_next_component p = (err ERR_SUCCESS, p', c, True, cs \<noteq> [])" "components p' = cs"
  | (long) c cs where "components p = c # cs" "length c > VFS_NAME_MAX"
      "vfs_next_component p = (err ERR_NAME_TOO_LONG, p, [], False, False)"
  using vfs_next_component_spec [of p] by (cases "components p") (auto split: if_splits)

lemma lookup_loop_walk: "lookup_loop tbl p cur s = walk tbl (components p) cur s"
proof (induction "components p" arbitrary: p cur s)
  case Nil
  then show ?case by (cases rule: next_component_cases [of p]) (simp_all add: lookup_loop.simps)
next
  case (Cons c cs)
  show ?case
  proof (cases rule: next_component_cases [of p])
    case none
    then show ?thesis using Cons.hyps(2) by simp
  next
    case (one c' cs' p')
    then show ?thesis
      using Cons.hyps(1) [of p'] Cons.hyps(2)
      by (subst lookup_loop.simps) (simp split: prod.split option.split)
  next
    case long
    then show ?thesis by (subst lookup_loop.simps) simp
  qed
qed

text \<open>The end of \<open>vfs_resolve_parent_path\<close>, in the directory \<open>cur\<close> with the last component.\<close>

definition take_leaf :: "string \<Rightarrow> vid \<Rightarrow> 'z kfs_scheme \<Rightarrow> int \<times> (vid \<times> string) option \<times> 'z kfs_scheme" where
  "take_leaf name cur s =
     (if length name > VFS_NAME_MAX then (err ERR_NAME_TOO_LONG, None, s)
      else if name = ''.'' \<or> name = ''..'' then (err ERR_INVALID_ARGUMENT, None, s)
      else (case kmalloc s of
          (None, s) \<Rightarrow> (err ERR_OUT_OF_MEMORY, None, s)
        | (Some _, s) \<Rightarrow> (err ERR_SUCCESS, Some (cur, name), s)))"

lemma parent_loop_walk:
  assumes "components p \<noteq> []"
  shows "parent_loop tbl p cur s =
    (case walk tbl (butlast (components p)) cur s of
       (r, d, s) \<Rightarrow> if r \<noteq> err ERR_SUCCESS then (r, None, s) else take_leaf (last (components p)) (the d) s)"
  using assms
proof (induction "components p" arbitrary: p cur s)
  case Nil
  then show ?case by simp
next
  case (Cons c cs)
  show ?case
  proof (cases rule: next_component_cases [of p])
    case none
    then show ?thesis using Cons.hyps(2) by simp
  next
    case (one c' cs' p')
    show ?thesis
    proof (cases "cs' = []")
      case True
      then show ?thesis
        using one by (subst parent_loop.simps) (simp add: take_leaf_def split: prod.split option.split)
    next
      case False
      have IH: "parent_loop tbl p' n s' =
          (case walk tbl (butlast cs') n s' of
             (r, d, s) \<Rightarrow> if r \<noteq> err ERR_SUCCESS then (r, None, s) else take_leaf (last cs') (the d) s)" for n s'
        using Cons.hyps(1) [of p' n s'] Cons.hyps(2) False unfolding one(1,4) by simp
      obtain r nxt s' where lc: "vfs_lookup_component tbl (Some cur) c' s = (r, nxt, s')"
        by (cases "vfs_lookup_component tbl (Some cur) c' s")
      show ?thesis
        using one False by (subst parent_loop.simps) (simp add: lc IH split: option.split prod.split)
    qed
  next
    case long
    then show ?thesis
      using Cons.hyps(2) by (subst parent_loop.simps) (simp add: take_leaf_def split: prod.split)
  qed
qed

text \<open>
  C31: resolving a path is walking along its components. Repeated, leading and trailing slashes
  do not matter, except that a path with a trailing slash has to name a directory; a
  component of more than 255 characters ends the walk with \<open>ERR_NAME_TOO_LONG\<close>.
\<close>

theorem vfs_lookup_walks:
  assumes "root_vn s = Some root" "path \<noteq> []"
  shows "vfs_lookup tbl (Some path) (Some out) s =
    (case walk tbl (components path) root s of
       (r, cur, s') \<Rightarrow>
         if r \<noteq> err ERR_SUCCESS then (r, Some None, s')
         else if last path = slash \<and> map_option vtype (Option.bind cur (vnodes s')) \<noteq> Some VNODE_TYPE_DIR
         then (err ERR_NOT_DIRECTORY, Some None, s')
         else (err ERR_SUCCESS, Some cur, s'))"
  using assms
  by (auto simp: vfs_lookup_def lookup_loop_walk ends_with_slash_def split: prod.split option.split)

text \<open>
  The parent of a path is found by the same walk along all components but the last, which
  becomes the leaf name. \<open>.\<close>, \<open>..\<close>, an empty path and a path of slashes have no parent.
\<close>

theorem vfs_parent_walks:
  assumes "root_vn s = Some root" "path \<noteq> []"
  shows "vfs_resolve_parent_path tbl (Some path) s =
    (if components path = [] then (err ERR_INVALID_ARGUMENT, None, s)
     else (case walk tbl (butlast (components path)) root s of
         (r, d, s') \<Rightarrow>
           if r \<noteq> err ERR_SUCCESS then (r, None, s') else take_leaf (last (components path)) (the d) s'))"
proof (cases "components path = []")
  case True
  then have "vfs_next_component path = (err ERR_SUCCESS, [], [], False, False)"
    using vfs_next_component_spec [of path] by simp
  with True show ?thesis using assms by (simp add: vfs_resolve_parent_path_def parent_loop.simps)
next
  case False
  then show ?thesis
    using assms parent_loop_walk [OF False] by (simp add: vfs_resolve_parent_path_def)
qed

text \<open>A file system without any operation, whose root is a directory.\<close>

definition bare_root :: kfs where
  "bare_root = \<lparr>vnodes = [0 \<mapsto> \<lparr>vtype = VNODE_TYPE_DIR, refcnt = 1, vmount = None, vops = None, vdata = None, vexec = None\<rparr>],
     files = Map.empty, root_vn = Some 0, next_id = 1, alloc_ok = (\<lambda>_. True), alloc_no = 0, fill = (\<lambda>_. 0)\<rparr>"

theorem vfs_lookup_walks_witness:
  "vfs_lookup (\<lambda>_. no_ops) (Some ''///'') (Some None) bare_root = (0, Some (Some 0), bare_root)
   \<and> vfs_lookup (\<lambda>_. no_ops) (Some ''/a/b'') (Some None) bare_root = (-3, Some None, bare_root)"
  using vfs_lookup_walks [of bare_root 0 "''///''" "\<lambda>_. no_ops" None]
    vfs_lookup_walks [of bare_root 0 "''/a/b''" "\<lambda>_. no_ops" None]
  by (simp add: bare_root_def components_def VFS_NAME_MAX_def vfs_lookup_component_def vop_def)

theorem vfs_parent_walks_witness:
  "fst (snd (vfs_resolve_parent_path (\<lambda>_. no_ops) (Some ''//init'') bare_root)) = Some (0, ''init'')
   \<and> fst (vfs_resolve_parent_path (\<lambda>_. no_ops) (Some ''/..'') bare_root) = -2"
  using vfs_parent_walks [of bare_root 0 "''//init''" "\<lambda>_. no_ops"]
    vfs_parent_walks [of bare_root 0 "''/..''" "\<lambda>_. no_ops"]
  by (simp add: bare_root_def components_def VFS_NAME_MAX_def take_leaf_def kmalloc_def)

end
