(* ===== verification/Vfs.thy ===== *)
theory Vfs
  imports Vfs_Path
begin

text \<open>
  The file-system calls of \<^verbatim>\<open>src/kernel/fs/vfs/vfs.c\<close> over an arbitrary table of vnode
  operations. Freeing the leaf name that path resolution allocated has no effect on the modelled
  state. \<open>vfs_exec\<close> takes the program loader and the callbacks as arguments.
\<close>

section \<open>Registered file system types\<close>

text \<open>
  The list \<open>g_fs_types\<close> as the list of its entries, each with its name (\<open>None\<close> for \<open>NULL\<close>).
\<close>

definition find_fs_type :: "(string \<times> 't) list \<Rightarrow> string option \<Rightarrow> 't option" where
  "find_fs_type types name =
     (case name of None \<Rightarrow> None | Some n \<Rightarrow> map_option snd (find (\<lambda>t. fst t = n) types))"

definition vfs_register_fs :: "(string option \<times> 't) option \<Rightarrow> (string \<times> 't) list \<Rightarrow> int \<times> (string \<times> 't) list" where
  "vfs_register_fs fst_arg types =
     (case fst_arg of
        Some (Some name, t) \<Rightarrow>
          if name = [] then (err ERR_INVALID_ARGUMENT, types)
          else if find (\<lambda>r. fst r = name) types \<noteq> None then (err ERR_ALREADY_EXISTS, types)
          else (err ERR_SUCCESS, types @ [(name, t)])
      | _ \<Rightarrow> (err ERR_INVALID_ARGUMENT, types))"

section \<open>Calls\<close>

definition VFS_O_RDONLY :: u32 where "VFS_O_RDONLY = 1"
definition VFS_O_WRONLY :: u32 where "VFS_O_WRONLY = 2"
definition VFS_O_CREATE :: u32 where "VFS_O_CREATE = 4"

definition vfs_set_root :: "vid option \<Rightarrow> 'z kfs_scheme \<Rightarrow> int \<times> 'z kfs_scheme" where
  "vfs_set_root r s = (err ERR_SUCCESS, s\<lparr>root_vn := r\<rparr>)"

definition vfs_get_root :: "'z kfs_scheme \<Rightarrow> vid option" where
  "vfs_get_root s = root_vn s"

definition vfs_chroot :: "vid option \<Rightarrow> 'z kfs_scheme \<Rightarrow> int \<times> 'z kfs_scheme" where
  "vfs_chroot r s = (if r = None then (err ERR_INVALID_ARGUMENT, s) else vfs_set_root r s)"

text \<open>
  The slot of the parent's operations that a call needs: \<open>None\<close> if the parent is not a vnode,
  has no table or the slot is empty.
\<close>

definition parent_op :: "(nat \<Rightarrow> 'z kfs_scheme vnode_ops) \<Rightarrow> ('z kfs_scheme vnode_ops \<Rightarrow> 'f option) \<Rightarrow> vid
    \<Rightarrow> 'z kfs_scheme \<Rightarrow> 'f option" where
  "parent_op tbl sel p s = Option.bind (vnodes s p) (vop tbl sel)"

definition is_dir :: "vid \<Rightarrow> 'z kfs_scheme \<Rightarrow> bool" where
  "is_dir v s \<longleftrightarrow> map_option vtype (vnodes s v) = Some VNODE_TYPE_DIR"

text \<open>The end of \<open>vfs_open\<close>: the file object for a vnode.\<close>

definition make_file :: "u32 \<Rightarrow> vid \<Rightarrow> 'z kfs_scheme \<Rightarrow> fid option \<times> 'z kfs_scheme" where
  "make_file fl v s =
     (case kmalloc s of
        (None, s) \<Rightarrow> (None, s)
      | (Some f, s) \<Rightarrow>
          let s = vnode_ref (Some v) s
          in (Some f, s\<lparr>files := (files s)(f \<mapsto>
                \<lparr>fvn = Some v, offset = 0, flags = fl, fgeneric = True, refcount = 1\<rparr>)\<rparr>))"

text \<open>The first part of \<open>vfs_open\<close>: the vnode of the path, created if it is missing and \<open>VFS_O_CREATE\<close> is given.\<close>

definition find_or_create :: "(nat \<Rightarrow> 'z kfs_scheme vnode_ops) \<Rightarrow> string option \<Rightarrow> u32 \<Rightarrow> 'z kfs_scheme
    \<Rightarrow> int \<times> vid option \<times> 'z kfs_scheme" where
  "find_or_create tbl path fl s =
     (case vfs_lookup tbl path (Some None) s of
        (result, vn, s) \<Rightarrow>
          if result = err ERR_NOT_FOUND \<and> fl AND VFS_O_CREATE \<noteq> 0 then
            (if ends_with_slash (the path) then (err ERR_NOT_DIRECTORY, None, s)
             else (case vfs_resolve_parent_path tbl path s of
                 (r, res, s) \<Rightarrow>
                   if r \<noteq> err ERR_SUCCESS then (r, None, s)
                   else (case res of
                       None \<Rightarrow> (err ERR_NOT_SUPPORTED, None, s)
                     | Some (parent, leaf) \<Rightarrow>
                         (case parent_op tbl op_create parent s of
                            None \<Rightarrow> (err ERR_NOT_SUPPORTED, None, s)
                          | Some create \<Rightarrow> create parent leaf VNODE_TYPE_FILE s))))
          else (result, Option.bind vn id, s))"

definition vfs_open :: "(nat \<Rightarrow> 'z kfs_scheme vnode_ops) \<Rightarrow> string option \<Rightarrow> u32 \<Rightarrow> fid option option \<Rightarrow> 'z kfs_scheme
    \<Rightarrow> int \<times> fid option option \<times> 'z kfs_scheme" where
  "vfs_open tbl path fl out s =
     (if path = None \<or> out = None then (err ERR_INVALID_ARGUMENT, out, s)
      else (case find_or_create tbl path fl s of
          (result, vn, s) \<Rightarrow>
            if result \<noteq> err ERR_SUCCESS then (result, Some None, s)
            else (case vn of
                None \<Rightarrow> (err ERR_INTERNAL, Some None, s)
              | Some v \<Rightarrow>
                  (case make_file fl v s of
                     (None, s) \<Rightarrow> (err ERR_OUT_OF_MEMORY, Some None, s)
                   | (Some f, s) \<Rightarrow> (err ERR_SUCCESS, Some (Some f), s)))))"

definition vfs_open_vnode :: "vid option \<Rightarrow> 'z kfs_scheme \<Rightarrow> fid option \<times> 'z kfs_scheme" where
  "vfs_open_vnode vp s = (case vp of None \<Rightarrow> (None, s) | Some v \<Rightarrow> make_file 0 v s)"

definition vfs_stat_path :: "(nat \<Rightarrow> 'z kfs_scheme vnode_ops) \<Rightarrow> string option \<Rightarrow> vfs_stat option \<Rightarrow> 'z kfs_scheme
    \<Rightarrow> int \<times> vfs_stat option \<times> 'z kfs_scheme" where
  "vfs_stat_path tbl path st s =
     (if path = None \<or> st = None then (err ERR_INVALID_ARGUMENT, st, s)
      else (case vfs_lookup tbl path (Some None) s of
          (r, vn, s) \<Rightarrow>
            if r \<noteq> err ERR_SUCCESS then (r, st, s)
            else (case Option.bind vn id of
                None \<Rightarrow> (err ERR_NOT_SUPPORTED, st, s)
              | Some v \<Rightarrow>
                  (case parent_op tbl op_getattr v s of
                     None \<Rightarrow> (err ERR_NOT_SUPPORTED, st, s)
                   | Some getattr \<Rightarrow>
                       (case getattr v s of (r, st') \<Rightarrow> (r, (case st' of None \<Rightarrow> st | Some x \<Rightarrow> Some x), s))))))"

definition vfs_mkdir :: "(nat \<Rightarrow> 'z kfs_scheme vnode_ops) \<Rightarrow> string option \<Rightarrow> 'z kfs_scheme \<Rightarrow> int \<times> 'z kfs_scheme" where
  "vfs_mkdir tbl path s =
     (if path = None then (err ERR_INVALID_ARGUMENT, s)
      else (case vfs_resolve_parent_path tbl path s of
          (r, res, s) \<Rightarrow>
            if r \<noteq> err ERR_SUCCESS then (r, s)
            else (case res of
                None \<Rightarrow> (err ERR_NOT_DIRECTORY, s)
              | Some (parent, leaf) \<Rightarrow>
                  if \<not> is_dir parent s then (err ERR_NOT_DIRECTORY, s)
                  else (case parent_op tbl op_create parent s of
                      None \<Rightarrow> (err ERR_NOT_SUPPORTED, s)
                    | Some create \<Rightarrow>
                        (case create parent leaf VNODE_TYPE_DIR s of
                           (r, created, s) \<Rightarrow>
                             if r = err ERR_SUCCESS \<and> created = None then (err ERR_INTERNAL, s) else (r, s))))))"

text \<open>The second part of \<open>vfs_unlink\<close>: removing the leaf from its parent.\<close>

definition unlink_leaf :: "(nat \<Rightarrow> 'z kfs_scheme vnode_ops) \<Rightarrow> string option \<Rightarrow> 'z kfs_scheme \<Rightarrow> int \<times> 'z kfs_scheme" where
  "unlink_leaf tbl path s =
     (case vfs_resolve_parent_path tbl path s of
        (r, res, s) \<Rightarrow>
          if r \<noteq> err ERR_SUCCESS then (r, s)
          else (case res of
              None \<Rightarrow> (err ERR_NOT_DIRECTORY, s)
            | Some (parent, leaf) \<Rightarrow>
                if \<not> is_dir parent s then (err ERR_NOT_DIRECTORY, s)
                else (case parent_op tbl op_unlink parent s of
                    None \<Rightarrow> (err ERR_NOT_SUPPORTED, s)
                  | Some unlink \<Rightarrow> unlink parent leaf s)))"

definition vfs_unlink :: "(nat \<Rightarrow> 'z kfs_scheme vnode_ops) \<Rightarrow> string option \<Rightarrow> 'z kfs_scheme \<Rightarrow> int \<times> 'z kfs_scheme" where
  "vfs_unlink tbl path s =
     (case path of
        None \<Rightarrow> (err ERR_INVALID_ARGUMENT, s)
      | Some p \<Rightarrow>
          if length p > 1 \<and> last p = slash then
            (case vfs_lookup tbl path (Some None) s of
               (r, target, s) \<Rightarrow>
                 if r \<noteq> err ERR_SUCCESS then (r, s)
                 else if \<not> is_dir (the (the target)) s then (err ERR_NOT_DIRECTORY, s)
                 else unlink_leaf tbl path s)
          else unlink_leaf tbl path s)"

definition vfs_create_exec :: "(nat \<Rightarrow> 'z kfs_scheme vnode_ops) \<Rightarrow> string option \<Rightarrow> nat option \<Rightarrow> 'z kfs_scheme
    \<Rightarrow> int \<times> 'z kfs_scheme" where
  "vfs_create_exec tbl path fn s =
     (if path = None \<or> fn = None then (err ERR_INVALID_ARGUMENT, s)
      else if ends_with_slash (the path) then (err ERR_NOT_DIRECTORY, s)
      else (case vfs_resolve_parent_path tbl path s of
          (r, res, s) \<Rightarrow>
            if r \<noteq> err ERR_SUCCESS then (r, s)
            else (case res of
                None \<Rightarrow> (err ERR_NOT_DIRECTORY, s)
              | Some (parent, leaf) \<Rightarrow>
                  if \<not> is_dir parent s then (err ERR_NOT_DIRECTORY, s)
                  else (case parent_op tbl op_create parent s of
                      None \<Rightarrow> (err ERR_NOT_SUPPORTED, s)
                    | Some create \<Rightarrow>
                        (case create parent leaf VNODE_TYPE_EXEC s of
                           (r, node, s) \<Rightarrow>
                             if r \<noteq> err ERR_SUCCESS then (r, s)
                             else (case node of
                                 None \<Rightarrow> (err ERR_INTERNAL, s)
                               | Some v \<Rightarrow>
                                   (r, s\<lparr>vnodes := (vnodes s)(v := map_option (\<lambda>x. x\<lparr>vexec := fn\<rparr>) (vnodes s v))\<rparr>)))))))"

definition vfs_exec :: "(vid \<Rightarrow> 'z kfs_scheme \<Rightarrow> int \<times> 'z kfs_scheme) \<Rightarrow> (nat \<Rightarrow> 'z kfs_scheme \<Rightarrow> 'z kfs_scheme)
    \<Rightarrow> (nat \<Rightarrow> 'z kfs_scheme vnode_ops) \<Rightarrow> string option \<Rightarrow> 'z kfs_scheme \<Rightarrow> int \<times> 'z kfs_scheme" where
  "vfs_exec exec_elf_vnode callback tbl path s =
     (case vfs_lookup tbl path (Some None) s of
        (r, vn, s) \<Rightarrow>
          if r \<noteq> err ERR_SUCCESS then (r, s)
          else
            let v = the (the vn) in
            (case vnodes s v of
               Some x \<Rightarrow>
                 (case vexec x of
                    Some fn \<Rightarrow>
                      if vtype x = VNODE_TYPE_EXEC then (err ERR_SUCCESS, callback fn s) else exec_elf_vnode v s
                  | None \<Rightarrow> exec_elf_vnode v s)
             | None \<Rightarrow> exec_elf_vnode v s))"

end
