(* ===== verification/Fd.thy ===== *)
theory Fd
  imports Vfs
begin

text \<open>
  File descriptor tables: \<^verbatim>\<open>src/kernel/fs/vfs/fd.c\<close>. The invariant relates the reference count of every
  open file to the descriptors that name it; it is proved against a contract of the file system
  below: destroying a vnode does not touch the open files.
\<close>

section \<open>Model\<close>

definition FD_MAX :: nat where
  "FD_MAX = 256"

record fd_entry =
  fd_file :: "fid option"
  fd_used :: bool

record fd_table =
  entries :: "fd_entry list"

definition set_fd :: "nat \<Rightarrow> fid option \<Rightarrow> bool \<Rightarrow> fd_table \<Rightarrow> fd_table" where
  "set_fd i f u t = t\<lparr>entries := (entries t)[i := \<lparr>fd_file = f, fd_used = u\<rparr>]\<rparr>"

definition fd_table_init :: "fd_table option \<Rightarrow> fd_table option" where
  "fd_table_init tp = map_option (\<lambda>t. t\<lparr>entries := replicate FD_MAX \<lparr>fd_file = None, fd_used = False\<rparr>\<rparr>) tp"

definition fd_find_free :: "fd_table \<Rightarrow> int" where
  "fd_find_free t =
     (case find (\<lambda>i. \<not> fd_used (entries t ! i)) [3..<FD_MAX] of
        Some i \<Rightarrow> int i
      | None \<Rightarrow> err ERR_TOO_MANY_OPEN_FILES)"

definition fd_alloc :: "fd_table option \<Rightarrow> fid option \<Rightarrow> 'z kfs_scheme \<Rightarrow> int \<times> fd_table option \<times> 'z kfs_scheme" where
  "fd_alloc tp fp s =
     (case (tp, fp) of
        (Some t, Some f) \<Rightarrow>
          let fd = fd_find_free t in
          if fd < 0 then (fd, tp, s)
          else (fd, Some (set_fd (nat fd) fp True t), file_ref fp s)
      | _ \<Rightarrow> (err ERR_INVALID_ARGUMENT, tp, s))"

definition fd_install_take :: "fd_table option \<Rightarrow> fid option \<Rightarrow> int \<times> fd_table option" where
  "fd_install_take tp fp =
     (case (tp, fp) of
        (Some t, Some f) \<Rightarrow>
          let fd = fd_find_free t in
          if fd < 0 then (fd, tp) else (fd, Some (set_fd (nat fd) fp True t))
      | _ \<Rightarrow> (err ERR_INVALID_ARGUMENT, tp))"

definition fd_valid :: "fd_table \<Rightarrow> int \<Rightarrow> bool" where
  "fd_valid t fd \<longleftrightarrow> \<not> (fd < 0 \<or> fd \<ge> int FD_MAX) \<and> fd_used (entries t ! nat fd)"

definition fd_get :: "fd_table option \<Rightarrow> int \<Rightarrow> fid option" where
  "fd_get tp fd =
     (case tp of
        None \<Rightarrow> None
      | Some t \<Rightarrow> if \<not> fd_valid t fd then None else fd_file (entries t ! nat fd))"

definition fd_close :: "(nat \<Rightarrow> 'z kfs_scheme vnode_ops) \<Rightarrow> fd_table option \<Rightarrow> int \<Rightarrow> 'z kfs_scheme
    \<Rightarrow> int \<times> fd_table option \<times> 'z kfs_scheme" where
  "fd_close tbl tp fd s =
     (case tp of
        None \<Rightarrow> (err ERR_BAD_FILE_DESCRIPTOR, tp, s)
      | Some t \<Rightarrow>
          if \<not> fd_valid t fd then (err ERR_BAD_FILE_DESCRIPTOR, tp, s)
          else
            let f = fd_file (entries t ! nat fd) in
            (err ERR_SUCCESS, Some (set_fd (nat fd) None False t), file_unref tbl f s))"

definition fd_alloc_at :: "(nat \<Rightarrow> 'z kfs_scheme vnode_ops) \<Rightarrow> fd_table option \<Rightarrow> int \<Rightarrow> fid option \<Rightarrow> 'z kfs_scheme
    \<Rightarrow> int \<times> fd_table option \<times> 'z kfs_scheme" where
  "fd_alloc_at tbl tp want_fd fp s =
     (case (tp, fp) of
        (Some t, Some f) \<Rightarrow>
          if want_fd < 0 \<or> want_fd \<ge> int FD_MAX then (err ERR_INVALID_ARGUMENT, tp, s)
          else if fd_used (entries t ! nat want_fd) \<and> fd_file (entries t ! nat want_fd) = fp then (want_fd, tp, s)
          else
            let (result, tp, s) =
                  (if fd_used (entries t ! nat want_fd) then fd_close tbl tp want_fd s else (err ERR_SUCCESS, tp, s))
            in if result \<noteq> err ERR_SUCCESS then (result, tp, s)
               else (want_fd, map_option (set_fd (nat want_fd) fp True) tp, file_ref fp s)
      | _ \<Rightarrow> (err ERR_INVALID_ARGUMENT, tp, s))"

definition fd_dup :: "fd_table option \<Rightarrow> int \<Rightarrow> 'z kfs_scheme \<Rightarrow> int \<times> fd_table option \<times> 'z kfs_scheme" where
  "fd_dup tp oldfd s =
     (if tp = None then (err ERR_INVALID_ARGUMENT, tp, s)
      else (case fd_get tp oldfd of
          None \<Rightarrow> (err ERR_BAD_FILE_DESCRIPTOR, tp, s)
        | Some f \<Rightarrow> fd_alloc tp (Some f) s))"

definition fd_dup2 :: "(nat \<Rightarrow> 'z kfs_scheme vnode_ops) \<Rightarrow> fd_table option \<Rightarrow> int \<Rightarrow> int \<Rightarrow> 'z kfs_scheme
    \<Rightarrow> int \<times> fd_table option \<times> 'z kfs_scheme" where
  "fd_dup2 tbl tp oldfd newfd s =
     (if tp = None \<or> newfd < 0 \<or> newfd \<ge> int FD_MAX then (err ERR_INVALID_ARGUMENT, tp, s)
      else (case fd_get tp oldfd of
          None \<Rightarrow> (err ERR_BAD_FILE_DESCRIPTOR, tp, s)
        | Some f \<Rightarrow> if oldfd = newfd then (newfd, tp, s) else fd_alloc_at tbl tp newfd (Some f) s))"

definition fd_count :: "fd_table option \<Rightarrow> int" where
  "fd_count tp =
     (case tp of
        None \<Rightarrow> - 1
      | Some t \<Rightarrow> fold (\<lambda>i c. if fd_used (entries t ! i) then c + 1 else c) [0..<FD_MAX] 0)"

section \<open>Descriptors and reference counts\<close>

text \<open>
  The descriptors of a file and the references to it, \<open>ext\<close> counting those held outside the table. The
  invariant: a file exists exactly while it is referenced, and its count is the number of references.
\<close>

definition fds_of :: "fd_table \<Rightarrow> fid \<Rightarrow> nat set" where
  "fds_of t f = {i. i < FD_MAX \<and> fd_used (entries t ! i) \<and> fd_file (entries t ! i) = Some f}"

definition counted :: "nat \<Rightarrow> int option" where
  "counted k = (if k = 0 then None else Some (int k))"

lemma counted_Some: "counted k = Some c \<longleftrightarrow> c = int k \<and> c \<ge> 1"
  by (auto simp: counted_def)

definition fd_inv :: "fd_table \<Rightarrow> (fid \<Rightarrow> nat) \<Rightarrow> 'z kfs_scheme \<Rightarrow> bool" where
  "fd_inv t ext s \<longleftrightarrow> length (entries t) = FD_MAX \<and>
     (\<forall>i < FD_MAX. fd_used (entries t ! i) \<longleftrightarrow> fd_file (entries t ! i) \<noteq> None) \<and>
     (\<forall>f. map_option refcount (files s f) = counted (card (fds_of t f) + ext f))"

lemma finite_fds [simp]: "finite (fds_of t f)"
  by (simp add: fds_of_def)

lemma fds_of_set:
  assumes "length (entries t) = FD_MAX" "i < FD_MAX"
  shows "fds_of (set_fd i (Some f) True t) g = (if g = f then insert i (fds_of t g) else fds_of t g - {i})"
    "fds_of (set_fd i None False t) g = fds_of t g - {i}"
  using assms by (auto simp: fds_of_def set_fd_def nth_list_update)

lemma find_free_cases:
  obtains i where "fd_find_free t = int i" "3 \<le> i" "i < FD_MAX" "\<not> fd_used (entries t ! i)"
    "\<forall>j. 3 \<le> j \<longrightarrow> j < i \<longrightarrow> fd_used (entries t ! j)"
  | "fd_find_free t = err ERR_TOO_MANY_OPEN_FILES" "\<forall>j. 3 \<le> j \<longrightarrow> j < FD_MAX \<longrightarrow> fd_used (entries t ! j)"
proof (cases "find (\<lambda>i. \<not> fd_used (entries t ! i)) [3..<FD_MAX]")
  case None
  then have "fd_find_free t = err ERR_TOO_MANY_OPEN_FILES"
    by (simp add: fd_find_free_def)
  then show ?thesis
    using that(2) None by (auto simp: find_None_iff)
next
  case (Some i)
  then have "fd_find_free t = int i"
    by (simp add: fd_find_free_def)
  then show ?thesis
    using that(1) Some by (auto simp: find_range_Some_iff)
qed

lemma fd_invD:
  assumes "fd_inv t ext s"
  shows "length (entries t) = FD_MAX" "i < FD_MAX \<Longrightarrow> fd_used (entries t ! i) \<longleftrightarrow> fd_file (entries t ! i) \<noteq> None"
    "map_option refcount (files s f) = counted (card (fds_of t f) + ext f)"
  using assms by (auto simp: fd_inv_def)

lemma fd_inv_count:
  assumes "fd_inv t ext s" "files s f = Some fl"
  shows "refcount fl = int (card (fds_of t f) + ext f)" "refcount fl \<ge> 1"
proof -
  have "counted (card (fds_of t f) + ext f) = Some (refcount fl)"
    using fd_invD(3) [OF assms(1), of f] assms(2) by simp
  then show "refcount fl = int (card (fds_of t f) + ext f)" "refcount fl \<ge> 1"
    unfolding counted_Some by blast+
qed

lemma fd_get_Some:
  "fd_get (Some t) fd = Some f \<Longrightarrow>
    0 \<le> fd \<and> nat fd < FD_MAX \<and> fd_used (entries t ! nat fd) \<and> fd_file (entries t ! nat fd) = Some f"
  by (auto simp: fd_get_def fd_valid_def nat_less_iff split: if_splits)

lemma live_iff:
  assumes "fd_inv t ext s"
  shows "files s f = None \<longleftrightarrow> card (fds_of t f) + ext f = 0"
  using fd_invD(3) [OF assms, of f] by (metis counted_def map_option_is_None option.distinct(1))

lemma slot_wf:
  assumes "fd_inv t ext s" "j < FD_MAX" "u \<longleftrightarrow> f \<noteq> None"
  shows "fd_used (entries (set_fd i f u t) ! j) \<longleftrightarrow> fd_file (entries (set_fd i f u t) ! j) \<noteq> None"
  using fd_invD(1) [OF assms(1)] fd_invD(2) [OF assms(1,2)] assms(2,3) by (cases "i = j") (simp_all add: set_fd_def)

lemma length_set_fd [simp]: "length (entries (set_fd i f u t)) = length (entries t)"
  by (simp add: set_fd_def)

text \<open>
  The steps of a process on its descriptor table: the calls of the table with files the process
  holds, opening a new file and dropping a reference held outside the table. The ghost component \<open>ext\<close> follows
  who owns which reference; \<open>fd_install_take\<close> moves one into the table.
\<close>

type_synonym 'z fd_state = "fd_table \<times> (fid \<Rightarrow> nat) \<times> 'z kfs_scheme"

inductive fd_step :: "(nat \<Rightarrow> 'z kfs_scheme vnode_ops) \<Rightarrow> 'z fd_state \<Rightarrow> 'z fd_state \<Rightarrow> bool"
  for tbl :: "nat \<Rightarrow> 'z kfs_scheme vnode_ops" where
  step_alloc: "ext f > 0 \<Longrightarrow> fd_alloc (Some t) (Some f) s = (r, Some t', s') \<Longrightarrow> fd_step tbl (t, ext, s) (t', ext, s')"
| step_alloc_at: "ext f > 0 \<Longrightarrow> fd_alloc_at tbl (Some t) fd (Some f) s = (r, Some t', s') \<Longrightarrow>
    fd_step tbl (t, ext, s) (t', ext, s')"
| step_install: "ext f > 0 \<Longrightarrow> fd_install_take (Some t) (Some f) = (r, Some t') \<Longrightarrow>
    fd_step tbl (t, ext, s) (t', if r < 0 then ext else ext(f := ext f - 1), s)"
| step_close: "fd_close tbl (Some t) fd s = (r, Some t', s') \<Longrightarrow> fd_step tbl (t, ext, s) (t', ext, s')"
| step_dup: "fd_dup (Some t) fd s = (r, Some t', s') \<Longrightarrow> fd_step tbl (t, ext, s) (t', ext, s')"
| step_dup2: "fd_dup2 tbl (Some t) fd fd' s = (r, Some t', s') \<Longrightarrow> fd_step tbl (t, ext, s) (t', ext, s')"
| step_open: "files s f = None \<Longrightarrow> files s' = (files s)(f \<mapsto> fl) \<Longrightarrow> refcount fl = 1 \<Longrightarrow>
    fd_step tbl (t, ext, s) (t, ext(f := 1), s')"
| step_drop: "ext f > 0 \<Longrightarrow> fd_step tbl (t, ext, s) (t, ext(f := ext f - 1), file_unref tbl (Some f) s)"

definition fd_ok :: "'z fd_state \<Rightarrow> bool" where
  "fd_ok x = (case x of (t, ext, s) \<Rightarrow> fd_inv t ext s)"

text \<open>The contract of the file system below the open files.\<close>

locale file_keeper =
  fixes tbl :: "nat \<Rightarrow> 'z kfs_scheme vnode_ops"
  assumes destroy_files: "op_destroy (tbl t) = Some destroy \<Longrightarrow> files (destroy v s) = files s"
begin

lemma unref_vnode_files: "files (vnode_unref tbl vp s) = files s"
  by (auto simp: vnode_unref_def Let_def vop_def destroy_files split: option.split)

text \<open>Dropping a reference removes the file exactly when it was the last one.\<close>

lemma unref_files:
  assumes "files s f = Some fl" "refcount fl \<ge> 1"
  shows "files (file_unref tbl (Some f) s) =
    (files s)(f := if refcount fl = 1 then None else Some (fl\<lparr>refcount := refcount fl - 1\<rparr>))"
  using assms by (auto simp: file_unref_def vfs_close_def Let_def upd_file_def unref_vnode_files)

lemma unref_counted:
  assumes "map_option refcount (files s f) = counted (Suc k)"
  shows "map_option refcount (files (file_unref tbl (Some f) s) g) =
    (if g = f then counted k else map_option refcount (files s g))"
proof -
  obtain fl where fl: "files s f = Some fl" "refcount fl = int k + 1"
    using assms by (auto simp: counted_def)
  then show ?thesis
    using unref_files [OF fl(1)] by (simp add: counted_def)
qed

lemma ref_files:
  "files s f = Some fl \<Longrightarrow> files (file_ref (Some f) s) = (files s)(f \<mapsto> fl\<lparr>refcount := refcount fl + 1\<rparr>)"
  by (simp add: file_ref_def upd_file_def)

lemma alloc_inv:
  assumes "fd_inv t ext s" "files s f \<noteq> None" "i < FD_MAX" "\<not> fd_used (entries t ! i)"
  shows "fd_inv (set_fd i (Some f) True t) ext (file_ref (Some f) s)"
proof -
  obtain fl where fl: "files s f = Some fl"
    using assms(2) by auto
  have "i \<notin> fds_of t g" for g
    using assms(4) by (simp add: fds_of_def)
  then have "map_option refcount (files (file_ref (Some f) s) g)
      = counted (card (fds_of (set_fd i (Some f) True t) g) + ext g)" for g
    using fds_of_set(1) [OF fd_invD(1) [OF assms(1)] assms(3), of f g] fd_invD(3) [OF assms(1), of g] fl
    by (auto simp: ref_files [OF fl] counted_def split: if_splits)
  then show ?thesis
    using fd_invD(1) [OF assms(1)] slot_wf [OF assms(1), of _ True "Some f"] by (simp add: fd_inv_def)
qed

lemma install_inv:
  assumes "fd_inv t ext s" "ext f > 0" "i < FD_MAX" "\<not> fd_used (entries t ! i)"
  shows "fd_inv (set_fd i (Some f) True t) (ext(f := ext f - 1)) s"
proof -
  have "i \<notin> fds_of t g" for g
    using assms(4) by (simp add: fds_of_def)
  then have "map_option refcount (files s g)
      = counted (card (fds_of (set_fd i (Some f) True t) g) + (ext(f := ext f - 1)) g)" for g
    using fds_of_set(1) [OF fd_invD(1) [OF assms(1)] assms(3), of f g] fd_invD(3) [OF assms(1), of g] assms(2)
    by (auto simp: counted_def split: if_splits)
  then show ?thesis
    using fd_invD(1) [OF assms(1)] slot_wf [OF assms(1), of _ True "Some f"] by (simp add: fd_inv_def)
qed

lemma close_inv:
  assumes "fd_inv t ext s" "i < FD_MAX" "fd_used (entries t ! i)"
  shows "fd_inv (set_fd i None False t) ext (file_unref tbl (fd_file (entries t ! i)) s)"
proof -
  obtain f where f: "fd_file (entries t ! i) = Some f"
    using fd_invD(2) [OF assms(1,2)] assms(3) by auto
  then have i: "i \<in> fds_of t f" "\<And>g. g \<noteq> f \<Longrightarrow> i \<notin> fds_of t g"
    using assms(2,3) by (auto simp: fds_of_def)
  then have c: "card (fds_of t f) = Suc (card (fds_of t f - {i}))"
    by (intro card.remove) auto
  have "map_option refcount (files (file_unref tbl (Some f) s) g)
      = counted (card (fds_of (set_fd i None False t) g) + ext g)" for g
    using unref_counted [of s f "card (fds_of t f - {i}) + ext f" g] c i(2) [of g] fd_invD(3) [OF assms(1), of f]
      fd_invD(3) [OF assms(1), of g] fds_of_set(2) [OF fd_invD(1) [OF assms(1)] assms(2), of g]
    by (auto simp del: card_0_eq)
  then show ?thesis
    using fd_invD(1) [OF assms(1)] slot_wf [OF assms(1), of _ False None] f by (simp add: fd_inv_def)
qed

lemma referenced:
  assumes "fd_inv t ext s" "ext f > 0 \<or> (i < FD_MAX \<and> fd_used (entries t ! i) \<and> fd_file (entries t ! i) = Some f)"
  shows "files s f \<noteq> None"
proof -
  have "card (fds_of t f) + ext f \<noteq> 0"
    using assms(2) by (auto simp: fds_of_def)
  then show ?thesis
    using live_iff [OF assms(1), of f] by simp
qed

lemma fd_alloc_inv:
  assumes "fd_inv t ext s" "files s f \<noteq> None" "fd_alloc (Some t) (Some f) s = (r, Some t', s')"
  shows "fd_inv t' ext s'"
proof (cases t rule: find_free_cases)
  case (1 i)
  then show ?thesis
    using assms alloc_inv [OF assms(1,2) 1(3,4)] by (auto simp: fd_alloc_def)
next
  case 2
  then show ?thesis
    using assms by (auto simp: fd_alloc_def)
qed

lemma fd_install_inv:
  assumes "fd_inv t ext s" "ext f > 0" "fd_install_take (Some t) (Some f) = (r, Some t')"
  shows "fd_inv t' (if r < 0 then ext else ext(f := ext f - 1)) s"
proof (cases t rule: find_free_cases)
  case (1 i)
  then show ?thesis
    using assms install_inv [OF assms(1,2) 1(3,4)] by (auto simp: fd_install_take_def)
next
  case 2
  then show ?thesis
    using assms by (auto simp: fd_install_take_def)
qed

lemma fd_close_inv:
  assumes "fd_inv t ext s" "fd_close tbl (Some t) fd s = (r, Some t', s')"
  shows "fd_inv t' ext s'"
  using assms close_inv [OF assms(1), of "nat fd"] by (auto simp: fd_close_def fd_valid_def Let_def split: if_splits)

lemma fd_alloc_at_inv:
  assumes "fd_inv t ext s" "files s f \<noteq> None" "card (fds_of t f - {nat fd}) + ext f > 0"
    "fd_alloc_at tbl (Some t) fd (Some f) s = (r, Some t', s')"
  shows "fd_inv t' ext s'"
proof (cases "fd < 0 \<or> fd \<ge> int FD_MAX \<or> \<not> fd_used (entries t ! nat fd) \<or> fd_file (entries t ! nat fd) = Some f")
  case True
  then show ?thesis
    using assms alloc_inv [OF assms(1,2), of "nat fd"] by (auto simp: fd_alloc_at_def split: if_splits)
next
  case False
  let ?i = "nat fd"
  define t1 where "t1 = set_fd ?i None False t"
  define s1 where "s1 = file_unref tbl (fd_file (entries t ! ?i)) s"
  have i: "?i < FD_MAX"
    using False by auto
  have inv: "fd_inv t1 ext s1"
    using close_inv [OF assms(1) i] False by (simp add: t1_def s1_def)
  have free: "\<not> fd_used (entries t1 ! ?i)"
    using i fd_invD(1) [OF assms(1)] by (simp add: t1_def set_fd_def)
  have "files s1 f \<noteq> None"
    using live_iff [OF inv, of f] assms(3) fds_of_set(2) [OF fd_invD(1) [OF assms(1)] i, of f]
    by (simp add: t1_def del: card_0_eq)
  from alloc_inv [OF inv this i free] show ?thesis
    using assms(4) False
    by (auto simp: fd_alloc_at_def fd_close_def fd_valid_def Let_def t1_def s1_def)
qed

lemma fd_dup_inv:
  assumes "fd_inv t ext s" "fd_dup (Some t) fd s = (r, Some t', s')"
  shows "fd_inv t' ext s'"
proof (cases "fd_get (Some t) fd")
  case None
  then show ?thesis
    using assms by (auto simp: fd_dup_def)
next
  case (Some f)
  then have "files s f \<noteq> None"
    using referenced [OF assms(1), of f "nat fd"] fd_get_Some [OF Some] by simp
  then show ?thesis
    using fd_alloc_inv [OF assms(1)] assms(2) Some by (simp add: fd_dup_def)
qed

lemma fd_dup2_inv:
  assumes "fd_inv t ext s" "fd_dup2 tbl (Some t) fd fd' s = (r, Some t', s')"
  shows "fd_inv t' ext s'"
proof (cases "fd' < 0 \<or> fd' \<ge> int FD_MAX \<or> fd = fd' \<or> fd_get (Some t) fd = None")
  case True
  then show ?thesis
    using assms by (auto simp: fd_dup2_def split: option.splits if_splits)
next
  case False
  then obtain f where f: "fd_get (Some t) fd = Some f"
    by auto
  have fd: "0 \<le> fd" "nat fd < FD_MAX" "fd_used (entries t ! nat fd)" "fd_file (entries t ! nat fd) = Some f"
    using fd_get_Some [OF f] by simp_all
  then have "nat fd \<in> fds_of t f - {nat fd'}"
    using False by (auto simp: fds_of_def)
  then have "card (fds_of t f - {nat fd'}) > 0"
    by (intro card_gt_0_iff [THEN iffD2]) auto
  moreover have "fd_alloc_at tbl (Some t) fd' (Some f) s = (r, Some t', s')"
    using assms(2) False f by (auto simp: fd_dup2_def)
  ultimately show ?thesis
    using fd_alloc_at_inv [OF assms(1) referenced [OF assms(1), of f "nat fd"], of fd'] fd by simp
qed

lemma drop_inv:
  assumes "fd_inv t ext s" "ext f > 0"
  shows "fd_inv t (ext(f := ext f - 1)) (file_unref tbl (Some f) s)"
proof -
  have "map_option refcount (files (file_unref tbl (Some f) s) g)
      = counted (card (fds_of t g) + (ext(f := ext f - 1)) g)" for g
    using unref_counted [of s f "card (fds_of t f) + (ext f - 1)" g] assms(2) fd_invD(3) [OF assms(1), of f]
      fd_invD(3) [OF assms(1), of g] by auto
  then show ?thesis
    using assms(1) by (simp add: fd_inv_def)
qed

lemma fd_step_inv:
  "fd_step tbl x y \<Longrightarrow> fd_ok x \<Longrightarrow> fd_ok y"
proof (induction rule: fd_step.induct)
  case (step_alloc ext f t s r t' s')
  then show ?case
    using fd_alloc_inv [of t ext s f r t' s'] referenced [of t ext s f] by (simp add: fd_ok_def)
next
  case (step_alloc_at ext f t fd s r t' s')
  then show ?case
    using fd_alloc_at_inv [of t ext s f fd r t' s'] referenced [of t ext s f] by (simp add: fd_ok_def)
next
  case (step_install ext f t r t' s)
  then show ?case
    using fd_install_inv [of t ext s f r t'] by (simp add: fd_ok_def)
next
  case (step_close t fd s r t' s' ext)
  then show ?case
    using fd_close_inv [of t ext s fd r t' s'] by (simp add: fd_ok_def)
next
  case (step_dup t fd s r t' s' ext)
  then show ?case
    using fd_dup_inv [of t ext s fd r t' s'] by (simp add: fd_ok_def)
next
  case (step_dup2 t fd fd' s r t' s' ext)
  then show ?case
    using fd_dup2_inv [of t ext s fd fd' r t' s'] by (simp add: fd_ok_def)
next
  case (step_open s f s' fl t ext)
  then have "card (fds_of t f) + ext f = 0"
    using live_iff [of t ext s f] by (simp add: fd_ok_def del: card_0_eq)
  then have "map_option refcount (files s' g) = counted (card (fds_of t g) + (ext(f := 1)) g)" for g
    using step_open(2-4) fd_invD(3) [of t ext s g] by (cases "g = f") (simp_all add: fd_ok_def counted_def)
  then show ?case
    using step_open(4) by (simp add: fd_ok_def fd_inv_def)
next
  case (step_drop ext f t s)
  then show ?case
    using drop_inv by (simp add: fd_ok_def)
qed

lemma fd_steps_inv: "(fd_step tbl)\<^sup>*\<^sup>* x y \<Longrightarrow> fd_ok x \<Longrightarrow> fd_ok y"
  by (induction rule: rtranclp_induct) (auto intro: fd_step_inv)

end

end
