(* ===== verification/Ramfs.thy ===== *)
theory Ramfs
  imports Vfs
begin

text \<open>
  The memory file system: \<^verbatim>\<open>src/kernel/fs/ramfs/ramfs.c\<close>, \<^verbatim>\<open>file.c\<close> and \<^verbatim>\<open>dir.c\<close>. The state of the file
  system layer is extended with the store of ramfs nodes. The chain of siblings under
  \<open>children\<close> is a list of node identifiers, first child first. A pointer to a vnode or a node that is
  not in its store is treated like \<open>NULL\<close>.
\<close>

section \<open>Model\<close>

type_synonym nid = nat

text \<open>
  A device read hook returns its result and the bytes it stored, as a function of their index;
  a write hook gets the buffer and the length.
\<close>

record rnode =
  rname :: string
  rtype :: vnode_type
  vnode_cache :: "vid option"
  rparent :: "nid option"
  rchildren :: "nid list"
  rdata :: "u8 list"
  rsize :: usize
  rcapacity :: usize
  dev_read :: "(usize \<Rightarrow> int \<times> (nat \<Rightarrow> u8)) option"
  dev_write :: "(u8 list option \<Rightarrow> usize \<Rightarrow> int) option"

text \<open>\<open>rmounts\<close> holds the \<open>struct ramfs_mount\<close> objects, each with its root.\<close>

record rfs = kfs +
  rnodes :: "nid \<rightharpoonup> rnode"
  rmounts :: "nat \<rightharpoonup> nid option"

definition upd_node :: "nid \<Rightarrow> (rnode \<Rightarrow> rnode) \<Rightarrow> 'z rfs_scheme \<Rightarrow> 'z rfs_scheme" where
  "upd_node n g s = s\<lparr>rnodes := (rnodes s)(n := map_option g (rnodes s n))\<rparr>"

text \<open>The number under which \<open>ramfs_vnode_ops\<close> is known to vnodes.\<close>

definition RAMFS_OPS :: nat where
  "RAMFS_OPS = 0"

subsection \<open>ramfs.c\<close>

definition ramfs_node_create :: "string \<Rightarrow> vnode_type \<Rightarrow> 'z rfs_scheme \<Rightarrow> nid option \<times> 'z rfs_scheme" where
  "ramfs_node_create name type s =
     (case kmalloc s of
        (None, s) \<Rightarrow> (None, s)
      | (Some n, s) \<Rightarrow>
          (case kmalloc s of
             (None, s) \<Rightarrow> (None, s)
           | (Some _, s) \<Rightarrow>
               (Some n, s\<lparr>rnodes := (rnodes s)(n \<mapsto>
                  \<lparr>rname = name, rtype = type, vnode_cache = None, rparent = None, rchildren = [],
                   rdata = [], rsize = 0, rcapacity = 0, dev_read = None, dev_write = None\<rparr>)\<rparr>)))"

definition ramfs_node_vnode :: "nat option \<Rightarrow> nid \<Rightarrow> 'z rfs_scheme \<Rightarrow> vid option \<times> 'z rfs_scheme" where
  "ramfs_node_vnode mp n s =
     (case rnodes s n of
        None \<Rightarrow> (None, s)
      | Some node \<Rightarrow>
          (case vnode_cache node of
             Some v \<Rightarrow> (Some v, s)
           | None \<Rightarrow>
               (case vnode_create mp (rtype node) (Some RAMFS_OPS) (Some n) s of
                  (None, s) \<Rightarrow> (None, s)
                | (Some v, s) \<Rightarrow> (Some v, upd_node n (\<lambda>x. x\<lparr>vnode_cache := Some v\<rparr>) s))))"

definition ramfs_node_free :: "nid \<Rightarrow> 'z rfs_scheme \<Rightarrow> 'z rfs_scheme" where
  "ramfs_node_free n s = s\<lparr>rnodes := (rnodes s)(n := None)\<rparr>"

definition ramfs_destroy_vnode :: "vid \<Rightarrow> 'z rfs_scheme \<Rightarrow> 'z rfs_scheme" where
  "ramfs_destroy_vnode v s =
     (case Option.bind (vnodes s v) vdata of
        None \<Rightarrow> s
      | Some n \<Rightarrow>
          let s = upd_node n (\<lambda>x. if vnode_cache x = Some v then x\<lparr>vnode_cache := None\<rparr> else x) s;
              s = s\<lparr>vnodes := (vnodes s)(v := map_option (\<lambda>x. x\<lparr>vdata := None\<rparr>) (vnodes s v))\<rparr>
          in ramfs_node_free n s)"

text \<open>
  The vnodes of ramfs carry \<open>ramfs_vnode_ops\<close>, of which dropping a reference uses the slot \<open>destroy\<close>.
\<close>

definition ramfs_destroy_tbl :: "nat \<Rightarrow> 'z rfs_scheme vnode_ops" where
  "ramfs_destroy_tbl = (\<lambda>_. no_ops\<lparr>op_destroy := Some ramfs_destroy_vnode\<rparr>)"

definition ramfs_node_release :: "nid \<Rightarrow> 'z rfs_scheme \<Rightarrow> 'z rfs_scheme" where
  "ramfs_node_release n s =
     (case rnodes s n of
        None \<Rightarrow> s
      | Some node \<Rightarrow>
          (case vnode_cache node of
             Some v \<Rightarrow> vnode_unref ramfs_destroy_tbl (Some v) (upd_node n (\<lambda>x. x\<lparr>vnode_cache := None\<rparr>) s)
           | None \<Rightarrow> ramfs_node_free n s))"

text \<open>
  The loop over the children and the recursion into each: the next round of the loop
  is a call for the same node. On a cyclic store it would not end.
\<close>

partial_function (option) ramfs_tree_release :: "nid \<Rightarrow> 'z rfs_scheme \<Rightarrow> 'z rfs_scheme option" where
  "ramfs_tree_release n s =
     (case rnodes s n of
        None \<Rightarrow> Some s
      | Some node \<Rightarrow>
          (case rchildren node of
             [] \<Rightarrow> Some (ramfs_node_release n s)
           | c # cs \<Rightarrow>
               Option.bind
                 (ramfs_tree_release c
                   (upd_node c (\<lambda>x. x\<lparr>rparent := None\<rparr>) (upd_node n (\<lambda>x. x\<lparr>rchildren := cs\<rparr>) s)))
                 (\<lambda>s. ramfs_tree_release n s)))"

text \<open>
  \<open>mp->fs_data\<close> is an argument and a result: the private data of the mount before and after.
\<close>

definition ramfs_mount_fn :: "'z rfs_scheme \<Rightarrow> int \<times> nat option \<times> 'z rfs_scheme" where
  "ramfs_mount_fn s =
     (case kmalloc s of
        (None, s) \<Rightarrow> (err ERR_OUT_OF_MEMORY, None, s)
      | (Some rm, s) \<Rightarrow>
          (case ramfs_node_create [] VNODE_TYPE_DIR s of
             (None, s) \<Rightarrow> (err ERR_OUT_OF_MEMORY, None, s)
           | (Some n, s) \<Rightarrow>
               (err ERR_SUCCESS, Some rm, s\<lparr>rmounts := (rmounts s)(rm \<mapsto> Some n)\<rparr>)))"

definition ramfs_unmount_fn :: "nat option \<Rightarrow> 'z rfs_scheme \<Rightarrow> (int \<times> nat option \<times> 'z rfs_scheme) option" where
  "ramfs_unmount_fn data s =
     (case data of
        None \<Rightarrow> Some (err ERR_SUCCESS, None, s)
      | Some rm \<Rightarrow>
          (case Option.bind (rmounts s rm) id of
             None \<Rightarrow> Some (err ERR_SUCCESS, None, s\<lparr>rmounts := (rmounts s)(rm := None)\<rparr>)
           | Some root \<Rightarrow>
               map_option (\<lambda>s. (err ERR_SUCCESS, None, s\<lparr>rmounts := (rmounts s)(rm := None)\<rparr>))
                 (ramfs_tree_release root s)))"

definition ramfs_sync_fn :: "nat option \<Rightarrow> int" where
  "ramfs_sync_fn mp = (if mp \<noteq> None then err ERR_SUCCESS else err ERR_INVALID_ARGUMENT)"

definition ramfs_root_vnode :: "nat option \<Rightarrow> nat option \<Rightarrow> vid option option \<Rightarrow> 'z rfs_scheme
    \<Rightarrow> int \<times> vid option option \<times> 'z rfs_scheme" where
  "ramfs_root_vnode mp data out s =
     (if mp = None \<or> out = None then (err ERR_INVALID_ARGUMENT, out, s)
      else (case Option.bind (Option.bind data (rmounts s)) id of
          None \<Rightarrow> (err ERR_INVALID_ARGUMENT, out, s)
        | Some root \<Rightarrow>
            (case ramfs_node_vnode mp root s of
               (None, s) \<Rightarrow> (err ERR_OUT_OF_MEMORY, Some None, s)
             | (Some v, s) \<Rightarrow> (err ERR_SUCCESS, Some (Some v), s))))"

subsection \<open>dir.c\<close>

definition ramfs_find_child :: "'z rfs_scheme \<Rightarrow> rnode \<Rightarrow> string \<Rightarrow> nid option" where
  "ramfs_find_child s dir name = find (\<lambda>c. map_option rname (rnodes s c) = Some name) (rchildren dir)"

text \<open>The node behind a vnode.\<close>

definition node_of :: "'z rfs_scheme \<Rightarrow> vnode \<Rightarrow> (nid \<times> rnode) option" where
  "node_of s vn = Option.bind (vdata vn) (\<lambda>n. map_option (Pair n) (rnodes s n))"

definition code_of_vnode :: "vid option \<Rightarrow> int" where
  "code_of_vnode out = (if out \<noteq> None then err ERR_SUCCESS else err ERR_OUT_OF_MEMORY)"

definition ramfs_lookup_vn :: "vid \<Rightarrow> string \<Rightarrow> 'z rfs_scheme \<Rightarrow> int \<times> vid option \<times> 'z rfs_scheme" where
  "ramfs_lookup_vn dir name s =
     (case vnodes s dir of
        None \<Rightarrow> (err ERR_INVALID_ARGUMENT, None, s)
      | Some vn \<Rightarrow>
          if vtype vn \<noteq> VNODE_TYPE_DIR then (err ERR_NOT_DIRECTORY, None, s)
          else (case node_of s vn of
              None \<Rightarrow> (err ERR_INVALID_ARGUMENT, None, s)
            | Some (n, node) \<Rightarrow>
                if name = ''.'' then (err ERR_SUCCESS, Some dir, s)
                else if name = ''..'' then
                  (case ramfs_node_vnode (vmount vn) (case rparent node of None \<Rightarrow> n | Some p \<Rightarrow> p) s of
                     (out, s) \<Rightarrow> (code_of_vnode out, out, s))
                else (case ramfs_find_child s node name of
                    None \<Rightarrow> (err ERR_NOT_FOUND, None, s)
                  | Some c \<Rightarrow>
                      (case ramfs_node_vnode (vmount vn) c s of
                         (out, s) \<Rightarrow> (code_of_vnode out, out, s)))))"

definition ramfs_create_vn :: "vid \<Rightarrow> string \<Rightarrow> vnode_type \<Rightarrow> 'z rfs_scheme
    \<Rightarrow> int \<times> vid option \<times> 'z rfs_scheme" where
  "ramfs_create_vn dir name type s =
     (case vnodes s dir of
        None \<Rightarrow> (err ERR_INVALID_ARGUMENT, None, s)
      | Some vn \<Rightarrow>
          if vtype vn \<noteq> VNODE_TYPE_DIR then (err ERR_NOT_DIRECTORY, None, s)
          else if name = [] \<or> slash \<in> set name \<or> name = ''.'' \<or> name = ''..''
          then (err ERR_INVALID_ARGUMENT, None, s)
          else if type \<noteq> VNODE_TYPE_FILE \<and> type \<noteq> VNODE_TYPE_DIR \<and> type \<noteq> VNODE_TYPE_DEV \<and> type \<noteq> VNODE_TYPE_EXEC
          then (err ERR_NOT_SUPPORTED, None, s)
          else (case node_of s vn of
              None \<Rightarrow> (err ERR_INVALID_ARGUMENT, None, s)
            | Some (p, parent) \<Rightarrow>
                if ramfs_find_child s parent name \<noteq> None then (err ERR_ALREADY_EXISTS, None, s)
                else (case ramfs_node_create name type s of
                    (None, s) \<Rightarrow> (err ERR_OUT_OF_MEMORY, None, s)
                  | (Some c, s) \<Rightarrow>
                      (case ramfs_node_vnode (vmount vn) c (upd_node c (\<lambda>x. x\<lparr>rparent := Some p\<rparr>) s) of
                         (None, s) \<Rightarrow>
                           (err ERR_OUT_OF_MEMORY, None,
                            ramfs_node_release c (upd_node c (\<lambda>x. x\<lparr>rparent := None\<rparr>) s))
                       | (Some v, s) \<Rightarrow>
                           (err ERR_SUCCESS, Some v, upd_node p (\<lambda>x. x\<lparr>rchildren := c # rchildren x\<rparr>) s)))))"

definition ramfs_unlink_vn :: "vid \<Rightarrow> string \<Rightarrow> 'z rfs_scheme \<Rightarrow> int \<times> 'z rfs_scheme" where
  "ramfs_unlink_vn dir name s =
     (case vnodes s dir of
        None \<Rightarrow> (err ERR_INVALID_ARGUMENT, s)
      | Some vn \<Rightarrow>
          if vtype vn \<noteq> VNODE_TYPE_DIR then (err ERR_NOT_DIRECTORY, s)
          else if name = [] \<or> name = ''.'' \<or> name = ''..'' then (err ERR_INVALID_ARGUMENT, s)
          else (case node_of s vn of
              None \<Rightarrow> (err ERR_INVALID_ARGUMENT, s)
            | Some (p, parent) \<Rightarrow>
                (case ramfs_find_child s parent name of
                   None \<Rightarrow> (err ERR_NOT_FOUND, s)
                 | Some c \<Rightarrow>
                     (case rnodes s c of
                        None \<Rightarrow> (err ERR_NOT_FOUND, s)
                      | Some child \<Rightarrow>
                          if rtype child = VNODE_TYPE_DIR \<and> rchildren child \<noteq> []
                          then (err ERR_DIRECTORY_NOT_EMPTY, s)
                          else
                            let s = upd_node p (\<lambda>x. x\<lparr>rchildren := remove1 c (rchildren x)\<rparr>) s;
                                s = upd_node c (\<lambda>x. x\<lparr>rparent := None\<rparr>) s
                            in (err ERR_SUCCESS, ramfs_node_release c s)))))"

definition ramfs_readdir_vn :: "vid \<Rightarrow> usize \<Rightarrow> 'z rfs_scheme \<Rightarrow> int \<times> (string \<times> vnode_type) option" where
  "ramfs_readdir_vn v index s =
     (case vnodes s v of
        None \<Rightarrow> (err ERR_INVALID_ARGUMENT, None)
      | Some vn \<Rightarrow>
          if vtype vn \<noteq> VNODE_TYPE_DIR then (err ERR_NOT_DIRECTORY, None)
          else (case node_of s vn of
              None \<Rightarrow> (err ERR_INVALID_ARGUMENT, None)
            | Some (_, node) \<Rightarrow>
                if unat index < length (rchildren node) then
                  (case rnodes s (rchildren node ! unat index) of
                     None \<Rightarrow> (err ERR_NOT_FOUND, None)
                   | Some c \<Rightarrow> (err ERR_SUCCESS, Some (rname c, rtype c)))
                else (err ERR_NOT_FOUND, None)))"

subsection \<open>file.c\<close>

lemma double_no_wrap:
  fixes cap :: usize
  assumes "\<not> cap > (- 1) div 2"
  shows "unat (cap * 2) = 2 * unat cap"
proof -
  have "unat ((- 1 :: usize) div 2) = 2147483647"
    by (simp add: unat_div)
  then have "unat cap \<le> 2147483647"
    using assms by (simp add: word_le_nat_alt not_less)
  then show ?thesis
    by (simp add: unat_word_ariths)
qed

text \<open>
  The loop that doubles the capacity. It starts from the old capacity or 64, never from 0, for
  which doubling would not make progress; the model stops there.
\<close>

function grow_capacity :: "usize \<Rightarrow> usize \<Rightarrow> usize" where
  "grow_capacity cap new_capacity =
     (if cap < new_capacity \<and> cap \<noteq> 0 then
        (if cap > (- 1) div 2 then new_capacity else grow_capacity (cap * 2) new_capacity)
      else cap)"
  by auto

termination
proof (relation "measure (\<lambda>(cap, n). 2 ^ 32 - unat cap)")
  show "wf (measure (\<lambda>(cap :: usize, n :: usize). (2::nat) ^ 32 - unat cap))"
    by simp
next
  fix cap n :: usize
  assume a: "cap < n \<and> cap \<noteq> 0" "\<not> cap > (- 1) div 2"
  have "unat cap \<noteq> 0"
    using a(1) by (simp add: unat_eq_zero)
  then show "((cap * 2, n), (cap, n)) \<in> measure (\<lambda>(cap, n). 2 ^ 32 - unat cap)"
    using double_no_wrap [OF a(2)] unat_less_32 [of "cap"] by simp
qed

declare grow_capacity.simps [simp del]

definition ramfs_ensure_capacity :: "nid \<Rightarrow> rnode \<Rightarrow> usize \<Rightarrow> 'z rfs_scheme \<Rightarrow> int \<times> 'z rfs_scheme" where
  "ramfs_ensure_capacity n node new_capacity s =
     (if new_capacity \<le> rcapacity node then (err ERR_SUCCESS, s)
      else
        let cap = grow_capacity (if rcapacity node \<noteq> 0 then rcapacity node else 64) new_capacity in
        (case kmalloc s of
           (None, s) \<Rightarrow> (err ERR_OUT_OF_MEMORY, s)
         | (Some _, s) \<Rightarrow>
             (err ERR_SUCCESS,
              upd_node n (\<lambda>x. x\<lparr>rdata := rdata x @ map (fill s) [length (rdata x)..<unat cap],
                                rcapacity := cap\<rparr>) s)))"

text \<open>\<open>memset\<close> and \<open>memcpy\<close> into the data of a node.\<close>

definition put_bytes :: "u8 list \<Rightarrow> nat \<Rightarrow> u8 list \<Rightarrow> u8 list" where
  "put_bytes xs off bs = take off xs @ bs @ drop (off + length bs) xs"

definition ramfs_read_vn :: "vid \<Rightarrow> bool \<Rightarrow> usize \<Rightarrow> usize \<Rightarrow> 'z rfs_scheme \<Rightarrow> int \<times> u8 list \<times> 'z rfs_scheme" where
  "ramfs_read_vn v buf off len s =
     (case vnodes s v of
        None \<Rightarrow> (err ERR_INVALID_ARGUMENT, [], s)
      | Some vn \<Rightarrow>
          if len \<noteq> 0 \<and> \<not> buf then (err ERR_INVALID_ARGUMENT, [], s)
          else (case node_of s vn of
              None \<Rightarrow> (err ERR_INVALID_ARGUMENT, [], s)
            | Some (n, node) \<Rightarrow>
                if rtype node = VNODE_TYPE_DEV then
                  (case dev_read node of
                     None \<Rightarrow> (err ERR_NOT_SUPPORTED, [], s)
                   | Some rd \<Rightarrow>
                       (case rd len of
                          (r, bytes) \<Rightarrow>
                            if r < 0 then (r, [], s)
                            else if (word_of_int r :: usize) > len then (err ERR_IO_ERROR, [], s)
                            else (err ERR_SUCCESS, map bytes [0..<nat r], s)))
                else if rtype node = VNODE_TYPE_DIR then (err ERR_IS_DIRECTORY, [], s)
                else if rtype node \<noteq> VNODE_TYPE_FILE \<and> rtype node \<noteq> VNODE_TYPE_EXEC
                then (err ERR_NOT_SUPPORTED, [], s)
                else if off \<ge> rsize node \<or> len = 0 then (err ERR_SUCCESS, [], s)
                else
                  let available = rsize node - off;
                      len = (if len > available then available else len)
                  in (err ERR_SUCCESS, take (unat len) (drop (unat off) (rdata node)), s)))"

definition ramfs_write_vn :: "vid \<Rightarrow> u8 list option \<Rightarrow> usize \<Rightarrow> usize \<Rightarrow> 'z rfs_scheme
    \<Rightarrow> int \<times> usize \<times> 'z rfs_scheme" where
  "ramfs_write_vn v buf off len s =
     (case vnodes s v of
        None \<Rightarrow> (err ERR_INVALID_ARGUMENT, 0, s)
      | Some vn \<Rightarrow>
          if len \<noteq> 0 \<and> buf = None then (err ERR_INVALID_ARGUMENT, 0, s)
          else (case node_of s vn of
              None \<Rightarrow> (err ERR_INVALID_ARGUMENT, 0, s)
            | Some (n, node) \<Rightarrow>
                if rtype node = VNODE_TYPE_DEV then
                  (case dev_write node of
                     None \<Rightarrow> (err ERR_NOT_SUPPORTED, 0, s)
                   | Some wr \<Rightarrow>
                       let r = wr buf len in
                       if r < 0 then (r, 0, s)
                       else if word_of_int r > len then (err ERR_IO_ERROR, 0, s)
                       else (err ERR_SUCCESS, word_of_int r, s))
                else if rtype node = VNODE_TYPE_DIR then (err ERR_IS_DIRECTORY, 0, s)
                else if rtype node \<noteq> VNODE_TYPE_FILE \<and> rtype node \<noteq> VNODE_TYPE_EXEC
                then (err ERR_NOT_SUPPORTED, 0, s)
                else if len = 0 then (err ERR_SUCCESS, 0, s)
                else if len > - 1 - off then (err ERR_INVALID_ARGUMENT, 0, s)
                else
                  let end_off = off + len in
                  (case ramfs_ensure_capacity n node end_off s of
                     (r, s) \<Rightarrow>
                       if r \<noteq> err ERR_SUCCESS then (r, 0, s)
                       else
                         (err ERR_SUCCESS, len,
                          upd_node n (\<lambda>x.
                            let d = (if off > rsize x
                                     then put_bytes (rdata x) (unat (rsize x)) (replicate (unat (off - rsize x)) 0)
                                     else rdata x);
                                d = put_bytes d (unat off) (take (unat len) (the buf))
                            in x\<lparr>rdata := d, rsize := (if end_off > rsize x then end_off else rsize x)\<rparr>) s))))"

definition ramfs_truncate_vn :: "vid \<Rightarrow> usize \<Rightarrow> 'z rfs_scheme \<Rightarrow> int \<times> 'z rfs_scheme" where
  "ramfs_truncate_vn v new_size s =
     (case vnodes s v of
        None \<Rightarrow> (err ERR_INVALID_ARGUMENT, s)
      | Some vn \<Rightarrow>
          (case node_of s vn of
             None \<Rightarrow> (err ERR_INVALID_ARGUMENT, s)
           | Some (n, node) \<Rightarrow>
               if rtype node = VNODE_TYPE_DIR then (err ERR_IS_DIRECTORY, s)
               else if rtype node \<noteq> VNODE_TYPE_FILE \<and> rtype node \<noteq> VNODE_TYPE_EXEC
               then (err ERR_NOT_SUPPORTED, s)
               else (case ramfs_ensure_capacity n node new_size s of
                   (r, s) \<Rightarrow>
                     if r \<noteq> err ERR_SUCCESS then (r, s)
                     else
                       (err ERR_SUCCESS,
                        upd_node n (\<lambda>x. x\<lparr>
                          rdata := (if new_size > rsize x
                                    then put_bytes (rdata x) (unat (rsize x)) (replicate (unat (new_size - rsize x)) 0)
                                    else rdata x),
                          rsize := new_size\<rparr>) s))))"

definition ramfs_getattr_vn :: "vid \<Rightarrow> 'z rfs_scheme \<Rightarrow> int \<times> vfs_stat option" where
  "ramfs_getattr_vn v s =
     (case Option.bind (vnodes s v) (node_of s) of
        None \<Rightarrow> (err ERR_INVALID_ARGUMENT, None)
      | Some (_, node) \<Rightarrow>
          (err ERR_SUCCESS,
           Some \<lparr>st_type = rtype node, st_size = rsize node, st_capacity = rcapacity node, st_mode = 0,
             st_uid = 0, st_gid = 0, st_atime = 0, st_mtime = 0, st_ctime = 0\<rparr>))"

definition ramfs_setattr_vn :: "vid \<Rightarrow> vfs_stat option \<Rightarrow> 'z rfs_scheme \<Rightarrow> int \<times> 'z rfs_scheme" where
  "ramfs_setattr_vn v st s =
     (case st of
        None \<Rightarrow> (err ERR_INVALID_ARGUMENT, s)
      | Some a \<Rightarrow> ramfs_truncate_vn v (st_size a) s)"

definition ramfs_set_dev_hooks :: "vid option \<Rightarrow> (usize \<Rightarrow> int \<times> (nat \<Rightarrow> u8)) option
    \<Rightarrow> (u8 list option \<Rightarrow> usize \<Rightarrow> int) option \<Rightarrow> 'z rfs_scheme \<Rightarrow> 'z rfs_scheme" where
  "ramfs_set_dev_hooks vp rd wr s =
     (case Option.bind vp (vnodes s) of
        None \<Rightarrow> s
      | Some vn \<Rightarrow>
          if vtype vn \<noteq> VNODE_TYPE_DEV then s
          else (case vdata vn of
              None \<Rightarrow> s
            | Some n \<Rightarrow> upd_node n (\<lambda>x. x\<lparr>dev_read := rd, dev_write := wr\<rparr>) s))"

definition ramfs_vnode_ops :: "'z rfs_scheme vnode_ops" where
  "ramfs_vnode_ops =
     \<lparr>op_lookup = Some ramfs_lookup_vn, op_create = Some ramfs_create_vn, op_unlink = Some ramfs_unlink_vn,
      op_read = Some ramfs_read_vn, op_write = Some ramfs_write_vn, op_readdir = Some ramfs_readdir_vn,
      op_truncate = Some ramfs_truncate_vn, op_getattr = Some ramfs_getattr_vn,
      op_setattr = Some ramfs_setattr_vn, op_destroy = Some ramfs_destroy_vnode\<rparr>"

definition ramfs_tbl :: "nat \<Rightarrow> 'z rfs_scheme vnode_ops" where
  "ramfs_tbl = (\<lambda>_. ramfs_vnode_ops)"

section \<open>File contents\<close>

text \<open>
  What a node holds as a file: the first \<open>size\<close> bytes of its buffer. The rest of the buffer is
  memory that was never written or that a truncation left behind.
\<close>

definition contents :: "rnode \<Rightarrow> u8 list" where
  "contents nd = take (unat (rsize nd)) (rdata nd)"

definition data_wf :: "rnode \<Rightarrow> bool" where
  "data_wf nd \<longleftrightarrow> length (rdata nd) = unat (rcapacity nd) \<and> rsize nd \<le> rcapacity nd"


definition resize :: "u8 list \<Rightarrow> nat \<Rightarrow> u8 list" where
  "resize xs n = take n xs @ replicate (n - length xs) 0"

lemma length_contents: "data_wf nd \<Longrightarrow> length (contents nd) = unat (rsize nd)"
  by (simp add: contents_def data_wf_def word_le_nat_alt)

lemma length_put_bytes [simp]: "off + length bs \<le> length xs \<Longrightarrow> length (put_bytes xs off bs) = length xs"
  by (simp add: put_bytes_def)

lemma grow_capacity_enough:
  "cap \<noteq> 0 \<Longrightarrow> n \<le> grow_capacity cap n \<and> cap \<le> grow_capacity cap n"
proof (induction cap n rule: grow_capacity.induct)
  case (1 cap n)
  show ?case
  proof (cases "cap < n \<and> \<not> cap > (- 1) div 2")
    case True
    have nz: "cap * 2 \<noteq> 0" "cap \<le> cap * 2"
      using double_no_wrap [of cap] True 1(2)
      by (metis mult_eq_0_iff unat_0 unat_eq_zero zero_neq_numeral, simp add: word_le_nat_alt)
    then show ?thesis
      using 1 True by (subst (1 2) grow_capacity.simps) (auto intro: order_trans)
  next
    case False
    then show ?thesis
      using 1(2) by (subst (1 2) grow_capacity.simps) auto
  qed
qed

text \<open>Growing the buffer keeps its bytes and fails only for lack of memory.\<close>

lemma ensure_capacity_cases:
  assumes "ramfs_ensure_capacity n nd k s = (r, s')" "rnodes s n = Some nd" "data_wf nd"
  shows "r = err ERR_OUT_OF_MEMORY \<and> k > rcapacity nd \<and> \<not> alloc_ok s (alloc_no s) \<and>
           s' = s\<lparr>alloc_no := alloc_no s + 1\<rparr>
       \<or> r = err ERR_SUCCESS \<and> (\<exists>nd' na ni. s' = s\<lparr>alloc_no := na, next_id := ni, rnodes := (rnodes s)(n \<mapsto> nd')\<rparr>
           \<and> next_id s \<le> ni \<and> data_wf nd' \<and> contents nd' = contents nd \<and> k \<le> rcapacity nd'
           \<and> rsize nd' = rsize nd \<and> (\<exists>d c. nd' = nd\<lparr>rdata := d, rcapacity := c\<rparr>))"
proof (cases "k \<le> rcapacity nd")
  case True
  then have "s' = s\<lparr>alloc_no := alloc_no s, next_id := next_id s, rnodes := (rnodes s)(n \<mapsto> nd)\<rparr>" "r = err ERR_SUCCESS"
    using assms by (auto simp: ramfs_ensure_capacity_def fun_upd_idem)
  moreover have "nd = nd\<lparr>rdata := rdata nd, rcapacity := rcapacity nd\<rparr>"
    by simp
  ultimately show ?thesis
    using True assms(3) by blast
next
  case False
  define cap where "cap = grow_capacity (if rcapacity nd \<noteq> 0 then rcapacity nd else 64) k"
  have cap: "k \<le> cap" "rcapacity nd \<le> cap"
    using grow_capacity_enough [of "if rcapacity nd \<noteq> 0 then rcapacity nd else 64" k]
    by (auto simp: cap_def split: if_splits)
  define nd' where "nd' = nd\<lparr>rdata := rdata nd @ map (fill s) [length (rdata nd)..<unat cap], rcapacity := cap\<rparr>"
  have wf: "data_wf nd'" "contents nd' = contents nd"
    using assms(3) cap by (auto simp: data_wf_def nd'_def contents_def word_le_nat_alt)
  show ?thesis
  proof (cases "alloc_ok s (alloc_no s)")
    case True
    then have "r = err ERR_SUCCESS" "s' = s\<lparr>alloc_no := alloc_no s + 1, next_id := next_id s + 1, rnodes := (rnodes s)(n \<mapsto> nd')\<rparr>"
      using assms False by (auto simp: ramfs_ensure_capacity_def kmalloc_def Let_def upd_node_def nd'_def cap_def)
    moreover have "next_id s \<le> next_id s + 1" "k \<le> rcapacity nd'" "rsize nd' = rsize nd"
      using cap by (auto simp: nd'_def)
    ultimately show ?thesis
      using wf nd'_def by blast
  next
    case oom: False
    then show ?thesis
      using assms False by (auto simp: ramfs_ensure_capacity_def kmalloc_def Let_def)
  qed
qed


text \<open>An open regular file: the vnode, its node, and that the node is well-formed.\<close>

definition file_at :: "'z rfs_scheme \<Rightarrow> vid \<Rightarrow> nid \<Rightarrow> rnode \<Rightarrow> bool" where
  "file_at s v n nd \<longleftrightarrow> Option.bind (vnodes s v) (node_of s) = Some (n, nd) \<and>
     (rtype nd = VNODE_TYPE_FILE \<or> rtype nd = VNODE_TYPE_EXEC) \<and> data_wf nd"

lemma file_atD:
  assumes "file_at s v n nd"
  obtains vn where "vnodes s v = Some vn" "node_of s vn = Some (n, nd)" "vdata vn = Some n" "rnodes s n = Some nd"
    "rtype nd = VNODE_TYPE_FILE \<or> rtype nd = VNODE_TYPE_EXEC" "data_wf nd"
  using assms that by (auto simp: file_at_def node_of_def bind_eq_Some_conv)

lemma read_contents:
  assumes "file_at s v n nd"
  shows "ramfs_read_vn v True off len s = (err ERR_SUCCESS, take (unat len) (drop (unat off) (contents nd)), s)"
proof -
  obtain vn where vn: "vnodes s v = Some vn" "node_of s vn = Some (n, nd)"
      "rtype nd = VNODE_TYPE_FILE \<or> rtype nd = VNODE_TYPE_EXEC" "data_wf nd"
    using file_atD [OF assms] by metis
  have lc: "length (contents nd) = unat (rsize nd)"
    using vn(4) by (rule length_contents)
  have size: "off < rsize nd \<Longrightarrow> unat (rsize nd - off) = unat (rsize nd) - unat off"
    by (simp add: unat_sub order_less_imp_le)
  have "drop (unat off) (contents nd) = []" if "off \<ge> rsize nd"
    using that lc by (simp add: word_le_nat_alt)
  then show ?thesis
    using vn size
    by (auto simp: ramfs_read_vn_def Let_def contents_def drop_take min_def word_less_nat_alt word_le_nat_alt not_le)
qed

text \<open>What writing and truncating may do to the state: change the data of one node.\<close>

definition data_step :: "'z rfs_scheme \<Rightarrow> nid \<Rightarrow> rnode \<Rightarrow> 'z rfs_scheme \<Rightarrow> rnode \<Rightarrow> bool" where
  "data_step s n nd s' nd' \<longleftrightarrow>
     (\<exists>na ni. s' = s\<lparr>alloc_no := na, next_id := ni, rnodes := (rnodes s)(n \<mapsto> nd')\<rparr> \<and> next_id s \<le> ni) \<and>
     data_wf nd' \<and> (\<exists>d c z. nd' = nd\<lparr>rdata := d, rsize := z, rcapacity := c\<rparr>)"

lemma data_stepI:
  assumes "s' = s\<lparr>alloc_no := na, next_id := ni, rnodes := (rnodes s)(n \<mapsto> nd')\<rparr>" "next_id s \<le> ni"
    "data_wf nd'" "nd' = nd\<lparr>rdata := d, rsize := z, rcapacity := c\<rparr>"
  shows "data_step s n nd s' nd'"
  using assms unfolding data_step_def by blast


lemma ensure_capacity_step:
  assumes "ramfs_ensure_capacity n nd k s = (r, s')" "rnodes s n = Some nd" "data_wf nd"
  shows "\<exists>nd'. data_step s n nd s' nd' \<and> contents nd' = contents nd \<and> rsize nd' = rsize nd \<and>
    (r = err ERR_SUCCESS \<and> k \<le> rcapacity nd' \<or> r = err ERR_OUT_OF_MEMORY)"
  using ensure_capacity_cases [OF assms]
proof (elim disjE conjE exE)
  assume "r = err ERR_OUT_OF_MEMORY" "s' = s\<lparr>alloc_no := alloc_no s + 1\<rparr>"
  then show ?thesis
    using data_stepI [where s' = s' and s = s and na = "alloc_no s + 1" and ni = "next_id s" and n = n and nd' = nd
        and nd = nd and d = "rdata nd" and z = "rsize nd" and c = "rcapacity nd"] assms(2,3)
    by (intro exI [of _ nd]) (simp add: fun_upd_idem)
next
  fix nd' na ni d c
  assume a: "r = err ERR_SUCCESS" "s' = s\<lparr>alloc_no := na, next_id := ni, rnodes := (rnodes s)(n \<mapsto> nd')\<rparr>"
    "next_id s \<le> ni" "data_wf nd'" "contents nd' = contents nd" "k \<le> rcapacity nd'" "rsize nd' = rsize nd"
    "nd' = nd\<lparr>rdata := d, rcapacity := c\<rparr>"
  have "nd' = nd\<lparr>rdata := d, rsize := rsize nd, rcapacity := c\<rparr>"
    using a(8) by simp
  then have "data_step s n nd s' nd'"
    using a(2,3,4) by (intro data_stepI)
  then show ?thesis
    using a by blast
qed

lemma data_step_update:
  assumes "data_step s n nd s1 nd1" "data_wf nd2" "nd2 = nd1\<lparr>rdata := d, rsize := z\<rparr>"
    and "g nd1 = nd2"
  shows "data_step s n nd (upd_node n g s1) nd2"
proof -
  obtain na ni d' c z' where s1: "s1 = s\<lparr>alloc_no := na, next_id := ni, rnodes := (rnodes s)(n \<mapsto> nd1)\<rparr>"
      "next_id s \<le> ni" "nd1 = nd\<lparr>rdata := d', rsize := z', rcapacity := c\<rparr>"
    using assms(1) unfolding data_step_def by blast
  have "upd_node n g s1 = s\<lparr>alloc_no := na, next_id := ni, rnodes := (rnodes s)(n \<mapsto> nd2)\<rparr>"
    using assms(4) by (simp add: s1(1) upd_node_def)
  moreover have "nd2 = nd\<lparr>rdata := d, rsize := z, rcapacity := c\<rparr>"
    using assms(3) s1(3) by simp
  ultimately show ?thesis
    using s1(2) assms(2) unfolding data_step_def by blast
qed


lemma truncate_update:
  assumes "data_wf x" "k \<le> rcapacity x"
    and y: "y = x\<lparr>rdata := (if k > rsize x then put_bytes (rdata x) (unat (rsize x)) (replicate (unat (k - rsize x)) 0)
                            else rdata x), rsize := k\<rparr>"
  shows "data_wf y \<and> contents y = resize (contents x) (unat k)"
proof -
  have len: "length (rdata x) = unat (rcapacity x)" "unat (rsize x) \<le> length (rdata x)" "unat k \<le> length (rdata x)"
    using assms(1,2) by (auto simp: data_wf_def word_le_nat_alt)
  have "k > rsize x \<Longrightarrow> unat (k - rsize x) = unat k - unat (rsize x)"
    by (simp add: unat_sub order_less_imp_le)
  then show ?thesis
    using len assms(2)
    by (auto simp: y data_wf_def contents_def resize_def put_bytes_def word_less_nat_alt not_less min_def)
qed

lemma truncate_cases:
  assumes "file_at s v n nd" "ramfs_truncate_vn v k s = (r, s')"
  shows "\<exists>nd'. data_step s n nd s' nd' \<and>
    (r = err ERR_SUCCESS \<and> contents nd' = resize (contents nd) (unat k)
     \<or> r = err ERR_OUT_OF_MEMORY \<and> contents nd' = contents nd)"
proof -
  obtain vn where vn: "vnodes s v = Some vn" "node_of s vn = Some (n, nd)" "rnodes s n = Some nd"
      "rtype nd = VNODE_TYPE_FILE \<or> rtype nd = VNODE_TYPE_EXEC" "data_wf nd"
    using file_atD [OF assms(1)] by metis
  obtain r1 s1 where e: "ramfs_ensure_capacity n nd k s = (r1, s1)"
    by fastforce
  obtain nd1 where nd1: "data_step s n nd s1 nd1" "contents nd1 = contents nd"
      "r1 = err ERR_SUCCESS \<and> k \<le> rcapacity nd1 \<or> r1 = err ERR_OUT_OF_MEMORY"
    using ensure_capacity_step [OF e vn(3,5)] by blast
  show ?thesis
  proof (cases "r1 = err ERR_SUCCESS")
    case True
    define nd2 where "nd2 = nd1\<lparr>rdata := (if k > rsize nd1
      then put_bytes (rdata nd1) (unat (rsize nd1)) (replicate (unat (k - rsize nd1)) 0) else rdata nd1), rsize := k\<rparr>"
    have upd: "data_wf nd2" "contents nd2 = resize (contents nd1) (unat k)"
      using truncate_update [OF _ _ nd2_def] nd1(1,3) True by (auto simp: data_step_def)
    have "data_step s n nd s' nd2" "r = err ERR_SUCCESS"
      using assms(2) vn e True data_step_update [OF nd1(1) upd(1) nd2_def]
      by (auto simp: ramfs_truncate_vn_def nd2_def)
    then show ?thesis
      using upd(2) nd1(2) by auto
  next
    case False
    then have "r = err ERR_OUT_OF_MEMORY" "s' = s1"
      using assms(2) vn e nd1(3) by (auto simp: ramfs_truncate_vn_def)
    then show ?thesis
      using nd1 by auto
  qed
qed

lemma data_step_file_at:
  assumes "data_step s n nd s' nd'" "file_at s v n nd"
  shows "file_at s' v n nd'"
proof -
  obtain vn where vn: "vnodes s v = Some vn" "vdata vn = Some n"
      "rtype nd = VNODE_TYPE_FILE \<or> rtype nd = VNODE_TYPE_EXEC"
    using file_atD [OF assms(2)] by metis
  then show ?thesis
    using assms(1) by (auto simp: data_step_def file_at_def node_of_def)
qed

lemma data_step_frame: "data_step s n nd s' nd' \<Longrightarrow> m \<noteq> n \<Longrightarrow> rnodes s' m = rnodes s m"
  by (auto simp: data_step_def)


text \<open>A small file system: a root directory with one file of three bytes, which is open.\<close>

definition small_dir :: rnode where
  "small_dir = \<lparr>rname = [], rtype = VNODE_TYPE_DIR, vnode_cache = Some 1, rparent = None, rchildren = [2],
     rdata = [], rsize = 0, rcapacity = 0, dev_read = None, dev_write = None\<rparr>"

definition small_file :: rnode where
  "small_file = \<lparr>rname = ''a'', rtype = VNODE_TYPE_FILE, vnode_cache = Some 3, rparent = Some 0, rchildren = [],
     rdata = [10, 20, 30, 99], rsize = 3, rcapacity = 4, dev_read = None, dev_write = None\<rparr>"

definition small_fs :: rfs where
  "small_fs = \<lparr>vnodes = [1 \<mapsto> \<lparr>vtype = VNODE_TYPE_DIR, refcnt = 1, vmount = None, vops = Some RAMFS_OPS, vdata = Some 0, vexec = None\<rparr>,
                       3 \<mapsto> \<lparr>vtype = VNODE_TYPE_FILE, refcnt = 2, vmount = None, vops = Some RAMFS_OPS, vdata = Some 2, vexec = None\<rparr>],
     files = [4 \<mapsto> \<lparr>fvn = Some 3, offset = 0, flags = 3, fgeneric = True, refcount = 1\<rparr>],
     root_vn = Some 1, next_id = 5, alloc_ok = (\<lambda>_. True), alloc_no = 0, fill = (\<lambda>_. 77),
     rnodes = [0 \<mapsto> small_dir, 2 \<mapsto> small_file], rmounts = Map.empty\<rparr>"

lemmas small_defs = small_fs_def small_dir_def small_file_def RAMFS_OPS_def

lemma small_file_at: "file_at small_fs 3 2 small_file"
  by (simp add: file_at_def small_defs node_of_def data_wf_def)




text \<open>
  Truncation. Setting the size of a file either succeeds, and then every read returns the bytes
  of the old content cut off at the new size or extended with zeros up to it, or
  fails for lack of memory with every read as before. Bytes cut off do not come back when
  the file grows again.
\<close>

theorem ramfs_truncate_resizes:
  assumes "file_at s v n nd" "ramfs_truncate_vn v k s = (r, s')"
  shows "(r = err ERR_SUCCESS \<and>
           (\<forall>off len. ramfs_read_vn v True off len s' =
             (err ERR_SUCCESS, take (unat len) (drop (unat off) (resize (contents nd) (unat k))), s'))
        \<or> r = err ERR_OUT_OF_MEMORY \<and>
           (\<forall>off len. ramfs_read_vn v True off len s' =
             (err ERR_SUCCESS, take (unat len) (drop (unat off) (contents nd)), s')))
      \<and> (\<forall>m. m \<noteq> n \<longrightarrow> rnodes s' m = rnodes s m)"
proof -
  obtain nd' where nd': "data_step s n nd s' nd'"
      "r = err ERR_SUCCESS \<and> contents nd' = resize (contents nd) (unat k)
       \<or> r = err ERR_OUT_OF_MEMORY \<and> contents nd' = contents nd"
    using truncate_cases [OF assms] by blast
  show ?thesis
    using nd'(2) read_contents [OF data_step_file_at [OF nd'(1) assms(1)]] data_step_frame [OF nd'(1)] by auto
qed

theorem ramfs_truncate_resizes_witness:
  "fst (ramfs_truncate_vn 3 4 small_fs) = err ERR_SUCCESS \<and>
   fst (snd (ramfs_read_vn 3 True 1 9 (snd (ramfs_truncate_vn 3 4 small_fs)))) = [20, 30, 0]"
proof -
  obtain s' where t: "ramfs_truncate_vn 3 4 small_fs = (err ERR_SUCCESS, s')"
    by (simp add: ramfs_truncate_vn_def ramfs_ensure_capacity_def small_defs node_of_def Let_def)
  then show ?thesis
    using ramfs_truncate_resizes [OF small_file_at t]
    by (simp add: contents_def small_file_def resize_def)
qed

end
