(* ===== verification/Ramfs_Inv.thy ===== *)
theory Ramfs_Inv
  imports Ramfs
begin

text \<open>
  The invariant of the memory file system and its preservation by every operation:
  the nodes form a forest with distinct names in each directory, cached vnodes and live vnodes
  point to live nodes, and the reference count of each vnode is the number of open files on it plus one
  while the tree holds it. Names resolve accordingly after creating and removing entries.
\<close>

section \<open>Invariant\<close>

text \<open>The tree as functions of the node identifier.\<close>

definition kids :: "(nid \<rightharpoonup> rnode) \<Rightarrow> nid \<Rightarrow> nid list" where
  "kids N n = (case N n of None \<Rightarrow> [] | Some nd \<Rightarrow> rchildren nd)"

definition par :: "(nid \<rightharpoonup> rnode) \<Rightarrow> nid \<rightharpoonup> nid" where
  "par N n = Option.bind (N n) rparent"

definition nm :: "(nid \<rightharpoonup> rnode) \<Rightarrow> nid \<rightharpoonup> string" where
  "nm N n = map_option rname (N n)"

definition tree_wf :: "(nid \<rightharpoonup> rnode) \<Rightarrow> bool" where
  "tree_wf N \<longleftrightarrow>
     (\<forall>n nd. N n = Some nd \<longrightarrow> data_wf nd \<and> (rchildren nd \<noteq> [] \<longrightarrow> rtype nd = VNODE_TYPE_DIR)) \<and>
     (\<forall>n c. c \<in> set (kids N n) \<longleftrightarrow> par N c = Some n) \<and>
     (\<forall>c p. par N c = Some p \<longrightarrow> p < c) \<and>
     (\<forall>n. distinct (kids N n) \<and> inj_on (nm N) (set (kids N n)))"

text \<open>A vnode the tree holds: the one cached in its node.\<close>

definition held :: "(nid \<rightharpoonup> rnode) \<Rightarrow> (vid \<rightharpoonup> vnode) \<Rightarrow> vid \<Rightarrow> bool" where
  "held N V v \<longleftrightarrow> (case Option.bind (V v) vdata of None \<Rightarrow> False | Some n \<Rightarrow> Option.bind (N n) vnode_cache = Some v)"

definition detached :: "rnode \<Rightarrow> bool" where
  "detached nd \<longleftrightarrow> vnode_cache nd = None \<and> rparent nd = None \<and> rchildren nd = []"

text \<open>A vnode and its node: the node caches the vnode, or it was removed from the tree.\<close>

definition vnode_ok :: "(nid \<rightharpoonup> rnode) \<Rightarrow> vid \<Rightarrow> vnode \<Rightarrow> bool" where
  "vnode_ok N v vn \<longleftrightarrow> vops vn = Some RAMFS_OPS \<and>
     (case Option.bind (vdata vn) N of
        None \<Rightarrow> False
      | Some nd \<Rightarrow> vtype vn = rtype nd \<and> (vnode_cache nd = Some v \<or> detached nd))"

definition vnodes_wf :: "(nid \<rightharpoonup> rnode) \<Rightarrow> (vid \<rightharpoonup> vnode) \<Rightarrow> bool" where
  "vnodes_wf N V \<longleftrightarrow>
     (\<forall>n nd v. N n = Some nd \<longrightarrow> vnode_cache nd = Some v \<longrightarrow> Option.bind (V v) vdata = Some n) \<and>
     (\<forall>v vn. V v = Some vn \<longrightarrow> vnode_ok N v vn) \<and>
     (\<forall>v v' vn vn'. V v = Some vn \<longrightarrow> V v' = Some vn' \<longrightarrow> vdata vn = vdata vn' \<longrightarrow> v = v')"

definition openers :: "(fid \<rightharpoonup> vfile) \<Rightarrow> vid \<Rightarrow> fid set" where
  "openers F v = {f. Option.bind (F f) fvn = Some v}"

definition refs_wf :: "(nid \<rightharpoonup> rnode) \<Rightarrow> (vid \<rightharpoonup> vnode) \<Rightarrow> (fid \<rightharpoonup> vfile) \<Rightarrow> bool" where
  "refs_wf N V F \<longleftrightarrow> finite (dom F) \<and>
     (\<forall>f fl. F f = Some fl \<longrightarrow> refcount fl \<ge> 1 \<and> Option.bind (fvn fl) V \<noteq> None) \<and>
     (\<forall>v vn. V v = Some vn \<longrightarrow> refcnt vn \<noteq> 0 \<and>
        unat (refcnt vn) = of_bool (held N V v) + card (openers F v))"

definition root_wf :: "(nid \<rightharpoonup> rnode) \<Rightarrow> (vid \<rightharpoonup> vnode) \<Rightarrow> vid option \<Rightarrow> bool" where
  "root_wf N V r \<longleftrightarrow> (\<forall>v. r = Some v \<longrightarrow> held N V v \<and>
     Option.bind (Option.bind (Option.bind (V v) vdata) N) rparent = None)"

definition rfs_wf :: "'z rfs_scheme \<Rightarrow> bool" where
  "rfs_wf s \<longleftrightarrow> tree_wf (rnodes s) \<and> vnodes_wf (rnodes s) (vnodes s) \<and>
     refs_wf (rnodes s) (vnodes s) (files s) \<and> root_wf (rnodes s) (vnodes s) (root_vn s) \<and>
     (\<forall>i \<ge> next_id s. rnodes s i = None \<and> vnodes s i = None \<and> files s i = None)"

subsection \<open>The tree\<close>

lemma tree_updates [simp]:
  "kids (N(n \<mapsto> nd)) = (kids N)(n := rchildren nd)" "kids (N(n := None)) = (kids N)(n := [])"
  "par (N(n \<mapsto> nd)) = (par N)(n := rparent nd)" "par (N(n := None)) = (par N)(n := None)"
  "nm (N(n \<mapsto> nd)) = (nm N)(n \<mapsto> rname nd)" "nm (N(n := None)) = (nm N)(n := None)"
  by (auto simp: kids_def par_def nm_def)

lemma tree_at:
  "N n = Some nd \<Longrightarrow> kids N n = rchildren nd" "N n = Some nd \<Longrightarrow> par N n = rparent nd"
  "N n = Some nd \<Longrightarrow> nm N n = Some (rname nd)"
  by (auto simp: kids_def par_def nm_def)

lemma tree_wfD:
  assumes "tree_wf N"
  shows "N n = Some nd \<Longrightarrow> data_wf nd" "N n = Some nd \<Longrightarrow> rchildren nd \<noteq> [] \<Longrightarrow> rtype nd = VNODE_TYPE_DIR"
    "c \<in> set (kids N n) \<longleftrightarrow> par N c = Some n" "distinct (kids N n)" "inj_on (nm N) (set (kids N n))"
    "par N c = Some p \<Longrightarrow> p < c"
  using assms unfolding tree_wf_def by blast+

lemma tree_wf_noparent: "tree_wf N \<Longrightarrow> par N c = None \<Longrightarrow> c \<notin> set (kids N n)"
  by (simp add: tree_wfD)

text \<open>Replacing a node by one with the same place in the tree.\<close>

lemma tree_wf_update:
  assumes "tree_wf N" "N n = Some nd" "data_wf nd'"
    "rname nd' = rname nd" "rtype nd' = rtype nd" "rparent nd' = rparent nd" "rchildren nd' = rchildren nd"
  shows "tree_wf (N(n \<mapsto> nd'))"
proof -
  have "kids (N(n \<mapsto> nd')) = kids N" "par (N(n \<mapsto> nd')) = par N" "nm (N(n \<mapsto> nd')) = nm N"
    using assms(2,4,6,7) by (auto simp: tree_at fun_upd_idem)
  then show ?thesis
    using assms by (auto simp: tree_wf_def)
qed

lemma tree_wf_insert:
  assumes "tree_wf N" "N p = Some pd" "rtype pd = VNODE_TYPE_DIR" "N c = None" "p < c"
    "data_wf cd" "rparent cd = Some p" "rchildren cd = []" "Some (rname cd) \<notin> nm N ` set (rchildren pd)"
  shows "tree_wf (N(c \<mapsto> cd, p \<mapsto> pd\<lparr>rchildren := c # rchildren pd\<rparr>))"
proof -
  have neq: "c \<noteq> p" and c: "kids N c = []" "par N c = None"
    using assms(2,4) by (auto simp: kids_def par_def)
  have p: "kids N p = rchildren pd" "par N p = rparent pd" "nm N p = Some (rname pd)"
    using assms(2) by (simp_all add: tree_at)
  have data: "data_wf (pd\<lparr>rchildren := c # rchildren pd\<rparr>)"
    using tree_wfD(1) [OF assms(1,2)] by (simp add: data_wf_def)
  have out: "c \<notin> set (kids N n)" for n
    using assms(1) c(2) by (rule tree_wf_noparent)
  have inj: "inj_on ((nm N)(c \<mapsto> rname cd)) (set (kids N n))" for n
    using tree_wfD(5) [OF assms(1), of n] out [of n] by (auto simp: inj_on_def)
  have injp: "inj_on ((nm N)(c \<mapsto> rname cd)) (insert c (set (rchildren pd)))"
    using inj [of p] out [of p] assms(9) p by auto
  have upd: "nm (N(c \<mapsto> cd, p \<mapsto> pd\<lparr>rchildren := c # rchildren pd\<rparr>)) = (nm N)(c \<mapsto> rname cd)"
    "kids (N(c \<mapsto> cd, p \<mapsto> pd\<lparr>rchildren := c # rchildren pd\<rparr>)) = (kids N)(p := c # rchildren pd)"
    "par (N(c \<mapsto> cd, p \<mapsto> pd\<lparr>rchildren := c # rchildren pd\<rparr>)) = (par N)(c \<mapsto> p)"
    using p c neq assms(7,8) by (auto simp: fun_upd_idem)
  have mem: "x \<in> set (rchildren pd) \<longleftrightarrow> par N x = Some p" for x
    using tree_wfD(3) [OF assms(1), of x p] p by simp
  show ?thesis
    unfolding tree_wf_def upd
    using tree_wfD [OF assms(1)] mem assms(3,5,6,8) neq c data inj injp
      distinct.simps(2) [of c "rchildren pd"] tree_wfD(4) [OF assms(1), of p] out [of p]
    by (intro conjI allI) (auto simp: p split: if_splits)
qed

lemma tree_wf_remove:
  assumes "tree_wf N" "N p = Some pd" "c \<in> set (rchildren pd)" "N c = Some cd" "rchildren cd = []"
    "cd' = cd\<lparr>rparent := None, vnode_cache := x\<rparr>"
  shows "tree_wf (N(p \<mapsto> pd\<lparr>rchildren := remove1 c (rchildren pd)\<rparr>, c \<mapsto> cd'))"
proof -
  have p: "kids N p = rchildren pd" "par N p = rparent pd" "nm N p = Some (rname pd)"
    and c: "kids N c = []" "par N c = rparent cd" "nm N c = Some (rname cd)"
    using assms(2,4,5) by (simp_all add: tree_at)
  have neq: "c \<noteq> p"
    using assms(3,5) p c by auto
  have parc: "par N c = Some p"
    using tree_wfD(3) [OF assms(1), of c p] assms(3) p(1) by simp
  have data: "data_wf (pd\<lparr>rchildren := remove1 c (rchildren pd)\<rparr>)" "data_wf cd'"
    using tree_wfD(1) [OF assms(1,2)] tree_wfD(1) [OF assms(1,4)] assms(6) by (simp_all add: data_wf_def)
  have upd: "nm (N(p \<mapsto> pd\<lparr>rchildren := remove1 c (rchildren pd)\<rparr>, c \<mapsto> cd')) = nm N"
    "kids (N(p \<mapsto> pd\<lparr>rchildren := remove1 c (rchildren pd)\<rparr>, c \<mapsto> cd')) = (kids N)(p := remove1 c (rchildren pd))"
    "par (N(p \<mapsto> pd\<lparr>rchildren := remove1 c (rchildren pd)\<rparr>, c \<mapsto> cd')) = (par N)(c := None)"
    using p c neq assms(5,6) by (auto simp: fun_upd_idem fun_upd_twist)
  have mem: "x \<in> set (rchildren pd) \<longleftrightarrow> par N x = Some p" for x
    using tree_wfD(3) [OF assms(1), of x p] p by simp
  have dir: "rtype pd = VNODE_TYPE_DIR"
    using tree_wfD(2) [OF assms(1,2)] assms(3) by (cases "rchildren pd") auto
  have D: "distinct (rchildren pd)"
    using tree_wfD(4) [OF assms(1), of p] p by simp
  then have "inj_on (nm N) (set (remove1 c (rchildren pd)))"
    using tree_wfD(5) [OF assms(1), of p] p by (auto intro: inj_on_subset)
  then show ?thesis
    unfolding tree_wf_def upd
    using tree_wfD [OF assms(1)] mem dir assms(5,6) neq data D parc
    by (intro conjI allI) (auto simp: distinct_remove1 split: if_splits)
qed

lemma tree_wf_delete:
  assumes "tree_wf N" "par N c = None" "kids N c = []"
  shows "tree_wf (N(c := None))"
proof -
  have "inj_on (nm (N(c := None))) (set (kids N n))" for n
    using tree_wfD(5) [OF assms(1), of n] tree_wf_noparent [OF assms(1,2), of n] by (auto simp: inj_on_def)
  then show ?thesis
    using tree_wfD [OF assms(1)] assms(2,3) by (auto simp: tree_wf_def fun_upd_idem)
qed

subsection \<open>Steps that keep the invariant\<close>

lemma rfs_wfD:
  assumes "rfs_wf s"
  shows "tree_wf (rnodes s)" "vnodes_wf (rnodes s) (vnodes s)" "refs_wf (rnodes s) (vnodes s) (files s)"
    "root_wf (rnodes s) (vnodes s) (root_vn s)"
    "next_id s \<le> i \<Longrightarrow> rnodes s i = None" "next_id s \<le> i \<Longrightarrow> vnodes s i = None" "next_id s \<le> i \<Longrightarrow> files s i = None"
  using assms by (simp_all add: rfs_wf_def)

lemma vnodes_wfD:
  assumes "vnodes_wf N V"
  shows "N n = Some nd \<Longrightarrow> vnode_cache nd = Some v \<Longrightarrow> Option.bind (V v) vdata = Some n"
    "V v = Some vn \<Longrightarrow> vnode_ok N v vn"
    "V v = Some vn \<Longrightarrow> V v' = Some vn' \<Longrightarrow> vdata vn = vdata vn' \<Longrightarrow> v = v'"
  using assms unfolding vnodes_wf_def by blast+

lemma vnode_okE:
  assumes "vnode_ok N v vn"
  obtains n nd where "vdata vn = Some n" "N n = Some nd" "vops vn = Some RAMFS_OPS" "vtype vn = rtype nd"
    "vnode_cache nd = Some v \<or> detached nd"
  using assms that by (auto simp: vnode_ok_def bind_eq_Some_conv split: option.splits)

lemma held_at: "V v = Some vn \<Longrightarrow> vdata vn = Some n \<Longrightarrow> N n = Some nd \<Longrightarrow> held N V v \<longleftrightarrow> vnode_cache nd = Some v"
  by (simp add: held_def)

lemma heldE:
  assumes "held N V v"
  obtains vn n nd where "V v = Some vn" "vdata vn = Some n" "N n = Some nd" "vnode_cache nd = Some v"
  using assms that by (auto simp: held_def bind_eq_Some_conv split: option.splits)

text \<open>Replacing a node by one with the same cache that is detached if the old one was.\<close>

lemma vnodes_wf_update:
  assumes "vnodes_wf N V" "N n = Some nd" "vnode_cache nd' = vnode_cache nd" "rtype nd' = rtype nd"
    "detached nd \<Longrightarrow> detached nd'"
  shows "vnodes_wf (N(n \<mapsto> nd')) V"
proof -
  have "vnode_ok (N(n \<mapsto> nd')) v vn" if "vnode_ok N v vn" for v vn
    using that assms(2-5) by (cases "vdata vn") (auto simp: vnode_ok_def split: option.splits if_splits)
  then show ?thesis
    using assms(1-3) unfolding vnodes_wf_def by auto
qed

lemma held_update:
  assumes "N n = Some nd" "vnode_cache nd' = vnode_cache nd"
  shows "held (N(n \<mapsto> nd')) V v = held N V v"
  using assms by (auto simp: held_def split: option.splits)

lemma root_wf_update:
  assumes "root_wf N V r" "N n = Some nd" "vnode_cache nd' = vnode_cache nd" "rparent nd' = rparent nd"
  shows "root_wf (N(n \<mapsto> nd')) V r"
proof -
  have "Option.bind (Option.bind x (N(n \<mapsto> nd'))) rparent = Option.bind (Option.bind x N) rparent" for x
    using assms(2,4) by (cases x) auto
  then show ?thesis
    using assms(1) held_update [of N, OF assms(2,3)] by (simp add: root_wf_def)
qed

lemma node_id_less: "rfs_wf s \<Longrightarrow> rnodes s n = Some nd \<Longrightarrow> n < next_id s"
  using rfs_wfD(5) [of s n] by (cases "next_id s \<le> n") auto

lemma wf_data_step:
  assumes "rfs_wf s" "data_step s n nd s' nd'" "rnodes s n = Some nd"
  shows "rfs_wf s'"
proof -
  obtain na ni d c z where s': "s' = s\<lparr>alloc_no := na, next_id := ni, rnodes := (rnodes s)(n \<mapsto> nd')\<rparr>"
      "next_id s \<le> ni" and nd': "data_wf nd'" "nd' = nd\<lparr>rdata := d, rsize := z, rcapacity := c\<rparr>"
    using assms(2) unfolding data_step_def by blast
  have same: "rname nd' = rname nd" "rtype nd' = rtype nd" "rparent nd' = rparent nd"
      "rchildren nd' = rchildren nd" "vnode_cache nd' = vnode_cache nd"
    by (simp_all add: nd'(2))
  have "root_wf ((rnodes s)(n \<mapsto> nd')) (vnodes s) (root_vn s)"
    using root_wf_update [OF rfs_wfD(4) [OF assms(1)] assms(3) same(5,3)] .
  moreover have "tree_wf ((rnodes s)(n \<mapsto> nd'))"
    using tree_wf_update [OF rfs_wfD(1) [OF assms(1)] assms(3) nd'(1)] same by blast
  moreover have "vnodes_wf ((rnodes s)(n \<mapsto> nd')) (vnodes s)"
    using vnodes_wf_update [OF rfs_wfD(2) [OF assms(1)] assms(3) same(5,2)] same by (simp add: detached_def)
  moreover have "refs_wf ((rnodes s)(n \<mapsto> nd')) (vnodes s) (files s)"
    using rfs_wfD(3) [OF assms(1)] held_update [of "rnodes s", OF assms(3) same(5)] by (simp add: refs_wf_def)
  ultimately show ?thesis
    using assms(1) s' node_id_less [OF assms(1,3)] by (auto simp: rfs_wf_def)
qed

lemma wf_alloc:
  assumes "rfs_wf s" "next_id s \<le> i"
  shows "rfs_wf (s\<lparr>alloc_no := a, next_id := i\<rparr>)"
  using assms by (simp add: rfs_wf_def)

lemma bind_upd_Some: "Option.bind x V \<noteq> None \<Longrightarrow> Option.bind x (V(v \<mapsto> y)) \<noteq> None"
  by (cases x) auto

text \<open>Creating the vnode of a node that has none.\<close>

lemma wf_new_vnode:
  assumes "rfs_wf s" "rnodes s n = Some nd" "vnode_cache nd = None"
    "\<And>w wn. vnodes s w = Some wn \<Longrightarrow> vdata wn \<noteq> Some n" "next_id s \<le> v" "v < i"
    and s': "s' = s\<lparr>next_id := i, alloc_no := a,
      vnodes := (vnodes s)(v \<mapsto> \<lparr>vtype = rtype nd, refcnt = 1, vmount = mp, vops = Some RAMFS_OPS, vdata = Some n, vexec = None\<rparr>),
      rnodes := (rnodes s)(n \<mapsto> nd\<lparr>vnode_cache := Some v\<rparr>)\<rparr>"
  shows "rfs_wf s' \<and> (\<forall>w. held (rnodes s') (vnodes s') w \<longleftrightarrow> w = v \<or> held (rnodes s) (vnodes s) w)"
proof -
  note D = rfs_wfD [OF assms(1)]
  have v: "vnodes s v = None" "rnodes s v = None" "files s v = None" "v \<noteq> n"
    using D(5-7) [OF assms(5)] assms(2) by auto
  have fresh: "\<forall>j\<ge>i. rnodes s' j = None \<and> vnodes s' j = None \<and> files s' j = None"
    using D(5-7) assms(5,6) node_id_less [OF assms(1,2)] by (auto simp: s')
  have other: "Option.bind (vnodes s w) vdata \<noteq> Some n" for w
    using assms(4) by (cases "vnodes s w") auto
  have held': "held (rnodes s') (vnodes s') w \<longleftrightarrow> w = v \<or> held (rnodes s) (vnodes s) w" for w
    using other [of w] by (auto simp: held_def s' split: option.splits)
  have none: "openers (files s) v = {}"
    using D(3) v(1) by (force simp: openers_def refs_wf_def bind_eq_Some_conv)
  have nheld: "\<not> held (rnodes s) (vnodes s) v"
    using v(1) by (simp add: held_def)
  have tree: "tree_wf (rnodes s')"
    using tree_wf_update [OF D(1) assms(2)] tree_wfD(1) [OF D(1) assms(2)] by (simp add: s' data_wf_def)
  have ok: "vnode_ok (rnodes s') w wn" if "vnodes s' w = Some wn" for w wn
    using that vnodes_wfD(2) [OF D(2), of w wn] assms(4) [of w wn]
    by (cases "vdata wn") (auto simp: s' vnode_ok_def split: if_splits option.splits)
  have "vnodes_wf (rnodes s') (vnodes s')"
    unfolding vnodes_wf_def
  proof (intro conjI allI impI)
    fix m md w
    assume "rnodes s' m = Some md" "vnode_cache md = Some w"
    then show "Option.bind (vnodes s' w) vdata = Some m"
      using vnodes_wfD(1) [OF D(2), of m md w] v(1) by (auto simp: s' split: if_splits)
  next
    fix w w' wn wn'
    assume "vnodes s' w = Some wn" "vnodes s' w' = Some wn'" "vdata wn = vdata wn'"
    then show "w = w'"
      using vnodes_wfD(3) [OF D(2), of w wn w' wn'] assms(4) [of w wn] assms(4) [of w' wn']
      by (auto simp: s' split: if_splits)
  qed (rule ok)
  moreover have "refs_wf (rnodes s') (vnodes s') (files s')"
    using D(3) held' none nheld v(1) bind_upd_Some [of _ "vnodes s"] unfolding refs_wf_def
    by (simp add: s')
  moreover have "root_wf (rnodes s') (vnodes s') (root_vn s')"
  proof -
    have "Option.bind (Option.bind (Option.bind (vnodes s' w) vdata) (rnodes s')) rparent =
        Option.bind (Option.bind (Option.bind (vnodes s w) vdata) (rnodes s)) rparent" if "w \<noteq> v" for w
      using other [of w] that by (cases "Option.bind (vnodes s w) vdata") (auto simp: s' simp del: bind_assoc)
    moreover have "root_vn s' = root_vn s"
      by (simp add: s')
    ultimately show ?thesis
      using D(4) held' nheld unfolding root_wf_def by (metis (no_types))
  qed
  ultimately show ?thesis
    using tree fresh held' by (simp add: rfs_wf_def s')
qed

text \<open>Changing a reference count.\<close>

lemma recount:
  assumes "V v = Some vn"
  shows "held N (V(v \<mapsto> vn\<lparr>refcnt := k\<rparr>)) w = held N V w"
    "root_wf N (V(v \<mapsto> vn\<lparr>refcnt := k\<rparr>)) r = root_wf N V r"
    "vnodes_wf N V \<Longrightarrow> vnodes_wf N (V(v \<mapsto> vn\<lparr>refcnt := k\<rparr>))"
proof -
  have b: "Option.bind ((V(v \<mapsto> vn\<lparr>refcnt := k\<rparr>)) w) vdata = Option.bind (V w) vdata" for w
    using assms by simp
  show "held N (V(v \<mapsto> vn\<lparr>refcnt := k\<rparr>)) w = held N V w" for w
    unfolding held_def b ..
  then show "root_wf N (V(v \<mapsto> vn\<lparr>refcnt := k\<rparr>)) r = root_wf N V r"
    unfolding root_wf_def b by simp
  have "vnode_ok N w (wn\<lparr>refcnt := k\<rparr>) = vnode_ok N w wn" for w wn
    by (simp add: vnode_ok_def split: option.split)
  then show "vnodes_wf N (V(v \<mapsto> vn\<lparr>refcnt := k\<rparr>))" if "vnodes_wf N V"
    using that assms unfolding vnodes_wf_def b by (auto split: if_splits)
qed

text \<open>Dropping a vnode that no file uses.\<close>

lemma vnodes_wf_drop:
  assumes "vnodes_wf N V" "V v = Some vn" "vdata vn = Some n"
  shows "vnodes_wf (N(n := None)) (V(v := None))"
proof -
  have other: "vdata wn \<noteq> Some n" if "V w = Some wn" "w \<noteq> v" for w wn
    using vnodes_wfD(3) [OF assms(1,2) that(1)] that(2) assms(3) by auto
  have "vnode_ok (N(n := None)) w wn" if "V w = Some wn" "w \<noteq> v" for w wn
    using vnodes_wfD(2) [OF assms(1) that(1)] other [OF that]
    by (cases "vdata wn") (auto simp: vnode_ok_def)
  moreover have "Option.bind (V v) vdata = Some n"
    using assms(2,3) by simp
  ultimately show ?thesis
    using assms(1) unfolding vnodes_wf_def by (auto split: if_splits)
qed

lemma held_drop:
  assumes "vnodes_wf N V" "V v = Some vn" "vdata vn = Some n"
  shows "held (N(n := None)) (V(v := None)) w \<longleftrightarrow> w \<noteq> v \<and> held N V w"
proof (cases "V w")
  case (Some wn)
  then show ?thesis
    using vnodes_wfD(3) [OF assms(1,2), of w wn] assms(3) by (auto simp: held_def split: option.splits)
qed (auto simp: held_def)

lemma root_wf_drop:
  assumes "root_wf N V r" "r \<noteq> Some v" "vnodes_wf N V" "V v = Some vn" "vdata vn = Some n"
  shows "root_wf (N(n := None)) (V(v := None)) r"
proof -
  have "Option.bind (Option.bind (Option.bind ((V(v := None)) w) vdata) (N(n := None))) rparent = None"
    if "Option.bind (Option.bind (Option.bind (V w) vdata) N) rparent = None" for w
    using that by (cases "Option.bind (V w) vdata") (auto simp del: bind_assoc)
  then show ?thesis
    using assms(1,2) held_drop [OF assms(3-5)] unfolding root_wf_def by blast
qed

lemma openers_upd:
  "openers (F(f \<mapsto> fl)) v = (if fvn fl = Some v then insert f (openers F v) else openers F v - {f})"
  "openers (F(f := None)) v = openers F v - {f}"
  by (auto simp: openers_def)

lemma openers_dom: "openers F v \<subseteq> dom F"
  by (auto simp: openers_def bind_eq_Some_conv)

lemma finite_openers: "finite (dom F) \<Longrightarrow> finite (openers F v)"
  by (rule finite_subset [OF openers_dom])

lemma refs_wfD:
  assumes "refs_wf N V F"
  shows "finite (dom F)" "F f = Some fl \<Longrightarrow> refcount fl \<ge> 1" "F f = Some fl \<Longrightarrow> Option.bind (fvn fl) V \<noteq> None"
    "V v = Some vn \<Longrightarrow> refcnt vn \<noteq> 0"
    "V v = Some vn \<Longrightarrow> unat (refcnt vn) = of_bool (held N V v) + card (openers F v)"
  using assms unfolding refs_wf_def by blast+

text \<open>Opening and closing a file.\<close>

lemma wf_open_file:
  assumes "rfs_wf s" "vnodes s v = Some vn" "next_id s \<le> f" "f < i" "card (dom (files s)) + 2 < 2 ^ 32"
    "fvn fl = Some v" "refcount fl = 1"
    and s': "s' = s\<lparr>next_id := i, alloc_no := a, vnodes := (vnodes s)(v \<mapsto> vn\<lparr>refcnt := refcnt vn + 1\<rparr>),
      files := (files s)(f \<mapsto> fl)\<rparr>"
  shows "rfs_wf s'"
proof -
  note D = rfs_wfD [OF assms(1)] and R = refs_wfD [OF rfs_wfD(3) [OF assms(1)]]
    and RC = recount [where V = "vnodes s" and v = v and vn = vn and k = "refcnt vn + 1", OF assms(2)]
  have f: "files s f = None" "f \<notin> openers (files s) w" for w
    using D(7) [OF assms(3)] by (auto simp: openers_def)
  have "card (openers (files s) v) \<le> card (dom (files s))"
    using R(1) openers_dom by (rule card_mono)
  then have small: "unat (refcnt vn) + 1 < 2 ^ 32"
    using R(5) [OF assms(2)] assms(5) by (simp split: if_splits)
  then have cnt: "unat (refcnt vn + 1) = unat (refcnt vn) + 1"
    by (simp add: unat_word_ariths)
  have V: "Option.bind x (vnodes s') \<noteq> None" if "Option.bind x (vnodes s) \<noteq> None" for x
    using bind_upd_Some [OF that] by (simp add: s')
  have "refs_wf (rnodes s') (vnodes s') (files s')"
    unfolding refs_wf_def
  proof (intro conjI allI impI)
    show "finite (dom (files s'))"
      using R(1) by (simp add: s')
  next
    fix g gl
    assume "files s' g = Some gl"
    then show "refcount gl \<ge> 1" "Option.bind (fvn gl) (vnodes s') \<noteq> None"
      using R(2,3) [of g gl] V [of "fvn gl"] assms(2,6,7) by (auto simp: s' split: if_splits)
  next
    fix w wn
    assume w: "vnodes s' w = Some wn"
    then show "refcnt wn \<noteq> 0"
      using R(4) [of w wn] cnt by (auto simp: s' split: if_splits)
    show "unat (refcnt wn) = of_bool (held (rnodes s') (vnodes s') w) + card (openers (files s') w)"
      using w R(5) [of w wn] R(5) [OF assms(2)] cnt f assms(6) finite_openers [OF R(1)]
      by (auto simp: s' RC(1) openers_upd split: if_splits)
  qed
  moreover have "v < next_id s"
    using D(6) [of v] assms(2) by (cases "next_id s \<le> v") auto
  ultimately show ?thesis
    using D RC assms(3,4) by (auto simp: rfs_wf_def s')
qed

lemma card_openers_remove:
  "finite (dom F) \<Longrightarrow> F f = Some fl \<Longrightarrow> fvn fl = Some v \<Longrightarrow> card (openers F v) = Suc (card (openers F v - {f}))"
  by (rule card.remove [OF finite_openers]) (auto simp: openers_def)

lemma wf_close_file_shared:
  assumes "rfs_wf s" "files s f = Some fl" "fvn fl = Some v" "vnodes s v = Some vn" "refcnt vn \<noteq> 1"
    and s': "s' = s\<lparr>vnodes := (vnodes s)(v \<mapsto> vn\<lparr>refcnt := refcnt vn - 1\<rparr>), files := (files s)(f := None)\<rparr>"
  shows "rfs_wf s'"
proof -
  note D = rfs_wfD [OF assms(1)] and R = refs_wfD [OF rfs_wfD(3) [OF assms(1)]]
    and RC = recount [where V = "vnodes s" and v = v and vn = vn and k = "refcnt vn - 1", OF assms(4)]
  have "refcnt vn \<noteq> 0"
    using R(4) [OF assms(4)] .
  then have cnt: "unat (refcnt vn - 1) = unat (refcnt vn) - 1" "refcnt vn - 1 \<noteq> 0" "unat (refcnt vn) \<noteq> 0"
    using assms(5) by (auto simp: unat_minus_one unat_eq_zero)
  have V: "Option.bind x (vnodes s') \<noteq> None" if "Option.bind x (vnodes s) \<noteq> None" for x
    using bind_upd_Some [OF that] by (simp add: s')
  have held': "held (rnodes s') (vnodes s') w = held (rnodes s) (vnodes s) w" for w
    by (simp add: s' RC(1))
  have other: "openers (files s') w = openers (files s) w" if "w \<noteq> v" for w
    using that assms(2,3) by (auto simp: s' openers_def)
  have "refs_wf (rnodes s') (vnodes s') (files s')"
    unfolding refs_wf_def
  proof (intro conjI allI impI)
    show "finite (dom (files s'))"
      using R(1) by (simp add: s')
  next
    fix g gl
    assume "files s' g = Some gl"
    then show "refcount gl \<ge> 1" "Option.bind (fvn gl) (vnodes s') \<noteq> None"
      using R(2,3) [of g gl] V [of "fvn gl"] by (auto simp: s' split: if_splits)
  next
    fix w wn
    assume w: "vnodes s' w = Some wn"
    then show "refcnt wn \<noteq> 0"
      using R(4) [of w wn] cnt by (auto simp: s' split: if_splits)
    show "unat (refcnt wn) = of_bool (held (rnodes s') (vnodes s') w) + card (openers (files s') w)"
    proof (cases "w = v")
      case True
      then show ?thesis
        using w R(5) [OF assms(4)] cnt card_openers_remove [OF R(1) assms(2,3)] held' [of v]
        by (auto simp: s' openers_upd simp del: of_bool_eq_iff)
    next
      case False
      then show ?thesis
        using w R(5) [of w wn] other [OF False] by (simp add: s' RC(1))
    qed
  qed
  moreover have "v < next_id s"
    using D(6) [of v] assms(4) by (cases "next_id s \<le> v") auto
  ultimately show ?thesis
    using D RC by (auto simp: rfs_wf_def s')
qed

lemma wf_close_file_last:
  assumes "rfs_wf s" "files s f = Some fl" "fvn fl = Some v" "vnodes s v = Some vn" "refcnt vn = 1" "vdata vn = Some n"
    and s': "s' = s\<lparr>vnodes := (vnodes s)(v := None), rnodes := (rnodes s)(n := None), files := (files s)(f := None)\<rparr>"
  shows "rfs_wf s'"
proof -
  note D = rfs_wfD [OF assms(1)] and R = refs_wfD [OF rfs_wfD(3) [OF assms(1)]]
  have c: "card (openers (files s) v - {f}) = 0" "\<not> held (rnodes s) (vnodes s) v"
    using R(5) [OF assms(4)] assms(5) card_openers_remove [OF R(1) assms(2,3)] by auto
  then have last: "openers (files s) v \<subseteq> {f}"
    using finite_openers [OF R(1), of v] by auto
  obtain nd where nd: "rnodes s n = Some nd" "vnode_cache nd = Some v \<or> detached nd"
    using vnode_okE [OF vnodes_wfD(2) [OF D(2) assms(4)]] assms(6) by (metis option.inject)
  then have "detached nd"
    using c(2) held_at [of "vnodes s" v vn n "rnodes s" nd, OF assms(4,6) nd(1)] by auto
  then have tree: "tree_wf ((rnodes s)(n := None))"
    using tree_wf_delete [OF D(1), of n] nd(1) by (simp add: tree_at detached_def)
  have root: "root_vn s \<noteq> Some v"
    using D(4) c(2) by (auto simp: root_wf_def)
  have keep: "Option.bind (fvn gl) (vnodes s') \<noteq> None" if "files s' g = Some gl" for g gl
  proof -
    have "g \<in> openers (files s) v \<Longrightarrow> g = f"
      using last by blast
    then have "fvn gl \<noteq> Some v"
      using that by (auto simp: s' openers_def split: if_splits)
    then show ?thesis
      using R(3) [of g gl] that by (cases "fvn gl") (auto simp: s' split: if_splits)
  qed
  have other: "openers (files s') w = openers (files s) w" if "w \<noteq> v" for w
    using that assms(2,3) by (auto simp: s' openers_def)
  have "refs_wf (rnodes s') (vnodes s') (files s')"
    unfolding refs_wf_def
  proof (intro conjI allI impI)
    show "finite (dom (files s'))"
      using R(1) by (simp add: s')
  next
    fix g gl
    assume "files s' g = Some gl"
    then show "refcount gl \<ge> 1" "Option.bind (fvn gl) (vnodes s') \<noteq> None"
      using R(2) [of g gl] keep [of g gl] by (auto simp: s' split: if_splits)
  next
    fix w wn
    assume "vnodes s' w = Some wn"
    then have w: "w \<noteq> v" "vnodes s w = Some wn"
      by (auto simp: s' split: if_splits)
    then show "refcnt wn \<noteq> 0"
      "unat (refcnt wn) = of_bool (held (rnodes s') (vnodes s') w) + card (openers (files s') w)"
      using R(4,5) [OF w(2)] other [OF w(1)] held_drop [OF D(2) assms(4,6), of w] by (simp_all add: s')
  qed
  then show ?thesis
    using D tree vnodes_wf_drop [OF D(2) assms(4,6)] root_wf_drop [OF D(4) root D(2) assms(4,6)]
    by (simp add: rfs_wf_def s')
qed

text \<open>Entering a node without a vnode into a directory the tree holds.\<close>

lemma wf_insert_node:
  assumes "rfs_wf s" "rnodes s p = Some pd" "rtype pd = VNODE_TYPE_DIR" "vnode_cache pd \<noteq> None"
    "next_id s \<le> c" "c < i" "data_wf cd" "rparent cd = Some p" "rchildren cd = []" "vnode_cache cd = None"
    "Some (rname cd) \<notin> nm (rnodes s) ` set (rchildren pd)"
    and s': "s' = s\<lparr>next_id := i, alloc_no := a,
      rnodes := (rnodes s)(c \<mapsto> cd, p \<mapsto> pd\<lparr>rchildren := c # rchildren pd\<rparr>)\<rparr>"
  shows "rfs_wf s' \<and> (\<forall>w. held (rnodes s') (vnodes s') w \<longleftrightarrow> held (rnodes s) (vnodes s) w)"
proof -
  note D = rfs_wfD [OF assms(1)]
  let ?pd = "pd\<lparr>rchildren := c # rchildren pd\<rparr>" and ?N1 = "(rnodes s)(c \<mapsto> cd)"
  have c: "rnodes s c = None" "c \<noteq> p"
    using D(5) [OF assms(5)] assms(2) by auto
  have p1: "?N1 p = Some pd"
    using c assms(2) by simp
  have tree: "tree_wf (rnodes s')"
    using tree_wf_insert [OF D(1) assms(2,3) c(1) _ assms(7-9,11)] node_id_less [OF assms(1,2)] assms(5) by (simp add: s')
  have vdata: "vdata wn \<noteq> Some c" if "vnodes s w = Some wn" for w wn
    using vnode_okE [OF vnodes_wfD(2) [OF D(2) that]] c(1) by (metis option.inject option.distinct(1))
  then have bind: "Option.bind (vnodes s w) vdata \<noteq> Some c" for w
    by (cases "vnodes s w") auto
  have "vnode_ok ?N1 w wn" if "vnodes s w = Some wn" for w wn
    using vnodes_wfD(2) [OF D(2) that] vdata [OF that] by (cases "vdata wn") (auto simp: vnode_ok_def)
  then have vn1: "vnodes_wf ?N1 (vnodes s)"
    using D(2) assms(10) unfolding vnodes_wf_def by (auto split: if_splits)
  have vn: "vnodes_wf (?N1(p \<mapsto> ?pd)) (vnodes s)"
    by (rule vnodes_wf_update [OF vn1 p1]) (use assms(4) in \<open>auto simp: detached_def\<close>)
  have held1: "held ?N1 (vnodes s) w = held (rnodes s) (vnodes s) w" for w
    using bind [of w] by (auto simp: held_def split: option.splits)
  have held': "held (?N1(p \<mapsto> ?pd)) (vnodes s) w = held (rnodes s) (vnodes s) w" for w
    using held_update [of ?N1 p pd ?pd, OF p1] held1 by simp
  have "Option.bind (Option.bind x (?N1(p \<mapsto> ?pd))) rparent = Option.bind (Option.bind x (rnodes s)) rparent"
    if "x \<noteq> Some c" for x
    using that assms(2) by (cases x) auto
  then have "root_wf (?N1(p \<mapsto> ?pd)) (vnodes s) (root_vn s)"
    using D(4) held' bind unfolding root_wf_def by (simp del: bind_assoc fun_upd_apply)
  moreover have "refs_wf (?N1(p \<mapsto> ?pd)) (vnodes s) (files s)"
    using D(3) held' unfolding refs_wf_def by simp
  moreover have "\<forall>j\<ge>i. rnodes s' j = None \<and> vnodes s' j = None \<and> files s' j = None"
    using D(5-7) assms(5,6) node_id_less [OF assms(1,2)] by (auto simp: s')
  ultimately show ?thesis
    using tree vn held' by (simp add: rfs_wf_def s')
qed

text \<open>Removing a leaf of the tree: the three outcomes of releasing its node.\<close>

lemma wf_remove_common:
  assumes "rfs_wf s" "rnodes s p = Some pd" "c \<in> set (rchildren pd)" "rnodes s c = Some cd" "rchildren cd = []"
    and N1: "N1 = (rnodes s)(p \<mapsto> pd\<lparr>rchildren := remove1 c (rchildren pd)\<rparr>)"
  shows "vnodes_wf N1 (vnodes s)" "held N1 (vnodes s) w = held (rnodes s) (vnodes s) w"
    "root_wf N1 (vnodes s) (root_vn s)" "refs_wf N1 (vnodes s) (files s)" "N1 c = Some cd" "rparent cd = Some p"
    "\<not> detached cd" "tree_wf (N1(c \<mapsto> cd\<lparr>rparent := None, vnode_cache := None\<rparr>))" "tree_wf (N1(c := None))"
proof -
  note D = rfs_wfD [OF assms(1)]
  let ?pd = "pd\<lparr>rchildren := remove1 c (rchildren pd)\<rparr>"
  have "c \<noteq> p"
    using assms(2-5) by auto
  then show c: "N1 c = Some cd"
    by (simp add: N1 assms(4))
  show par: "rparent cd = Some p"
    using tree_wfD(3) [OF D(1), of c p] assms(2-4) by (simp add: tree_at)
  then show "\<not> detached cd"
    by (simp add: detached_def)
  show held: "held N1 (vnodes s) w = held (rnodes s) (vnodes s) w" for w
    using held_update [of "rnodes s" p pd ?pd, OF assms(2)] by (simp add: N1)
  show "vnodes_wf N1 (vnodes s)"
    unfolding N1 by (rule vnodes_wf_update [OF D(2) assms(2)]) (use assms(3) in \<open>auto simp: detached_def\<close>)
  show "root_wf N1 (vnodes s) (root_vn s)"
    using root_wf_update [OF D(4) assms(2), of ?pd] by (simp add: N1)
  show "refs_wf N1 (vnodes s) (files s)"
    using D(3) held unfolding refs_wf_def by simp
  show tree: "tree_wf (N1(c \<mapsto> cd\<lparr>rparent := None, vnode_cache := None\<rparr>))"
    using tree_wf_remove [OF D(1) assms(2-5) refl] by (simp add: N1)
  have "tree_wf ((N1(c \<mapsto> cd\<lparr>rparent := None, vnode_cache := None\<rparr>))(c := None))"
    by (rule tree_wf_delete [OF tree]) (use assms(5) in simp_all)
  then show "tree_wf (N1(c := None))"
    by simp
qed

lemma refs_wf_frame:
  assumes "refs_wf N V F" "\<And>w wn. V' w = Some wn \<Longrightarrow> w \<noteq> v \<Longrightarrow> V w = Some wn \<and> held N' V' w = held N V w"
    "\<And>f fl. F f = Some fl \<Longrightarrow> Option.bind (fvn fl) V' \<noteq> None"
    "\<And>vn. V' v = Some vn \<Longrightarrow> refcnt vn \<noteq> 0 \<and> unat (refcnt vn) = of_bool (held N' V' v) + card (openers F v)"
  shows "refs_wf N' V' F"
  unfolding refs_wf_def
proof (intro conjI allI impI)
  note R = refs_wfD [OF assms(1)]
  show "finite (dom F)"
    using R(1) .
  show "refcount fl \<ge> 1" "Option.bind (fvn fl) V' \<noteq> None" if "F f = Some fl" for f fl
    using R(2) [OF that] assms(3) [OF that] by auto
  show "refcnt wn \<noteq> 0" "unat (refcnt wn) = of_bool (held N' V' w) + card (openers F w)" if "V' w = Some wn" for w wn
    using assms(2) [OF that] assms(4) [of wn] R(4,5) [of w wn] that by (cases "w = v"; auto)+
qed

lemma wf_remove_fresh:
  assumes "rfs_wf s" "rnodes s p = Some pd" "rnodes s c = Some cd"
  shows "\<forall>i\<ge>next_id s. ((rnodes s)(p \<mapsto> pd', c := x)) i = None \<and> vnodes s i = None \<and> files s i = None"
  using rfs_wfD(5-7) [OF assms(1)] node_id_less [OF assms(1,2)] node_id_less [OF assms(1,3)] by auto

lemma wf_remove_uncached:
  assumes "rfs_wf s" "rnodes s p = Some pd" "c \<in> set (rchildren pd)" "rnodes s c = Some cd" "rchildren cd = []"
    and N1: "N1 = (rnodes s)(p \<mapsto> pd\<lparr>rchildren := remove1 c (rchildren pd)\<rparr>)"
    and cache: "vnode_cache cd = None"
  shows "rfs_wf (s\<lparr>rnodes := N1(c := None)\<rparr>)"
proof -
  note C = wf_remove_common [OF assms(1-6)]
  have vdata: "vdata wn \<noteq> Some c" if "vnodes s w = Some wn" for w wn
    using vnode_okE [OF vnodes_wfD(2) [OF C(1) that]] C(5,7) cache by (metis option.inject option.distinct(1))
  then have bind: "Option.bind (vnodes s w) vdata \<noteq> Some c" for w
    by (cases "vnodes s w") auto
  have "vnode_ok (N1(c := None)) w wn" if "vnodes s w = Some wn" for w wn
    using vnodes_wfD(2) [OF C(1) that] vdata [OF that] by (cases "vdata wn") (auto simp: vnode_ok_def)
  then have vn: "vnodes_wf (N1(c := None)) (vnodes s)"
    using C(1) unfolding vnodes_wf_def by (auto split: if_splits)
  have held: "held (N1(c := None)) (vnodes s) w = held N1 (vnodes s) w" for w
    using bind [of w] by (auto simp: held_def split: option.splits)
  have "Option.bind (Option.bind x (N1(c := None))) rparent = Option.bind (Option.bind x N1) rparent"
    if "x \<noteq> Some c" for x
    using that by (cases x) auto
  then have "root_wf (N1(c := None)) (vnodes s) (root_vn s)"
    using C(3) held bind unfolding root_wf_def by (simp del: bind_assoc fun_upd_apply)
  moreover have "refs_wf (N1(c := None)) (vnodes s) (files s)"
    using C(4) held unfolding refs_wf_def by simp
  ultimately show ?thesis
    using C(9) vn wf_remove_fresh [OF assms(1,2,4)] by (simp add: rfs_wf_def N1)
qed

lemma wf_remove_cached:
  assumes "rfs_wf s" "rnodes s p = Some pd" "c \<in> set (rchildren pd)" "rnodes s c = Some cd" "rchildren cd = []"
    and N1: "N1 = (rnodes s)(p \<mapsto> pd\<lparr>rchildren := remove1 c (rchildren pd)\<rparr>)"
    and cache: "vnode_cache cd = Some v" and v: "vnodes s v = Some vn"
  shows "vdata vn = Some c" "root_vn s \<noteq> Some v" "unat (refcnt vn) = 1 + card (openers (files s) v)"
proof -
  note C = wf_remove_common [OF assms(1-6)] and R = refs_wfD [OF rfs_wfD(3) [OF assms(1)]]
  show vd: "vdata vn = Some c"
    using vnodes_wfD(1) [OF C(1,5) cache] v by simp
  show "root_vn s \<noteq> Some v"
    using C(3,5,6) v vd by (auto simp: root_wf_def)
  show "unat (refcnt vn) = 1 + card (openers (files s) v)"
    using R(5) [OF v] held_at [of "vnodes s" v vn c N1 cd, OF v vd C(5)] cache C(2) [of v] by simp
qed

lemma wf_remove_unused:
  assumes "rfs_wf s" "rnodes s p = Some pd" "c \<in> set (rchildren pd)" "rnodes s c = Some cd" "rchildren cd = []"
    and N1: "N1 = (rnodes s)(p \<mapsto> pd\<lparr>rchildren := remove1 c (rchildren pd)\<rparr>)"
    and cache: "vnode_cache cd = Some v" and v: "vnodes s v = Some vn" and "refcnt vn = 1"
  shows "rfs_wf (s\<lparr>vnodes := (vnodes s)(v := None), rnodes := N1(c := None)\<rparr>)"
proof -
  note C = wf_remove_common [OF assms(1-6)] and R = refs_wfD [OF rfs_wfD(3) [OF assms(1)]]
    and K = wf_remove_cached [OF assms(1-8)]
  have "openers (files s) v = {}"
    using K(3) assms(9) finite_openers [OF R(1), of v] by simp
  then have nofile: "Option.bind (files s f) fvn \<noteq> Some v" for f
    by (simp add: openers_def)
  have "Option.bind (fvn fl) ((vnodes s)(v := None)) \<noteq> None" if "files s f = Some fl" for f fl
    using R(3) [OF that] nofile [of f] that by (cases "fvn fl") auto
  then have "refs_wf (N1(c := None)) ((vnodes s)(v := None)) (files s)"
    using refs_wf_frame [OF C(4), of "(vnodes s)(v := None)" v] held_drop [OF C(1) v K(1)] by simp
  then show ?thesis
    using C(9) vnodes_wf_drop [OF C(1) v K(1)] root_wf_drop [OF C(3) K(2) C(1) v K(1)]
      wf_remove_fresh [OF assms(1,2,4)]
    by (simp add: rfs_wf_def N1)
qed

lemma wf_remove_open:
  assumes "rfs_wf s" "rnodes s p = Some pd" "c \<in> set (rchildren pd)" "rnodes s c = Some cd" "rchildren cd = []"
    and N1: "N1 = (rnodes s)(p \<mapsto> pd\<lparr>rchildren := remove1 c (rchildren pd)\<rparr>)"
    and cache: "vnode_cache cd = Some v" and v: "vnodes s v = Some vn" and "refcnt vn \<noteq> 1"
    and N: "N = N1(c \<mapsto> cd\<lparr>rparent := None, vnode_cache := None\<rparr>)"
    and V: "V = (vnodes s)(v \<mapsto> vn\<lparr>refcnt := refcnt vn - 1\<rparr>)"
  shows "rfs_wf (s\<lparr>vnodes := V, rnodes := N\<rparr>)"
proof -
  note C = wf_remove_common [OF assms(1-6)] and D = rfs_wfD [OF assms(1)]
    and R = refs_wfD [OF rfs_wfD(3) [OF assms(1)]] and K = wf_remove_cached [OF assms(1-8)]
  have b: "Option.bind (V w) vdata = Option.bind (vnodes s w) vdata" for w
    using v by (simp add: V)
  have other: "Option.bind (vnodes s w) vdata \<noteq> Some c" if "w \<noteq> v" for w
    using vnodes_wfD(3) [OF C(1) v, of w] K(1) that by (cases "vnodes s w") auto
  have held': "held N V w \<longleftrightarrow> w \<noteq> v \<and> held N1 (vnodes s) w" for w
    using other [of w] v K(1) unfolding held_def b by (cases "w = v") (auto simp: N split: option.splits)
  have ok: "vnode_ok N w wn" if "V w = Some wn" for w wn
  proof (cases "w = v")
    case True
    then show ?thesis
      using that K(1) vnodes_wfD(2) [OF C(1) v] C(5) assms(5) by (auto simp: V N vnode_ok_def detached_def)
  next
    case False
    then show ?thesis
      using that vnodes_wfD(2) [OF C(1), of w wn] other [OF False]
      by (cases "vdata wn") (auto simp: V N vnode_ok_def)
  qed
  have vn: "vnodes_wf N V"
    using C(1) ok v unfolding vnodes_wf_def b by (auto simp: N V split: if_splits)
  have "unat (refcnt vn - 1) = card (openers (files s) v)" "refcnt vn - 1 \<noteq> 0"
    using K(3) assms(9) R(4) [OF v] by (auto simp: unat_minus_one)
  moreover have "V v = Some (vn\<lparr>refcnt := refcnt vn - 1\<rparr>)" "V w = Some wn \<Longrightarrow> w \<noteq> v \<Longrightarrow> vnodes s w = Some wn"
    "Option.bind x (vnodes s) \<noteq> None \<Longrightarrow> Option.bind x V \<noteq> None" for w wn x
    using bind_upd_Some [of x "vnodes s"] by (auto simp: V)
  ultimately have "refs_wf N V (files s)"
    using R(3) held' by (intro refs_wf_frame [OF C(4), of V v]) (simp_all split: if_splits)
  moreover have "root_wf N V (root_vn s)"
  proof -
    have "Option.bind (Option.bind x N) rparent = None" if "Option.bind (Option.bind x N1) rparent = None" for x
      using that by (cases x) (auto simp: N)
    then show ?thesis
      using C(3) K(2) held' unfolding root_wf_def b by blast
  qed
  moreover have "\<forall>i\<ge>next_id s. N i = None \<and> V i = None \<and> files s i = None"
    using wf_remove_fresh [OF assms(1,2,4)] D(6) [of v] v by (auto simp: N N1 V)
  ultimately show ?thesis
    using C(8) vn by (simp add: rfs_wf_def N)
qed

subsection \<open>Operations\<close>

abbreviation holds :: "'z rfs_scheme \<Rightarrow> vid \<Rightarrow> bool" where
  "holds s v \<equiv> held (rnodes s) (vnodes s) v"

text \<open>
  What looking up and creating keep: the invariant, the vnodes the tree holds and the set of open files.
\<close>

definition keeps :: "'z rfs_scheme \<Rightarrow> 'z rfs_scheme \<Rightarrow> bool" where
  "keeps s s' \<longleftrightarrow> rfs_wf s' \<and> (\<forall>w. holds s w \<longrightarrow> holds s' w) \<and> dom (files s') = dom (files s)"

lemma keeps_refl [simp]: "rfs_wf s \<Longrightarrow> keeps s s"
  by (simp add: keeps_def)

lemma keeps_trans: "keeps s s1 \<Longrightarrow> keeps s1 s2 \<Longrightarrow> keeps s s2"
  by (simp add: keeps_def)

lemma kmalloc_cases:
  obtains "kmalloc s = (None, s\<lparr>alloc_no := alloc_no s + 1\<rparr>)"
  | "kmalloc s = (Some (next_id s), s\<lparr>alloc_no := alloc_no s + 1, next_id := next_id s + 1\<rparr>)"
  by (cases "alloc_ok s (alloc_no s)") (auto simp: kmalloc_def Let_def)

lemma kmalloc_keeps:
  assumes "rfs_wf s"
  shows "keeps s (snd (kmalloc s))"
  using assms wf_alloc [OF assms, of "next_id s" "alloc_no s + 1"] wf_alloc [OF assms, of "next_id s + 1" "alloc_no s + 1"]
  by (cases s rule: kmalloc_cases) (auto simp: keeps_def)

text \<open>A node in the tree that caches no vnode has none.\<close>

lemma no_vnode:
  assumes "rfs_wf s" "rnodes s n = Some nd" "vnode_cache nd = None" "rparent nd \<noteq> None \<or> rchildren nd \<noteq> []"
    "vnodes s w = Some wn"
  shows "vdata wn \<noteq> Some n"
  using vnodes_wfD(2) [OF rfs_wfD(2) [OF assms(1)] assms(5)] assms(2-4) by (auto simp: vnode_ok_def detached_def)

lemma node_vnode_keeps:
  assumes "rfs_wf s" "rnodes s n = Some nd"
    "\<And>w wn. vnode_cache nd = None \<Longrightarrow> vnodes s w = Some wn \<Longrightarrow> vdata wn \<noteq> Some n"
    and "ramfs_node_vnode mp n s = (out, s')"
  shows "keeps s s' \<and> (\<forall>v. out = Some v \<longrightarrow> holds s' v)"
proof (cases "vnode_cache nd")
  case (Some v)
  then have "Option.bind (vnodes s v) vdata = Some n"
    using vnodes_wfD(1) [OF rfs_wfD(2) [OF assms(1)] assms(2)] by simp
  then have "holds s v"
    using Some assms(2) by (simp add: held_def)
  then show ?thesis
    using Some assms by (auto simp: ramfs_node_vnode_def)
next
  case None
  show ?thesis
  proof (cases s rule: kmalloc_cases)
    case 1
    then have "out = None" "s' = snd (kmalloc s)"
      using assms(2,4) None by (auto simp: ramfs_node_vnode_def vnode_create_def)
    then show ?thesis
      using kmalloc_keeps [OF assms(1)] by simp
  next
    case 2
    define vn where "vn = \<lparr>vtype = rtype nd, refcnt = 1, vmount = mp, vops = Some RAMFS_OPS, vdata = Some n, vexec = None\<rparr>"
    have out: "out = Some (next_id s)"
      and s': "s' = s\<lparr>next_id := next_id s + 1, alloc_no := alloc_no s + 1,
        vnodes := (vnodes s)(next_id s \<mapsto> vn), rnodes := (rnodes s)(n \<mapsto> nd\<lparr>vnode_cache := Some (next_id s)\<rparr>)\<rparr>"
      using assms(2,4) None 2 by (auto simp: ramfs_node_vnode_def vnode_create_def upd_node_def vn_def)
    have "rfs_wf s'" "\<forall>w. holds s' w \<longleftrightarrow> w = next_id s \<or> holds s w"
      using wf_new_vnode [OF assms(1,2) None assms(3) [OF None] order_refl less_add_one s' [unfolded vn_def]] by auto
    then show ?thesis
      using out by (simp add: keeps_def s')
  qed
qed

lemma heldD:
  assumes "rfs_wf s" "holds s v"
  obtains vn n nd where "vnodes s v = Some vn" "vdata vn = Some n" "rnodes s n = Some nd" "vnode_cache nd = Some v"
    "vtype vn = rtype nd" "vops vn = Some RAMFS_OPS" "node_of s vn = Some (n, nd)"
proof -
  obtain vn n nd where 1: "vnodes s v = Some vn" "vdata vn = Some n" "rnodes s n = Some nd" "vnode_cache nd = Some v"
    using heldE [OF assms(2)] .
  moreover have "vtype vn = rtype nd" "vops vn = Some RAMFS_OPS"
    using vnodes_wfD(2) [OF rfs_wfD(2) [OF assms(1)] 1(1)] 1 by (auto simp: vnode_ok_def)
  ultimately show ?thesis
    using that by (simp add: node_of_def)
qed

lemma find_child_Some:
  assumes "ramfs_find_child s nd name = Some c"
  shows "c \<in> set (rchildren nd)" "nm (rnodes s) c = Some name"
  using assms by (auto simp: ramfs_find_child_def find_Some_iff nm_def)

lemma find_child_None: "ramfs_find_child s nd name = None \<longleftrightarrow> Some name \<notin> nm (rnodes s) ` set (rchildren nd)"
  unfolding ramfs_find_child_def find_None_iff nm_def image_iff by metis

lemma child_node:
  assumes "rfs_wf s" "rnodes s n = Some nd" "c \<in> set (rchildren nd)"
  obtains cd where "rnodes s c = Some cd" "rparent cd = Some n"
  using tree_wfD(3) [OF rfs_wfD(1) [OF assms(1)], of c n] assms(2,3) that
  by (auto simp: tree_at par_def bind_eq_Some_conv)

lemma lookup_keeps:
  assumes "rfs_wf s" "holds s dir" "ramfs_lookup_vn dir name s = (r, out, s')"
  shows "keeps s s' \<and> (\<forall>v. out = Some v \<longrightarrow> holds s' v) \<and> (r = err ERR_SUCCESS \<longrightarrow> out \<noteq> None)"
proof -
  obtain vn n nd where d: "vnodes s dir = Some vn" "rnodes s n = Some nd" "vnode_cache nd = Some dir"
      "node_of s vn = Some (n, nd)"
    using heldD [OF assms(1,2)] by metis
  let ?p = "case rparent nd of None \<Rightarrow> n | Some p \<Rightarrow> p"
  have up: "\<exists>pd. rnodes s ?p = Some pd \<and> (vnode_cache pd \<noteq> None \<or> rparent pd \<noteq> None \<or> rchildren pd \<noteq> [])"
  proof (cases "rparent nd")
    case (Some p)
    then have "n \<in> set (kids (rnodes s) p)"
      using tree_wfD(3) [OF rfs_wfD(1) [OF assms(1)], of n p] d(2) by (simp add: tree_at)
    then show ?thesis
      using Some by (cases "rnodes s p") (auto simp: kids_def)
  qed (use d in auto)
  have go: "keeps s s2 \<and> (\<forall>v. o2 = Some v \<longrightarrow> holds s2 v)"
    if "ramfs_node_vnode mp m s = (o2, s2)" "rnodes s m = Some md"
      "vnode_cache md \<noteq> None \<or> rparent md \<noteq> None \<or> rchildren md \<noteq> []" for mp m o2 s2 md
    by (rule node_vnode_keeps [OF assms(1) that(2) _ that(1)]) (use no_vnode [OF assms(1) that(2)] that(3) in auto)
  have kid: "\<exists>cd. rnodes s c = Some cd \<and> rparent cd \<noteq> None" if "ramfs_find_child s nd name = Some c" for c
    using child_node [OF assms(1) d(2) find_child_Some(1) [OF that]] by (metis option.distinct(1))
  have "s' = s \<and> (out = Some dir \<or> out = None \<and> r \<noteq> err ERR_SUCCESS)
      \<or> (\<exists>mp m. ramfs_node_vnode mp m s = (out, s') \<and> r = code_of_vnode out \<and>
           (m = ?p \<or> ramfs_find_child s nd name = Some m))"
    using assms(3) d
    by (auto simp: ramfs_lookup_vn_def split: if_splits option.splits prod.splits)
  then show ?thesis
  proof (elim disjE exE conjE)
    fix mp m
    assume a: "ramfs_node_vnode mp m s = (out, s')" "r = code_of_vnode out" "m = ?p"
    obtain pd where "rnodes s ?p = Some pd" "vnode_cache pd \<noteq> None \<or> rparent pd \<noteq> None \<or> rchildren pd \<noteq> []"
      using up by blast
    then show ?thesis
      using go [of mp m] a by (simp add: code_of_vnode_def)
  next
    fix mp m
    assume a: "ramfs_node_vnode mp m s = (out, s')" "r = code_of_vnode out" "ramfs_find_child s nd name = Some m"
    then obtain cd where "rnodes s m = Some cd" "rparent cd \<noteq> None"
      using kid by blast
    then show ?thesis
      using go [of mp m] a by (simp add: code_of_vnode_def)
  qed (use assms in auto)
qed

definition fresh_node :: "string \<Rightarrow> vnode_type \<Rightarrow> nid \<Rightarrow> rnode" where
  "fresh_node name type p = \<lparr>rname = name, rtype = type, vnode_cache = None, rparent = Some p, rchildren = [],
     rdata = [], rsize = 0, rcapacity = 0, dev_read = None, dev_write = None\<rparr>"

definition valid_name :: "string \<Rightarrow> bool" where
  "valid_name name \<longleftrightarrow> name \<noteq> [] \<and> slash \<notin> set name \<and> name \<noteq> ''.'' \<and> name \<noteq> ''..''"

definition creatable :: "vnode_type \<Rightarrow> bool" where
  "creatable type \<longleftrightarrow> type \<in> {VNODE_TYPE_FILE, VNODE_TYPE_DIR, VNODE_TYPE_DEV, VNODE_TYPE_EXEC}"

text \<open>The state after a successful creation in the directory \<open>p\<close>.\<close>

definition created :: "'z rfs_scheme \<Rightarrow> nat option \<Rightarrow> string \<Rightarrow> vnode_type \<Rightarrow> nid \<Rightarrow> rnode \<Rightarrow> 'z rfs_scheme" where
  "created s mp name type p pd =
     (let c = next_id s; v = next_id s + 2 in
      s\<lparr>next_id := next_id s + 3, alloc_no := alloc_no s + 3,
        vnodes := (vnodes s)(v \<mapsto> \<lparr>vtype = type, refcnt = 1, vmount = mp, vops = Some RAMFS_OPS, vdata = Some c, vexec = None\<rparr>),
        rnodes := (rnodes s)(c \<mapsto> (fresh_node name type p)\<lparr>vnode_cache := Some v\<rparr>,
                             p \<mapsto> pd\<lparr>rchildren := c # rchildren pd\<rparr>)\<rparr>)"

lemma create_cases:
  assumes "vnodes s dir = Some vn" "vtype vn = VNODE_TYPE_DIR" "node_of s vn = Some (p, pd)"
    "next_id s \<noteq> p" "rnodes s (next_id s) = None"
  shows "ramfs_create_vn dir name type s =
    (if \<not> valid_name name then (err ERR_INVALID_ARGUMENT, None, s)
     else if \<not> creatable type then (err ERR_NOT_SUPPORTED, None, s)
     else if ramfs_find_child s pd name \<noteq> None then (err ERR_ALREADY_EXISTS, None, s)
     else if \<not> alloc_ok s (alloc_no s) then (err ERR_OUT_OF_MEMORY, None, s\<lparr>alloc_no := alloc_no s + 1\<rparr>)
     else if \<not> alloc_ok s (alloc_no s + 1)
     then (err ERR_OUT_OF_MEMORY, None, s\<lparr>alloc_no := alloc_no s + 2, next_id := next_id s + 1\<rparr>)
     else if \<not> alloc_ok s (alloc_no s + 2)
     then (err ERR_OUT_OF_MEMORY, None, s\<lparr>alloc_no := alloc_no s + 3, next_id := next_id s + 2\<rparr>)
     else (err ERR_SUCCESS, Some (next_id s + 2), created s (vmount vn) name type p pd))"
proof -
  have p: "rnodes s p = Some pd"
    using assms(3) by (auto simp: node_of_def bind_eq_Some_conv)
  have undo: "(rnodes s)(next_id s := None) = rnodes s"
    using assms(5) by (simp add: fun_upd_idem)
  show ?thesis
    using assms(1-4) p undo
    by (auto simp: ramfs_create_vn_def valid_name_def creatable_def ramfs_node_create_def ramfs_node_vnode_def
        vnode_create_def kmalloc_def Let_def upd_node_def ramfs_node_release_def ramfs_node_free_def created_def
        fresh_node_def fun_upd_twist)
qed

lemma created_keeps:
  assumes "rfs_wf s" "rnodes s p = Some pd" "vnode_cache pd \<noteq> None" "rtype pd = VNODE_TYPE_DIR"
    "ramfs_find_child s pd name = None"
  shows "keeps s (created s mp name type p pd) \<and> holds (created s mp name type p pd) (next_id s + 2)"
proof -
  let ?c = "next_id s" and ?s = "created s mp name type p pd"
  define s1 where "s1 = s\<lparr>next_id := next_id s + 2, alloc_no := alloc_no s + 2,
    rnodes := (rnodes s)(?c \<mapsto> fresh_node name type p, p \<mapsto> pd\<lparr>rchildren := ?c # rchildren pd\<rparr>)\<rparr>"
  have cp: "?c \<noteq> p"
    using node_id_less [OF assms(1,2)] by simp
  have "Some (rname (fresh_node name type p)) \<notin> nm (rnodes s) ` set (rchildren pd)"
    using assms(5) by (simp add: find_child_None fresh_node_def)
  then have s1: "rfs_wf s1" "\<forall>w. holds s1 w \<longleftrightarrow> holds s w"
    using wf_insert_node [OF assms(1,2,4,3) order_refl _ _ _ _ _ _ s1_def]
    by (simp_all add: fresh_node_def data_wf_def)
  have c1: "rnodes s1 ?c = Some (fresh_node name type p)" "vnode_cache (fresh_node name type p) = None"
    using cp by (auto simp: s1_def fresh_node_def)
  have nov: "vdata wn \<noteq> Some ?c" if "vnodes s1 w = Some wn" for w wn
    by (rule no_vnode [OF s1(1) c1 _ that]) (simp add: fresh_node_def)
  have "?s = s1\<lparr>next_id := next_id s + 3, alloc_no := alloc_no s + 3,
      vnodes := (vnodes s1)(next_id s + 2 \<mapsto> \<lparr>vtype = rtype (fresh_node name type p), refcnt = 1, vmount = mp,
        vops = Some RAMFS_OPS, vdata = Some ?c, vexec = None\<rparr>),
      rnodes := (rnodes s1)(?c \<mapsto> (fresh_node name type p)\<lparr>vnode_cache := Some (next_id s + 2)\<rparr>)\<rparr>"
    using cp by (simp add: created_def s1_def Let_def fun_upd_twist fresh_node_def)
  then have "rfs_wf ?s" "\<forall>w. holds ?s w \<longleftrightarrow> w = next_id s + 2 \<or> holds s1 w"
    using wf_new_vnode [OF s1(1) c1 nov, where v = "next_id s + 2" and i = "next_id s + 3" and s' = ?s
        and a = "alloc_no s + 3" and mp = mp]
    by (simp_all add: s1_def)
  then show ?thesis
    using s1(2) by (simp add: keeps_def created_def Let_def)
qed

lemma create_keeps:
  assumes "rfs_wf s" "holds s dir" "ramfs_create_vn dir name type s = (r, out, s')"
  shows "keeps s s' \<and> (\<forall>v. out = Some v \<longrightarrow> holds s' v) \<and> (r = err ERR_SUCCESS \<longrightarrow> out \<noteq> None)"
proof -
  obtain vn p pd where d: "vnodes s dir = Some vn" "rnodes s p = Some pd" "vnode_cache pd = Some dir"
      "node_of s vn = Some (p, pd)" "vtype vn = rtype pd"
    using heldD [OF assms(1,2)] by metis
  show ?thesis
  proof (cases "vtype vn = VNODE_TYPE_DIR")
    case True
    have "next_id s \<noteq> p" "rnodes s (next_id s) = None"
      using node_id_less [OF assms(1) d(2)] rfs_wfD(5) [OF assms(1)] by auto
    note C = create_cases [OF d(1) True d(4) this, of name type]
    have k: "keeps s (s\<lparr>alloc_no := a, next_id := i\<rparr>)" if "next_id s \<le> i" for a i
      using wf_alloc [OF assms(1) that] by (simp add: keeps_def)
    show ?thesis
      using assms(3) C k [of "next_id s" "alloc_no s + 1"] k [of "next_id s + 1"] k [of "next_id s + 2"] assms(1)
        created_keeps [OF assms(1) d(2)] d(3,5) True
      by (auto split: if_splits)
  next
    case False
    then show ?thesis
      using assms d(1) by (auto simp: ramfs_create_vn_def)
  qed
qed

text \<open>Dropping a reference of a ramfs vnode; the last one frees the vnode and its node.\<close>

lemma unref_effect:
  assumes "op_destroy (tbl RAMFS_OPS) = Some ramfs_destroy_vnode" "vnodes s v = Some vn" "vops vn = Some RAMFS_OPS"
    "vdata vn = Some n" "refcnt vn \<noteq> 0"
  shows "vnode_unref tbl (Some v) s =
    (if refcnt vn = 1 then s\<lparr>vnodes := (vnodes s)(v := None), rnodes := (rnodes s)(n := None)\<rparr>
     else s\<lparr>vnodes := (vnodes s)(v \<mapsto> vn\<lparr>refcnt := refcnt vn - 1\<rparr>)\<rparr>)"
  using assms
  by (auto simp: vnode_unref_def vop_def Let_def ramfs_destroy_vnode_def ramfs_node_free_def upd_node_def)

lemma release_effect:
  assumes "rnodes s c = Some cd" "vnode_cache cd = Some v" "vnodes s v = Some vn" "vops vn = Some RAMFS_OPS"
    "vdata vn = Some c" "refcnt vn \<noteq> 0"
  shows "ramfs_node_release c s =
    (if refcnt vn = 1 then s\<lparr>vnodes := (vnodes s)(v := None), rnodes := (rnodes s)(c := None)\<rparr>
     else s\<lparr>vnodes := (vnodes s)(v \<mapsto> vn\<lparr>refcnt := refcnt vn - 1\<rparr>),
            rnodes := (rnodes s)(c \<mapsto> cd\<lparr>vnode_cache := None\<rparr>)\<rparr>)"
  using assms unref_effect [of ramfs_destroy_tbl "upd_node c (\<lambda>x. x\<lparr>vnode_cache := None\<rparr>) s" v vn c]
  by (simp add: ramfs_node_release_def ramfs_destroy_tbl_def upd_node_def)

text \<open>The outcome of \<open>ramfs_unlink_vn\<close> for a directory the tree holds.\<close>

lemma unlink_cases:
  assumes "rfs_wf s" "holds s dir" "ramfs_unlink_vn dir name s = (r, s')" "r = err ERR_SUCCESS"
  obtains vn p pd c cd where "vnodes s dir = Some vn" "node_of s vn = Some (p, pd)" "rnodes s p = Some pd"
    "ramfs_find_child s pd name = Some c" "rnodes s c = Some cd" "rchildren cd = []" "name \<noteq> ''.''" "name \<noteq> ''..''"
    "s' = ramfs_node_release c (s\<lparr>rnodes := (rnodes s)(p \<mapsto> pd\<lparr>rchildren := remove1 c (rchildren pd)\<rparr>,
       c \<mapsto> cd\<lparr>rparent := None\<rparr>)\<rparr>)"
proof -
  obtain vn p pd where d: "vnodes s dir = Some vn" "rnodes s p = Some pd" "node_of s vn = Some (p, pd)"
    using heldD [OF assms(1,2)] by metis
  obtain c cd where c: "ramfs_find_child s pd name = Some c" "rnodes s c = Some cd" "name \<noteq> ''.''" "name \<noteq> ''..''"
      "\<not> (rtype cd = VNODE_TYPE_DIR \<and> rchildren cd \<noteq> [])"
      "s' = ramfs_node_release c (upd_node c (\<lambda>x. x\<lparr>rparent := None\<rparr>)
         (upd_node p (\<lambda>x. x\<lparr>rchildren := remove1 c (rchildren x)\<rparr>) s))"
    using assms(3,4) d
    by (auto simp: ramfs_unlink_vn_def Let_def split: if_splits option.splits)
  have kids: "rchildren cd = []"
    using tree_wfD(2) [OF rfs_wfD(1) [OF assms(1)] c(2)] c(5) by blast
  have "c \<noteq> p"
    using find_child_Some(1) [OF c(1)] kids c(2) d(2) by auto
  then show ?thesis
    using that [OF d(1,3,2) c(1,2) kids c(3,4)] c(6) d(2) c(2) by (simp add: upd_node_def)
qed

lemma unlink_wf:
  assumes "rfs_wf s" "holds s dir" "ramfs_unlink_vn dir name s = (r, s')"
  shows "rfs_wf s'"
proof (cases "r = err ERR_SUCCESS")
  case False
  obtain vn p pd where d: "vnodes s dir = Some vn" "rnodes s p = Some pd" "node_of s vn = Some (p, pd)"
    using heldD [OF assms(1,2)] by metis
  have "s' = s"
    using assms(3) d False by (auto simp: ramfs_unlink_vn_def Let_def split: if_splits option.splits)
  then show ?thesis
    using assms(1) by simp
next
  case True
  obtain p pd c cd where u: "rnodes s p = Some pd" "ramfs_find_child s pd name = Some c" "rnodes s c = Some cd"
      "rchildren cd = []" and s': "s' = ramfs_node_release c (s\<lparr>rnodes := (rnodes s)(p \<mapsto> pd\<lparr>rchildren := remove1 c (rchildren pd)\<rparr>,
       c \<mapsto> cd\<lparr>rparent := None\<rparr>)\<rparr>)" (is "_ = ramfs_node_release c ?s1")
    using unlink_cases [OF assms True] by metis
  let ?N1 = "(rnodes s)(p \<mapsto> pd\<lparr>rchildren := remove1 c (rchildren pd)\<rparr>)"
  note ch = find_child_Some(1) [OF u(2)]
  show ?thesis
  proof (cases "vnode_cache cd")
    case None
    then have "s' = s\<lparr>rnodes := ?N1(c := None)\<rparr>"
      by (simp add: s' ramfs_node_release_def ramfs_node_free_def)
    then show ?thesis
      using wf_remove_uncached [OF assms(1) u(1) ch u(3,4) refl None] by simp
  next
    case (Some v)
    obtain vn where v: "vnodes s v = Some vn" "vdata vn = Some c"
      using vnodes_wfD(1) [OF rfs_wfD(2) [OF assms(1)] u(3) Some] by (auto simp: bind_eq_Some_conv)
    have ok: "vops vn = Some RAMFS_OPS" "refcnt vn \<noteq> 0"
      using vnodes_wfD(2) [OF rfs_wfD(2) [OF assms(1)] v(1)] refs_wfD(4) [OF rfs_wfD(3) [OF assms(1)] v(1)]
      by (auto simp: vnode_ok_def)
    have "s' = (if refcnt vn = 1 then s\<lparr>vnodes := (vnodes s)(v := None), rnodes := ?N1(c := None)\<rparr>
       else s\<lparr>vnodes := (vnodes s)(v \<mapsto> vn\<lparr>refcnt := refcnt vn - 1\<rparr>),
         rnodes := ?N1(c \<mapsto> cd\<lparr>rparent := None, vnode_cache := None\<rparr>)\<rparr>)"
      using release_effect [of ?s1 c "cd\<lparr>rparent := None\<rparr>" v vn] Some v ok by (simp add: s')
    then show ?thesis
      using wf_remove_unused [OF assms(1) u(1) ch u(3,4) refl Some v(1)]
        wf_remove_open [OF assms(1) u(1) ch u(3,4) refl Some v(1) _ refl refl] by simp
  qed
qed

lemma vnode_live:
  assumes "rfs_wf s" "files s f = Some fl"
  obtains v vn n where "fvn fl = Some v" "vnodes s v = Some vn" "vops vn = Some RAMFS_OPS" "vdata vn = Some n"
    "refcnt vn \<noteq> 0"
proof -
  obtain v vn where v: "fvn fl = Some v" "vnodes s v = Some vn"
    using refs_wfD(3) [OF rfs_wfD(3) [OF assms(1)] assms(2)] by (auto simp: bind_eq_Some_conv)
  then show ?thesis
    using that vnode_okE [OF vnodes_wfD(2) [OF rfs_wfD(2) [OF assms(1)] v(2)]]
      refs_wfD(4) [OF rfs_wfD(3) [OF assms(1)] v(2)] by metis
qed

text \<open>Changing an open file that stays on its vnode.\<close>

lemma file_update_wf:
  assumes "rfs_wf s" "files s f = Some x" "refcount y \<ge> 1" "fvn y = fvn x"
  shows "rfs_wf (s\<lparr>files := (files s)(f \<mapsto> y)\<rparr>)"
proof -
  have "openers ((files s)(f \<mapsto> y)) v = openers (files s) v" for v
    using assms(2,4) by (auto simp: openers_def)
  moreover have "f < next_id s"
    using rfs_wfD(7) [OF assms(1), of f] assms(2) by (cases "next_id s \<le> f") auto
  moreover have "Option.bind (fvn y) (vnodes s) \<noteq> None"
    using refs_wfD(3) [OF rfs_wfD(3) [OF assms(1)] assms(2)] assms(4) by simp
  ultimately show ?thesis
    using rfs_wfD [OF assms(1)] refs_wfD [OF rfs_wfD(3) [OF assms(1)]] assms(3)
    by (auto simp: rfs_wf_def refs_wf_def)
qed

lemma close_wf:
  assumes "rfs_wf s" "op_destroy (tbl RAMFS_OPS) = Some ramfs_destroy_vnode"
  shows "rfs_wf (snd (vfs_close tbl fp s))"
proof (cases "Option.bind fp (files s)")
  case None
  then show ?thesis
    using assms(1) by (auto simp: vfs_close_def split: option.splits)
next
  case (Some fl)
  then obtain f where f: "fp = Some f" "files s f = Some fl"
    by (auto simp: bind_eq_Some_conv)
  obtain v vn n where v: "fvn fl = Some v" "vnodes s v = Some vn" "vops vn = Some RAMFS_OPS" "vdata vn = Some n"
      "refcnt vn \<noteq> 0"
    using vnode_live [OF assms(1) f(2)] .
  show ?thesis
    using file_update_wf [OF assms(1) f(2), of "fl\<lparr>refcount := refcount fl - 1\<rparr>"] f
      wf_close_file_last [OF assms(1) f(2) v(1,2) _ v(4) refl] wf_close_file_shared [OF assms(1) f(2) v(1,2) _ refl]
      unref_effect [where tbl = tbl and s = s, OF assms(2) v(2-5)] v(1)
    by (simp add: vfs_close_def upd_file_def Let_def)
qed

end
