(* ===== verification/Vnode_Fs.thy ===== *)
theory Vnode_Fs
  imports Vfs
begin

text \<open>
  The contract between the calls of the virtual file system and a file system: what the vnode operations
  must keep so that every call of \<^verbatim>\<open>vfs.c\<close>, \<^verbatim>\<open>file.c\<close> and \<^verbatim>\<open>ref.c\<close> keeps the invariant of the file system. The calls
  themselves are collected in a datatype, so that the result holds for every sequence of them.
\<close>

section \<open>Sequences of calls\<close>

datatype fcall =
    Open string u32
  | Close fid
  | Ref fid
  | Unref fid
  | Mkdir string
  | Unlink string
  | Create_exec string nat
  | Stat string
  | Read fid usize
  | Write fid "u8 list"
  | Seek fid usize

definition stat0 :: vfs_stat where
  "stat0 = \<lparr>st_type = VNODE_TYPE_NONE, st_size = 0, st_capacity = 0, st_mode = 0, st_uid = 0, st_gid = 0,
     st_atime = 0, st_mtime = 0, st_ctime = 0\<rparr>"

fun run_call :: "(nat \<Rightarrow> 'z kfs_scheme vnode_ops) \<Rightarrow> fcall \<Rightarrow> 'z kfs_scheme \<Rightarrow> 'z kfs_scheme" where
  "run_call tbl (Open p fl) s = snd (snd (vfs_open tbl (Some p) fl (Some None) s))"
| "run_call tbl (Close f) s = snd (vfs_close tbl (Some f) s)"
| "run_call tbl (Ref f) s = file_ref (Some f) s"
| "run_call tbl (Unref f) s = file_unref tbl (Some f) s"
| "run_call tbl (Mkdir p) s = snd (vfs_mkdir tbl (Some p) s)"
| "run_call tbl (Unlink p) s = snd (vfs_unlink tbl (Some p) s)"
| "run_call tbl (Create_exec p fn) s = snd (vfs_create_exec tbl (Some p) (Some fn) s)"
| "run_call tbl (Stat p) s = snd (snd (vfs_stat_path tbl (Some p) (Some stat0) s))"
| "run_call tbl (Read f len) s = snd (snd (snd (vfs_read tbl (Some f) True len s)))"
| "run_call tbl (Write f bs) s = snd (snd (vfs_write tbl (Some f) (Some bs) (of_nat (length bs)) s))"
| "run_call tbl (Seek f off) s = snd (vfs_seek (Some f) off s)"

definition run_calls :: "(nat \<Rightarrow> 'z kfs_scheme vnode_ops) \<Rightarrow> fcall list \<Rightarrow> 'z kfs_scheme \<Rightarrow> 'z kfs_scheme" where
  "run_calls tbl cs s = fold (run_call tbl) cs s"

section \<open>The contract\<close>

text \<open>
  \<open>inv\<close> is the invariant, \<open>hold s v\<close> says that the file system itself keeps the vnode \<open>v\<close>, so that the calls
  may use it without a reference of their own, \<open>keep s s'\<close> that \<open>s'\<close> arises from \<open>s\<close> without losing such a
  vnode or changing the open files, and \<open>room k s\<close> that \<open>k\<close> more files can be opened before a
  reference count would overflow.
\<close>

locale vnode_fs =
  fixes tbl :: "nat \<Rightarrow> 'z kfs_scheme vnode_ops"
    and inv :: "'z kfs_scheme \<Rightarrow> bool"
    and hold :: "'z kfs_scheme \<Rightarrow> vid \<Rightarrow> bool"
    and keep :: "'z kfs_scheme \<Rightarrow> 'z kfs_scheme \<Rightarrow> bool"
    and room :: "nat \<Rightarrow> 'z kfs_scheme \<Rightarrow> bool"
  assumes keep_refl: "inv s \<Longrightarrow> keep s s"
    and keep_trans: "keep s s1 \<Longrightarrow> keep s1 s2 \<Longrightarrow> keep s s2"
    and keep_inv: "keep s s' \<Longrightarrow> inv s'"
    and keep_hold: "keep s s' \<Longrightarrow> hold s v \<Longrightarrow> hold s' v"
    and keep_room: "keep s s' \<Longrightarrow> room k s \<Longrightarrow> room k s'"
    and room_less: "room (Suc k) s \<Longrightarrow> room k s"
    and root_hold: "inv s \<Longrightarrow> root_vn s = Some v \<Longrightarrow> hold s v"
    and kmalloc_keep: "inv s \<Longrightarrow> keep s (snd (kmalloc s))"
    and lookup_keep: "inv s \<Longrightarrow> hold s d \<Longrightarrow> parent_op tbl op_lookup d s = Some lookup \<Longrightarrow>
      lookup d name s = (r, out, s') \<Longrightarrow> keep s s' \<and> (\<forall>v. out = Some v \<longrightarrow> hold s' v)"
    and create_keep: "inv s \<Longrightarrow> hold s d \<Longrightarrow> parent_op tbl op_create d s = Some create \<Longrightarrow>
      create d name type s = (r, out, s') \<Longrightarrow> keep s s' \<and> (\<forall>v. out = Some v \<longrightarrow> hold s' v)"
    and unlink_inv: "inv s \<Longrightarrow> hold s d \<Longrightarrow> parent_op tbl op_unlink d s = Some unlink \<Longrightarrow>
      unlink d name s = (r, s') \<Longrightarrow> inv s' \<and> (\<forall>k. room k s \<longrightarrow> room k s')"
    and exec_inv: "inv s \<Longrightarrow> hold s v \<Longrightarrow>
      keep s (s\<lparr>vnodes := (vnodes s)(v := map_option (\<lambda>x. x\<lparr>vexec := fn\<rparr>) (vnodes s v))\<rparr>)"
    and open_inv: "inv s \<Longrightarrow> hold s v \<Longrightarrow> room (Suc k) s \<Longrightarrow>
      inv (snd (make_file fl v s)) \<and> room k (snd (make_file fl v s))"
    and close_inv: "inv s \<Longrightarrow> inv (snd (vfs_close tbl fp s)) \<and> (room k s \<longrightarrow> room k (snd (vfs_close tbl fp s)))"
    and count_keep: "inv s \<Longrightarrow> files s f = Some x \<Longrightarrow> refcount y \<ge> 1 \<Longrightarrow> fvn y = fvn x \<Longrightarrow>
      keep s (s\<lparr>files := (files s)(f \<mapsto> y)\<rparr>)"
    and count_pos: "inv s \<Longrightarrow> files s f = Some x \<Longrightarrow> refcount x \<ge> 1"
    and read_keep: "inv s \<Longrightarrow> files s f = Some x \<Longrightarrow> fvn x = Some v \<Longrightarrow> parent_op tbl op_read v s = Some rd \<Longrightarrow>
      rd v True off len s = (r, bs, s') \<Longrightarrow> keep s s'"
    and write_keep: "inv s \<Longrightarrow> files s f = Some x \<Longrightarrow> fvn x = Some v \<Longrightarrow> parent_op tbl op_write v s = Some wr \<Longrightarrow>
      wr v (Some bs) off (of_nat (length bs)) s = (r, n, s') \<Longrightarrow> keep s s'"
begin

lemma component_keep:
  assumes "inv s" "hold s d" "vfs_lookup_component tbl (Some d) name s = (r, out, s')"
  shows "keep s s' \<and> (\<forall>v. out = Some v \<longrightarrow> hold s' v)"
proof (cases "parent_op tbl op_lookup d s")
  case None
  then show ?thesis
    using assms keep_refl
    by (auto simp: vfs_lookup_component_def parent_op_def split: option.splits if_splits)
next
  case (Some lookup)
  then obtain vn where vn: "vnodes s d = Some vn" "vop tbl op_lookup vn = Some lookup"
    by (auto simp: parent_op_def bind_eq_Some_conv)
  show ?thesis
    using assms keep_refl vn lookup_keep [OF assms(1,2) Some, of name r out s']
    by (auto simp: vfs_lookup_component_def split: if_splits)
qed

lemma lookup_loop_keep:
  assumes "inv s" "hold s cur" "lookup_loop tbl cursor cur s = (r, out, s')"
  shows "keep s s' \<and> (\<forall>v. out = Some v \<longrightarrow> hold s' v)"
  using assms
proof (induction "length cursor" arbitrary: cursor cur s rule: less_induct)
  case less
  obtain q cursor' name has hm where n: "vfs_next_component cursor = (q, cursor', name, has, hm)"
    by (metis prod_cases5)
  obtain q2 nxt s2 where c: "vfs_lookup_component tbl (Some cur) name s = (q2, nxt, s2)"
    by (metis prod_cases3)
  have k: "keep s s2" "\<And>v. nxt = Some v \<Longrightarrow> hold s2 v"
    using component_keep [OF less(2,3) c] by auto
  show ?case
  proof (cases "q = err ERR_SUCCESS \<and> has \<and> q2 = err ERR_SUCCESS \<and> nxt \<noteq> None")
    case True
    then obtain v where v: "nxt = Some v"
      by auto
    have "length cursor' < length cursor"
      using next_component_shorter [of cursor q cursor' name hm] n True by simp
    moreover have "lookup_loop tbl cursor' v s2 = (r, out, s')"
      using less(4) n c True v by (subst (asm) lookup_loop.simps) simp
    ultimately have "keep s2 s' \<and> (\<forall>v. out = Some v \<longrightarrow> hold s' v)"
      using less(1) keep_inv [OF k(1)] k(2) [OF v] by blast
    then show ?thesis
      using keep_trans [OF k(1)] by blast
  next
    case False
    then show ?thesis
      using less(2-4) n c k keep_refl [OF less(2)]
      by (subst (asm) lookup_loop.simps) (auto split: if_splits option.splits)
  qed
qed

lemma vfs_lookup_keep:
  assumes "inv s" "vfs_lookup tbl path out0 s = (r, out, s')"
  shows "keep s s' \<and> (\<forall>v. out0 = Some None \<longrightarrow> out = Some (Some v) \<longrightarrow> hold s' v)"
proof (cases "path = None \<or> path = Some [] \<or> out0 = None \<or> root_vn s = None")
  case True
  then show ?thesis
    using assms keep_refl by (auto simp: vfs_lookup_def split: if_splits)
next
  case False
  then obtain root where root: "root_vn s = Some root"
    by auto
  obtain q cur s1 where l: "lookup_loop tbl (the path) root s = (q, cur, s1)"
    by (metis prod_cases3)
  show ?thesis
    using lookup_loop_keep [OF assms(1) root_hold [OF assms(1) root] l] assms(2) False root l
    by (auto simp: vfs_lookup_def split: if_splits)
qed

lemma parent_loop_keep:
  assumes "inv s" "hold s cur" "parent_loop tbl cursor cur s = (r, res, s')"
  shows "keep s s' \<and> (\<forall>p leaf. res = Some (p, leaf) \<longrightarrow> hold s' p)"
  using assms
proof (induction "length cursor" arbitrary: cursor cur s rule: less_induct)
  case less
  obtain q cursor' name has hm where n: "vfs_next_component cursor = (q, cursor', name, has, hm)"
    by (metis prod_cases5)
  obtain q2 nxt s2 where c: "vfs_lookup_component tbl (Some cur) name s = (q2, nxt, s2)"
    by (metis prod_cases3)
  obtain m s3 where m: "kmalloc s = (m, s3)"
    by fastforce
  have k: "keep s s2" "\<And>v. nxt = Some v \<Longrightarrow> hold s2 v" "keep s s3"
    using component_keep [OF less(2,3) c] kmalloc_keep [OF less(2)] m by auto
  show ?case
  proof (cases "q = err ERR_SUCCESS \<and> has \<and> hm \<and> q2 = err ERR_SUCCESS \<and> nxt \<noteq> None")
    case True
    then obtain v where v: "nxt = Some v"
      by auto
    have "length cursor' < length cursor"
      using next_component_shorter [of cursor q cursor' name hm] n True by simp
    moreover have "parent_loop tbl cursor' v s2 = (r, res, s')"
      using less(4) n c True v by (subst (asm) parent_loop.simps) simp
    ultimately have "keep s2 s' \<and> (\<forall>p leaf. res = Some (p, leaf) \<longrightarrow> hold s' p)"
      using less(1) keep_inv [OF k(1)] k(2) [OF v] by blast
    then show ?thesis
      using keep_trans [OF k(1)] by blast
  next
    case False
    then show ?thesis
      using less(2-4) n c m k keep_refl [OF less(2)] keep_hold [OF k(3) less(3)]
      by (subst (asm) parent_loop.simps) (auto split: if_splits option.splits)
  qed
qed

lemma parent_path_keep:
  assumes "inv s" "vfs_resolve_parent_path tbl path s = (r, res, s')"
  shows "keep s s' \<and> (\<forall>p leaf. res = Some (p, leaf) \<longrightarrow> hold s' p)"
  using assms keep_refl [OF assms(1)] parent_loop_keep [OF assms(1) root_hold [OF assms(1)], of _ "the path" r res s']
  by (auto simp: vfs_resolve_parent_path_def split: if_splits option.splits)

text \<open>Each call.\<close>

lemma create_at_keep:
  assumes "inv s" "vfs_resolve_parent_path tbl path s = (r, Some (p, leaf), s1)"
    "parent_op tbl op_create p s1 = Some create" "create p leaf type s1 = (r2, out, s2)"
  shows "keep s s2 \<and> (\<forall>v. out = Some v \<longrightarrow> hold s2 v)"
  using parent_path_keep [OF assms(1,2)] create_keep [OF keep_inv _ assms(3,4)] keep_trans by blast

lemma find_or_create_keep:
  assumes "inv s" "find_or_create tbl path fl s = (r, out, s')"
  shows "keep s s' \<and> (\<forall>v. out = Some v \<longrightarrow> hold s' v)"
proof -
  obtain q vn s1 where l: "vfs_lookup tbl path (Some None) s = (q, vn, s1)"
    by (metis prod_cases3)
  have k: "keep s s1" "\<And>v. vn = Some (Some v) \<Longrightarrow> hold s1 v"
    using vfs_lookup_keep [OF assms(1) l] by auto
  obtain q2 res s2 where p: "vfs_resolve_parent_path tbl path s1 = (q2, res, s2)"
    by (metis prod_cases3)
  have p2: "keep s s2"
    using parent_path_keep [OF keep_inv [OF k(1)] p] keep_trans [OF k(1)] by blast
  show ?thesis
    using assms(2) l p k p2 create_at_keep [OF keep_inv [OF k(1)]] keep_trans [OF k(1)]
    by (auto simp: find_or_create_def bind_eq_Some_conv split: if_splits option.splits prod.splits)
qed

lemma open_call:
  assumes "inv s" "room (Suc k) s"
  shows "inv (snd (snd (vfs_open tbl path fl out s))) \<and> room k (snd (snd (vfs_open tbl path fl out s)))"
proof -
  obtain r vn s1 where l: "find_or_create tbl path fl s = (r, vn, s1)"
    by (metis prod_cases3)
  have k: "keep s s1" "\<And>v. vn = Some v \<Longrightarrow> hold s1 v"
    using find_or_create_keep [OF assms(1) l] by auto
  have r: "inv s1" "room (Suc k) s1" "room k s1" "room k s"
    using keep_inv [OF k(1)] keep_room [OF k(1) assms(2)] assms(2) room_less by auto
  have "inv (snd (make_file fl v s1)) \<and> room k (snd (make_file fl v s1))" if "vn = Some v" for v
    using open_inv [OF r(1) k(2) [OF that] r(2)] .
  then show ?thesis
    using l r assms(1) by (auto simp: vfs_open_def split: option.splits prod.splits)
qed

lemma mkdir_call:
  assumes "inv s"
  shows "keep s (snd (vfs_mkdir tbl path s))"
proof -
  obtain r res s1 where p: "vfs_resolve_parent_path tbl path s = (r, res, s1)"
    by (metis prod_cases3)
  have "keep s s1"
    using parent_path_keep [OF assms p] by blast
  then show ?thesis
    using p create_at_keep [OF assms] keep_refl [OF assms]
    by (auto simp: vfs_mkdir_def split: option.splits prod.splits)
qed

lemma create_exec_call:
  assumes "inv s"
  shows "keep s (snd (vfs_create_exec tbl path fn s))"
proof -
  obtain r res s1 where p: "vfs_resolve_parent_path tbl path s = (r, res, s1)"
    by (metis prod_cases3)
  have k: "keep s s1"
    using parent_path_keep [OF assms p] by blast
  have "keep s (t\<lparr>vnodes := (vnodes t)(v := map_option (\<lambda>x. x\<lparr>vexec := fn\<rparr>) (vnodes t v))\<rparr>)"
    if "keep s t" "hold t v" for t v
    using exec_inv [OF keep_inv [OF that(1)] that(2)] keep_trans [OF that(1)] by blast
  then show ?thesis
    using p k create_at_keep [OF assms] keep_refl [OF assms]
    by (auto simp: vfs_create_exec_def split: option.splits prod.splits)
qed

lemma unlink_leaf_call:
  assumes "inv s" "room k s"
  shows "inv (snd (unlink_leaf tbl path s)) \<and> room k (snd (unlink_leaf tbl path s))"
proof -
  obtain r res s1 where p: "vfs_resolve_parent_path tbl path s = (r, res, s1)"
    by (metis prod_cases3)
  have k: "keep s s1" "\<And>q leaf. res = Some (q, leaf) \<Longrightarrow> hold s1 q"
    using parent_path_keep [OF assms(1) p] by auto
  have i: "inv s1" "room k s1"
    using keep_inv [OF k(1)] keep_room [OF k(1) assms(2)] by auto
  have "inv (snd (unlink q leaf s1)) \<and> room k (snd (unlink q leaf s1))"
    if "res = Some (q, leaf)" "parent_op tbl op_unlink q s1 = Some unlink" for q leaf unlink
    using unlink_inv [OF i(1) k(2) [OF that(1)] that(2) prod.collapse [symmetric]] i(2) by blast
  then show ?thesis
    using p i by (auto simp: unlink_leaf_def split: option.splits prod.splits)
qed

lemma unlink_call:
  assumes "inv s" "room k s"
  shows "inv (snd (vfs_unlink tbl path s)) \<and> room k (snd (vfs_unlink tbl path s))"
proof -
  obtain r vn s1 where l: "vfs_lookup tbl path (Some None) s = (r, vn, s1)"
    by (metis prod_cases3)
  have k: "keep s s1"
    using vfs_lookup_keep [OF assms(1) l] by blast
  show ?thesis
    using unlink_leaf_call [OF assms, of path] unlink_leaf_call [OF keep_inv [OF k] keep_room [OF k assms(2)], of path]
      keep_inv [OF k] keep_room [OF k assms(2)] l assms
    by (auto simp: vfs_unlink_def split: option.splits)
qed

lemma stat_call:
  assumes "inv s"
  shows "keep s (snd (snd (vfs_stat_path tbl path st s)))"
proof -
  obtain r vn s1 where l: "vfs_lookup tbl path (Some None) s = (r, vn, s1)"
    by (metis prod_cases3)
  have "keep s s1"
    using vfs_lookup_keep [OF assms l] by blast
  then show ?thesis
    using l keep_refl [OF assms] by (auto simp: vfs_stat_path_def split: option.splits prod.splits)
qed

lemma upd_file_keep:
  assumes "inv s" "\<And>x. refcount x \<ge> 1 \<Longrightarrow> refcount (g x) \<ge> 1 \<and> fvn (g x) = fvn x"
  shows "keep s (upd_file f g s)"
proof (cases "files s f")
  case None
  then have "upd_file f g s = s"
    by (simp add: upd_file_def fun_upd_idem)
  then show ?thesis
    using keep_refl [OF assms(1)] by simp
next
  case (Some x)
  then show ?thesis
    using count_keep [OF assms(1) Some] assms(2) [OF count_pos [OF assms(1) Some]] by (simp add: upd_file_def)
qed

lemma unref_call:
  assumes "inv s" "room k s"
  shows "inv (file_unref tbl fp s) \<and> room k (file_unref tbl fp s)"
proof (cases "Option.bind fp (files s)")
  case (Some fl)
  then obtain f where f: "fp = Some f" "files s f = Some fl"
    by (auto simp: bind_eq_Some_conv)
  have "keep s (upd_file f (\<lambda>x. x\<lparr>refcount := refcount x - 1\<rparr>) s)" if "\<not> refcount fl \<le> 1"
    using count_keep [OF assms(1) f(2), of "fl\<lparr>refcount := refcount fl - 1\<rparr>"] that f(2) by (simp add: upd_file_def)
  then show ?thesis
    using close_inv [OF assms(1)] assms(2) f keep_inv keep_room [OF _ assms(2)] by (auto simp: file_unref_def)
qed (use assms in \<open>auto simp: file_unref_def split: option.splits\<close>)

lemma offset_keep: "inv s \<Longrightarrow> keep s (upd_file f (\<lambda>x. x\<lparr>offset := h x\<rparr>) s)"
  by (rule upd_file_keep) auto

lemma read_call:
  assumes "inv s"
  shows "keep s (snd (snd (snd (vfs_read tbl fp True len s))))"
proof (cases "Option.bind fp (files s)")
  case (Some x)
  then obtain f where f: "fp = Some f" "files s f = Some x"
    by (auto simp: bind_eq_Some_conv)
  have op: "parent_op tbl op_read v s = vop tbl op_read vn" if "vnodes s v = Some vn" for v vn
    using that by (simp add: parent_op_def)
  have fin: "keep s t" "keep s (upd_file f (\<lambda>x. x\<lparr>offset := offset x + n\<rparr>) t)"
    if "fvn x = Some v" "vnodes s v = Some vn" "vop tbl op_read vn = Some rd" "rd v True off len s = (r, bs, t)"
    for v vn rd off r bs t n
    using read_keep [OF assms f(2) that(1) trans [OF op [OF that(2)] that(3)] that(4)] keep_trans offset_keep keep_inv
    by auto
  show ?thesis
    using f keep_refl [OF assms] fin
    by (auto simp: vfs_read_def vfs_generic_read_def Let_def bind_eq_Some_conv split: option.splits prod.splits)
qed (use keep_refl [OF assms] in \<open>auto simp: vfs_read_def file_has_ops_def\<close>)

lemma write_call:
  assumes "inv s"
  shows "keep s (snd (snd (vfs_write tbl fp (Some bs) (of_nat (length bs)) s)))"
proof (cases "Option.bind fp (files s)")
  case (Some x)
  then obtain f where f: "fp = Some f" "files s f = Some x"
    by (auto simp: bind_eq_Some_conv)
  have op: "parent_op tbl op_write v s = vop tbl op_write vn" if "vnodes s v = Some vn" for v vn
    using that by (simp add: parent_op_def)
  have fin: "keep s t" "keep s (upd_file f (\<lambda>x. x\<lparr>offset := offset x + n\<rparr>) t)"
    if "fvn x = Some v" "vnodes s v = Some vn" "vop tbl op_write vn = Some wr"
      "wr v (Some bs) off (of_nat (length bs)) s = (r, m, t)"
    for v vn wr off r m t n
    using write_keep [OF assms f(2) that(1) trans [OF op [OF that(2)] that(3)] that(4)] keep_trans offset_keep keep_inv
    by auto
  show ?thesis
    using f keep_refl [OF assms] fin
    by (auto simp: vfs_write_def vfs_generic_write_def Let_def bind_eq_Some_conv split: option.splits prod.splits)
qed (use keep_refl [OF assms] in \<open>auto simp: vfs_write_def file_has_ops_def\<close>)

lemma run_call_inv:
  assumes "inv s" "room (Suc k) s"
  shows "inv (run_call tbl c s) \<and> room k (run_call tbl c s)"
proof -
  have r: "room k s"
    using room_less [OF assms(2)] .
  have good: "inv t \<and> room k t" if "keep s t" for t
    using keep_inv [OF that] keep_room [OF that r] by blast
  show ?thesis
  proof (cases c)
    case (Ref f)
    then show ?thesis
      using good [OF upd_file_keep [OF assms(1)]] by (simp add: file_ref_def)
  next
    case (Seek f off)
    then show ?thesis
      using good [OF offset_keep [OF assms(1)]] assms(1) r by (simp add: vfs_seek_def vfs_generic_seek_def)
  qed (use open_call [OF assms] close_inv [OF assms(1)] r unref_call [OF assms(1) r] unlink_call [OF assms(1) r]
      good [OF mkdir_call [OF assms(1)]] good [OF create_exec_call [OF assms(1)]] good [OF stat_call [OF assms(1)]]
      good [OF read_call [OF assms(1)]] good [OF write_call [OF assms(1)]] in simp_all)
qed

lemma run_calls_inv:
  "inv s \<Longrightarrow> room (length cs) s \<Longrightarrow> inv (run_calls tbl cs s)"
  unfolding run_calls_def
proof (induction cs arbitrary: s)
  case (Cons c cs)
  then show ?case
    using run_call_inv [of s "length cs" c] by simp
qed simp

end

end
