(* ===== verification/Ramfs_Fs.thy ===== *)
theory Ramfs_Fs
  imports Ramfs_Inv Vnode_Fs
begin

text \<open>
  The memory file system provides the contract of \<open>vnode_fs\<close>, so that every sequence of file system
  calls keeps its invariant; and what creating and removing a name do to later lookups.
\<close>

section \<open>The contract\<close>














section \<open>Properties\<close>


lemma small_wf: "rfs_wf small_fs"
proof -
  have openers: "openers (files small_fs) v = (if v = 3 then {4} else {})" for v
    by (auto simp: openers_def small_fs_def split: if_splits)
  have "refs_wf (rnodes small_fs) (vnodes small_fs) (files small_fs)"
    unfolding refs_wf_def openers
    by (auto simp: small_defs held_def split: if_splits)
  moreover have "tree_wf (rnodes small_fs)"
    by (auto simp: tree_wf_def small_defs data_wf_def kids_def par_def nm_def split: if_splits)
  moreover have "vnodes_wf (rnodes small_fs) (vnodes small_fs)"
    by (auto simp: vnodes_wf_def small_defs vnode_ok_def split: if_splits)
  ultimately show ?thesis
    by (auto simp: rfs_wf_def root_wf_def small_defs held_def)
qed


text \<open>The names in a directory, each with its node.\<close>

definition dir_entries :: "'z rfs_scheme \<Rightarrow> vid \<Rightarrow> string \<rightharpoonup> nid" where
  "dir_entries s v name =
     (case Option.bind (vnodes s v) (node_of s) of None \<Rightarrow> None | Some (n, nd) \<Rightarrow> ramfs_find_child s nd name)"

lemma find_child_nm: "ramfs_find_child s nd name = find (\<lambda>c. nm (rnodes s) c = Some name) (rchildren nd)"
  by (simp add: ramfs_find_child_def nm_def)

lemma entries_at:
  "vnodes s v = Some vn \<Longrightarrow> vdata vn = Some n \<Longrightarrow> rnodes s n = Some nd \<Longrightarrow>
    dir_entries s v name = find (\<lambda>c. nm (rnodes s) c = Some name) (rchildren nd)"
  by (simp add: dir_entries_def node_of_def find_child_nm)

lemma entries_cong:
  assumes "rnodes s' = rnodes s" "vnodes s' = vnodes s"
  shows "dir_entries s' = dir_entries s"
proof -
  have "node_of s' = node_of s" "ramfs_find_child s' = ramfs_find_child s"
    using assms(1) by (simp_all add: node_of_def ramfs_find_child_def fun_eq_iff)
  then show ?thesis
    using assms(2) by (intro ext) (simp add: dir_entries_def split: option.split)
qed

lemma created_entries:
  assumes "rfs_wf s" "holds s dir" "vnodes s dir = Some vn" "vdata vn = Some p" "rnodes s p = Some pd"
    and s': "s' = created s mp name type p pd"
  shows "dir_entries s' dir = (dir_entries s dir)(name \<mapsto> next_id s)"
    "holds s d \<Longrightarrow> d \<noteq> dir \<Longrightarrow> dir_entries s' d = dir_entries s d"
proof -
  let ?c = "next_id s"
  note D = rfs_wfD [OF assms(1)]
  have cp: "?c \<noteq> p" "rnodes s ?c = None"
    using node_id_less [OF assms(1,5)] D(5) by auto
  have vs: "vnodes s' w = vnodes s w" if "vnodes s w \<noteq> None" for w
    using that D(6) [of "?c + 2"] by (auto simp: s' created_def Let_def)
  have nm': "nm (rnodes s') = (nm (rnodes s))(?c \<mapsto> name)"
    using cp assms(5) by (auto simp: s' created_def Let_def fresh_node_def tree_at fun_upd_idem)
  have out: "?c \<notin> set (kids (rnodes s) n)" for n
    by (rule tree_wf_noparent [OF D(1)]) (use cp(2) in \<open>simp add: par_def\<close>)
  have old: "find (\<lambda>c. nm (rnodes s') c = Some m) (kids (rnodes s) n) = find (\<lambda>c. nm (rnodes s) c = Some m) (kids (rnodes s) n)" for m n
    by (rule find_cong) (use out [of n] nm' in auto)
  have p': "rnodes s' p = Some (pd\<lparr>rchildren := ?c # rchildren pd\<rparr>)"
    by (simp add: s' created_def Let_def)
  show "dir_entries s' dir = (dir_entries s dir)(name \<mapsto> ?c)"
    using entries_at [of s' dir vn p, OF _ assms(4) p'] entries_at [OF assms(3-5)] vs [of dir] assms(3,5)
      old [where n = p] nm' by (auto simp: tree_at)
  show "dir_entries s' d = dir_entries s d" if hd: "holds s d" "d \<noteq> dir"
  proof -
    obtain dn n nd where d: "vnodes s d = Some dn" "vdata dn = Some n" "rnodes s n = Some nd"
      using heldD [OF assms(1) hd(1)] by metis
    have "n \<noteq> p" "n \<noteq> ?c"
      using vnodes_wfD(3) [OF D(2) d(1) assms(3)] d(2) assms(4) hd(2) d(3) cp(2) by auto
    then have "rnodes s' n = Some nd"
      using d(3) by (simp add: s' created_def Let_def)
    then show ?thesis
      using entries_at [of s' d dn n nd] entries_at [OF d] vs [of d] d old [where n = n] by (auto simp: tree_at)
  qed
qed

text \<open>
  C12: creating a name. Creation in a directory of a well-formed file system succeeds only for a valid
  new name and a supported type, and then enters the name with a new node and nothing else: the
  directory has exactly one more entry, every other directory is unchanged, and looking the name up returns
  the vnode the creation returned. If it fails no directory changes.
\<close>

theorem ramfs_create_enters:
  assumes "rfs_wf s" "holds s dir" "is_dir dir s" "ramfs_create_vn dir name type s = (r, out, s')"
  shows "if r = err ERR_SUCCESS then
      valid_name name \<and> creatable type \<and> dir_entries s dir name = None \<and>
      (\<exists>v c. out = Some v \<and> rnodes s c = None \<and> dir_entries s' dir = (dir_entries s dir)(name \<mapsto> c) \<and>
         ramfs_lookup_vn dir name s' = (err ERR_SUCCESS, Some v, s')) \<and>
      (\<forall>d. holds s d \<longrightarrow> d \<noteq> dir \<longrightarrow> dir_entries s' d = dir_entries s d)
    else out = None \<and> dir_entries s' = dir_entries s"
proof -
  obtain vn p pd where d: "vnodes s dir = Some vn" "vdata vn = Some p" "rnodes s p = Some pd"
      "node_of s vn = Some (p, pd)" "vnode_cache pd = Some dir"
    using heldD [OF assms(1,2)] by metis
  have dir: "vtype vn = VNODE_TYPE_DIR"
    using assms(3) d(1) by (simp add: is_dir_def)
  have new: "next_id s \<noteq> p" "rnodes s (next_id s) = None" "vnodes s (next_id s + 2) = None"
    using node_id_less [OF assms(1) d(3)] rfs_wfD(5,6) [OF assms(1)] by auto
  note C = create_cases [OF d(1) dir d(4) new(1,2), of name type]
  show ?thesis
  proof (cases "r = err ERR_SUCCESS")
    case True
    have ok: "valid_name name" "creatable type" "ramfs_find_child s pd name = None" "out = Some (next_id s + 2)"
        "s' = created s (vmount vn) name type p pd"
      using C assms(4) True by (auto split: if_splits)
    note E = created_entries [OF assms(1,2) d(1-3) ok(5)]
    have dir': "vnodes s' dir = Some vn" "node_of s' vn = Some (p, pd\<lparr>rchildren := next_id s # rchildren pd\<rparr>)"
      using d(1,2) new(3) by (auto simp: ok(5) created_def Let_def node_of_def)
    have "dir_entries s' dir name = Some (next_id s)"
      using E(1) by simp
    then have "ramfs_find_child s' (pd\<lparr>rchildren := next_id s # rchildren pd\<rparr>) name = Some (next_id s)"
      using dir' by (simp add: dir_entries_def)
    then have "ramfs_lookup_vn dir name s' = (err ERR_SUCCESS, Some (next_id s + 2), s')"
      using dir' dir ok(1) new(1)
      by (simp add: ramfs_lookup_vn_def valid_name_def ramfs_node_vnode_def code_of_vnode_def ok(5) created_def Let_def)
    moreover have "dir_entries s dir name = None"
      using ok(3) d(1,4) by (simp add: dir_entries_def)
    ultimately show ?thesis
      using True ok(1,2,4) E new(2) by auto
  next
    case False
    then have same: "out = None" "rnodes s' = rnodes s" "vnodes s' = vnodes s"
      using C assms(4) by (auto split: if_splits)
    then have "dir_entries s' = dir_entries s"
      by (intro entries_cong)
    then show ?thesis
      using False same(1) by simp
  qed
qed

lemma small_holds: "holds small_fs 1"
  by (simp add: held_def small_defs)

theorem ramfs_create_enters_witness:
  "fst (ramfs_create_vn 1 ''b'' VNODE_TYPE_DIR small_fs) = err ERR_SUCCESS \<and>
   dir_entries (snd (snd (ramfs_create_vn 1 ''b'' VNODE_TYPE_DIR small_fs))) 1 = [''a'' \<mapsto> 2, ''b'' \<mapsto> 5]"
proof -
  obtain s' where c: "ramfs_create_vn 1 ''b'' VNODE_TYPE_DIR small_fs = (err ERR_SUCCESS, Some 7, s')"
    by (simp add: ramfs_create_vn_def small_defs node_of_def ramfs_find_child_def ramfs_node_create_def kmalloc_def
        Let_def upd_node_def ramfs_node_vnode_def vnode_create_def)
  have e: "dir_entries small_fs 1 = [''a'' \<mapsto> 2]"
    by (auto simp: dir_entries_def small_defs node_of_def ramfs_find_child_def fun_eq_iff)
  have "dir_entries s' 1 ''b'' = Some 5"
    using c by (auto simp: ramfs_create_vn_def small_defs node_of_def ramfs_find_child_def ramfs_node_create_def kmalloc_def
        Let_def upd_node_def ramfs_node_vnode_def vnode_create_def dir_entries_def)
  then show ?thesis
    using ramfs_create_enters [OF small_wf small_holds _ c] c e by (auto simp: is_dir_def small_defs)
qed

lemma find_remove1:
  assumes "distinct xs" "inj_on g (set xs)" "c \<in> set xs"
  shows "find (\<lambda>x. g x = Some m) (remove1 c xs) = (if g c = Some m then None else find (\<lambda>x. g x = Some m) xs)"
  using assms
proof (induction xs)
  case (Cons x xs)
  show ?case
  proof (cases "x = c")
    case True
    have "g y \<noteq> g c" if "y \<in> set xs" for y
      using that Cons(2,3) True by (auto simp: inj_on_def)
    then show ?thesis
      using True Cons(2) by (auto simp: find_None_iff)
  next
    case False
    then have "c \<in> set xs" "g x \<noteq> g c"
      using Cons(3,4) by (auto simp: inj_on_def)
    then show ?thesis
      using Cons False by auto
  qed
qed simp

text \<open>What removing the leaf \<open>c\<close> from the directory \<open>p\<close> does to the tree, whether or not the file is open.\<close>

lemma unlinked_state:
  assumes "rfs_wf s" "rnodes s p = Some pd" "c \<in> set (rchildren pd)" "rnodes s c = Some cd" "rchildren cd = []"
    and s': "s' = ramfs_node_release c (s\<lparr>rnodes := (rnodes s)(p \<mapsto> pd\<lparr>rchildren := remove1 c (rchildren pd)\<rparr>,
       c \<mapsto> cd\<lparr>rparent := None\<rparr>)\<rparr>)"
  shows "\<forall>n. n \<noteq> p \<longrightarrow> n \<noteq> c \<longrightarrow> rnodes s' n = rnodes s n"
    "rnodes s' p = Some (pd\<lparr>rchildren := remove1 c (rchildren pd)\<rparr>)"
    "\<forall>w. vnode_cache cd \<noteq> Some w \<longrightarrow> vnodes s' w = vnodes s w"
    "vnode_cache cd = Some w \<Longrightarrow> if openers (files s) w = {} then vnodes s' w = None
      else rnodes s' c = Some (cd\<lparr>rparent := None, vnode_cache := None\<rparr>) \<and>
        (\<exists>vn. vnodes s' w = Some vn \<and> vdata vn = Some c)"
proof -
  let ?s1 = "s\<lparr>rnodes := (rnodes s)(p \<mapsto> pd\<lparr>rchildren := remove1 c (rchildren pd)\<rparr>, c \<mapsto> cd\<lparr>rparent := None\<rparr>)\<rparr>"
  have cp: "c \<noteq> p"
    using assms(2-5) by auto
  note R = refs_wfD [OF rfs_wfD(3) [OF assms(1)]]
  have eff: "\<exists>vn. vnodes s v = Some vn \<and> vdata vn = Some c \<and> unat (refcnt vn) = 1 + card (openers (files s) v) \<and>
      s' = (if refcnt vn = 1 then ?s1\<lparr>vnodes := (vnodes s)(v := None), rnodes := (rnodes ?s1)(c := None)\<rparr>
        else ?s1\<lparr>vnodes := (vnodes s)(v \<mapsto> vn\<lparr>refcnt := refcnt vn - 1\<rparr>),
            rnodes := (rnodes ?s1)(c \<mapsto> cd\<lparr>rparent := None, vnode_cache := None\<rparr>)\<rparr>)"
    if cache: "vnode_cache cd = Some v" for v
  proof -
    obtain vn where v: "vnodes s v = Some vn"
      using vnodes_wfD(1) [OF rfs_wfD(2) [OF assms(1)] assms(4) cache] by (auto simp: bind_eq_Some_conv)
    note K = wf_remove_cached [OF assms(1-5) refl cache v]
    have "vops vn = Some RAMFS_OPS"
      using vnodes_wfD(2) [OF rfs_wfD(2) [OF assms(1)] v] by (auto simp: vnode_ok_def)
    then show ?thesis
      using release_effect [of ?s1 c "cd\<lparr>rparent := None\<rparr>" v vn] cache v K(1,3) R(4) [OF v] by (simp add: s')
  qed
  have none: "s' = ?s1\<lparr>rnodes := (rnodes ?s1)(c := None)\<rparr>" if "vnode_cache cd = None"
    using that by (simp add: s' ramfs_node_release_def ramfs_node_free_def)
  show "\<forall>n. n \<noteq> p \<longrightarrow> n \<noteq> c \<longrightarrow> rnodes s' n = rnodes s n"
    "rnodes s' p = Some (pd\<lparr>rchildren := remove1 c (rchildren pd)\<rparr>)"
    "\<forall>w. vnode_cache cd \<noteq> Some w \<longrightarrow> vnodes s' w = vnodes s w"
    using eff none cp by (cases "vnode_cache cd"; force)+
  show "if openers (files s) w = {} then vnodes s' w = None
      else rnodes s' c = Some (cd\<lparr>rparent := None, vnode_cache := None\<rparr>) \<and>
        (\<exists>vn. vnodes s' w = Some vn \<and> vdata vn = Some c)" if cw: "vnode_cache cd = Some w"
  proof -
    obtain vn where vn: "vdata vn = Some c" "unat (refcnt vn) = 1 + card (openers (files s) w)"
      "s' = (if refcnt vn = 1 then ?s1\<lparr>vnodes := (vnodes s)(w := None), rnodes := (rnodes ?s1)(c := None)\<rparr>
        else ?s1\<lparr>vnodes := (vnodes s)(w \<mapsto> vn\<lparr>refcnt := refcnt vn - 1\<rparr>),
            rnodes := (rnodes ?s1)(c \<mapsto> cd\<lparr>rparent := None, vnode_cache := None\<rparr>)\<rparr>)"
      using eff [OF cw] by blast
    have "refcnt vn = 1 \<longleftrightarrow> unat (refcnt vn) = 1"
      by (metis unat_1 word_unat_eq_iff)
    then have "refcnt vn = 1 \<longleftrightarrow> openers (files s) w = {}"
      using vn(2) finite_openers [OF R(1), of w] by simp
    then show ?thesis
      using vn by simp
  qed
qed

lemma unlinked_entries:
  assumes "rfs_wf s" "holds s dir" "vnodes s dir = Some vn" "node_of s vn = Some (p, pd)" "rnodes s p = Some pd"
    "c \<in> set (rchildren pd)" "nm (rnodes s) c = Some name" "rnodes s c = Some cd" "rchildren cd = []"
    and s': "s' = ramfs_node_release c (s\<lparr>rnodes := (rnodes s)(p \<mapsto> pd\<lparr>rchildren := remove1 c (rchildren pd)\<rparr>,
       c \<mapsto> cd\<lparr>rparent := None\<rparr>)\<rparr>)"
  shows "dir_entries s' dir = (dir_entries s dir)(name := None)"
    "\<forall>d. holds s d \<longrightarrow> d \<noteq> dir \<longrightarrow> dir_entries s' d = dir_entries s d"
proof -
  note D = rfs_wfD [OF assms(1)] and U = unlinked_state [OF assms(1,5,6,8,9) s']
  have vd: "vdata vn = Some p"
    using assms(4) by (auto simp: node_of_def bind_eq_Some_conv)
  have cp: "c \<noteq> p"
    using assms(5,6,8,9) by auto
  have cached: "Option.bind (vnodes s w) vdata = Some c" if "vnode_cache cd = Some w" for w
    using vnodes_wfD(1) [OF D(2) assms(8) that] .
  have nm': "nm (rnodes s') x = nm (rnodes s) x" if "x \<noteq> c" for x
    using U(1,2) that assms(5) by (cases "x = p") (auto simp: nm_def)
  have "vnode_cache cd \<noteq> Some dir"
    using cached [of dir] assms(3) vd cp by auto
  then have dir': "vnodes s' dir = Some vn"
    using U(3) assms(3) by simp
  have kids: "distinct (rchildren pd)" "inj_on (nm (rnodes s)) (set (rchildren pd))"
    using tree_wfD(4,5) [OF D(1), of p] assms(5) by (simp_all add: tree_at)
  have "find (\<lambda>x. nm (rnodes s') x = Some m) (remove1 c (rchildren pd)) =
      find (\<lambda>x. nm (rnodes s) x = Some m) (remove1 c (rchildren pd))" for m
    by (rule find_cong) (use kids(1) nm' in auto)
  then have "dir_entries s' dir m = ((dir_entries s dir)(name := None)) m" for m
    using entries_at [OF dir' vd U(2)] entries_at [OF assms(3) vd assms(5)] find_remove1 [OF kids assms(6)] assms(7)
    by auto
  then show "dir_entries s' dir = (dir_entries s dir)(name := None)"
    by blast
  show "\<forall>d. holds s d \<longrightarrow> d \<noteq> dir \<longrightarrow> dir_entries s' d = dir_entries s d"
  proof (intro allI impI ext)
    fix d m
    assume hd: "holds s d" "d \<noteq> dir"
    obtain dn n nd where d: "vnodes s d = Some dn" "vdata dn = Some n" "rnodes s n = Some nd" "vnode_cache nd = Some d"
      using heldD [OF assms(1) hd(1)] by metis
    have np: "n \<noteq> p"
      using vnodes_wfD(3) [OF D(2) d(1) assms(3)] d(2) vd hd(2) by auto
    show "dir_entries s' d m = dir_entries s d m"
    proof (cases "n = c")
      case True
      then have "dir_entries s d m = None" "vnode_cache cd = Some d"
        using entries_at [OF d(1-3)] assms(8,9) d(3,4) by auto
      then show ?thesis
        using U(4) [of d] assms(9) entries_at [of s' d _ c]
        by (auto simp: dir_entries_def [of s'] node_of_def ramfs_find_child_def split: if_splits)
    next
      case False
      have "c \<notin> set (rchildren nd)"
        using tree_wfD(3) [OF D(1), of c n] tree_wfD(3) [OF D(1), of c p] assms(5,6) d(3) np by (simp add: tree_at)
      then have "nm (rnodes s') x = nm (rnodes s) x" if "x \<in> set (rchildren nd)" for x
        using nm' [of x] that by auto
      then have "find (\<lambda>x. nm (rnodes s') x = Some m) (rchildren nd) = find (\<lambda>x. nm (rnodes s) x = Some m) (rchildren nd)"
        by (intro find_cong) auto
      moreover have "vnode_cache cd \<noteq> Some d"
        using cached [of d] d False by auto
      then have "vnodes s' d = Some dn" "rnodes s' n = Some nd"
        using U(1,3) d np False by simp_all
      ultimately show ?thesis
        using entries_at [of s' d dn n nd] entries_at [OF d(1-3)] d(2) by simp
    qed
  qed
qed

text \<open>
  C13: removing a name. If the removal succeeds, exactly this name is gone from the directory and every
  other directory is as before; if it fails nothing has changed.
\<close>

theorem ramfs_unlink_removes:
  assumes "rfs_wf s" "holds s dir" "is_dir dir s" "ramfs_unlink_vn dir name s = (r, s')"
  shows "(if r = err ERR_SUCCESS then
        dir_entries s dir name \<noteq> None \<and> dir_entries s' dir = (dir_entries s dir)(name := None) \<and>
        (\<forall>d. holds s d \<longrightarrow> d \<noteq> dir \<longrightarrow> dir_entries s' d = dir_entries s d)
      else s' = s)"
proof (cases "r = err ERR_SUCCESS")
  case True
  obtain vn p pd c cd where u: "vnodes s dir = Some vn" "node_of s vn = Some (p, pd)" "rnodes s p = Some pd"
      "ramfs_find_child s pd name = Some c" "rnodes s c = Some cd" "rchildren cd = []"
      and s': "s' = ramfs_node_release c (s\<lparr>rnodes := (rnodes s)(p \<mapsto> pd\<lparr>rchildren := remove1 c (rchildren pd)\<rparr>,
       c \<mapsto> cd\<lparr>rparent := None\<rparr>)\<rparr>)"
    using unlink_cases [OF assms(1,2,4) True] by metis
  note ch = find_child_Some [OF u(4)] and D = rfs_wfD [OF assms(1)]
  have e: "dir_entries s dir name = Some c"
    using u(1,2,4) by (simp add: dir_entries_def)
  show ?thesis
    using unlinked_entries [OF assms(1,2) u(1-3) ch u(5,6) s'] True e by simp
next
  case False
  obtain vn p pd where d: "vnodes s dir = Some vn" "rnodes s p = Some pd" "node_of s vn = Some (p, pd)"
    using heldD [OF assms(1,2)] by metis
  have "s' = s"
    using assms(4) d False by (auto simp: ramfs_unlink_vn_def Let_def split: if_splits option.splits)
  then show ?thesis
    using False by simp
qed

theorem ramfs_unlink_removes_witness:
  "fst (ramfs_unlink_vn 1 ''a'' small_fs) = err ERR_SUCCESS \<and>
   dir_entries (snd (ramfs_unlink_vn 1 ''a'' small_fs)) 1 = Map.empty"
proof -
  obtain s' where u: "ramfs_unlink_vn 1 ''a'' small_fs = (err ERR_SUCCESS, s')"
    by (simp add: ramfs_unlink_vn_def small_defs node_of_def ramfs_find_child_def Let_def)
  have e: "dir_entries small_fs 1 = [''a'' \<mapsto> 2]"
    by (auto simp: dir_entries_def small_defs node_of_def ramfs_find_child_def fun_eq_iff)
  then show ?thesis
    using ramfs_unlink_removes [OF small_wf small_holds _ u] u by (simp add: is_dir_def small_defs)
qed

text \<open>
  C27: an open file outlives its name. If a name is removed while a file is open on its vnode, reads
  through the vnode return the same bytes as before, and the file is freed only by the last close.
\<close>

theorem ramfs_unlinked_file_readable:
  assumes "rfs_wf s" "holds s dir" "ramfs_unlink_vn dir name s = (err ERR_SUCCESS, s')"
    and "files s f = Some fl" "fvn fl = Some v" "file_at s v n nd"
  shows "ramfs_read_vn v True off len s' = (err ERR_SUCCESS, take (unat len) (drop (unat off) (contents nd)), s')"
proof -
  obtain p pd c cd where u: "rnodes s p = Some pd" "ramfs_find_child s pd name = Some c" "rnodes s c = Some cd"
      "rchildren cd = []" and s': "s' = ramfs_node_release c (s\<lparr>rnodes := (rnodes s)(p \<mapsto> pd\<lparr>rchildren := remove1 c (rchildren pd)\<rparr>,
       c \<mapsto> cd\<lparr>rparent := None\<rparr>)\<rparr>)"
    using unlink_cases [OF assms(1-3) refl] by metis
  note ch = find_child_Some [OF u(2)] and U = unlinked_state [OF assms(1) u(1) find_child_Some(1) [OF u(2)] u(3,4) s']
  obtain vn where vn: "vnodes s v = Some vn" "vdata vn = Some n" "rnodes s n = Some nd"
      "rtype nd = VNODE_TYPE_FILE \<or> rtype nd = VNODE_TYPE_EXEC" "data_wf nd"
    using file_atD [OF assms(6)] by metis
  have np: "n \<noteq> p"
  proof
    assume "n = p"
    then have "rtype nd = VNODE_TYPE_DIR"
      using tree_wfD(2) [OF rfs_wfD(1) [OF assms(1)] u(1)] ch(1) u(1) vn(3) by (cases "rchildren pd") auto
    with vn(4) show False
      by simp
  qed
  have cached: "Option.bind (vnodes s w) vdata = Some c" if "vnode_cache cd = Some w" for w
    using vnodes_wfD(1) [OF rfs_wfD(2) [OF assms(1)] u(3) that] .
  have "\<exists>nd'. file_at s' v n nd' \<and> contents nd' = contents nd"
  proof (cases "n = c")
    case True
    have nd: "\<not> detached cd"
      using wf_remove_common(7) [OF assms(1) u(1) ch(1) u(3,4) refl] .
    then have "vnode_cache cd = Some v"
      using vnode_okE [OF vnodes_wfD(2) [OF rfs_wfD(2) [OF assms(1)] vn(1)]] vn(2,3) True u(3) by (metis option.inject)
    moreover have "f \<in> openers (files s) v"
      using assms(4,5) by (simp add: openers_def)
    ultimately obtain wn where "rnodes s' c = Some (cd\<lparr>rparent := None, vnode_cache := None\<rparr>)"
        "vnodes s' v = Some wn" "vdata wn = Some c"
      using U(4) [of v] by (auto split: if_splits)
    then show ?thesis
      using True vn u(3) by (intro exI [of _ "cd\<lparr>rparent := None, vnode_cache := None\<rparr>"])
        (auto simp: file_at_def node_of_def contents_def data_wf_def)
  next
    case False
    then have "vnode_cache cd \<noteq> Some v"
      using cached [of v] vn by auto
    then have "file_at s' v n nd"
      using U(1,3) vn np False by (auto simp: file_at_def node_of_def)
    then show ?thesis
      by blast
  qed
  then obtain nd' where "file_at s' v n nd'" "contents nd' = contents nd"
    by blast
  then show ?thesis
    using read_contents by metis
qed

theorem ramfs_unlinked_file_readable_witness:
  "dir_entries (snd (ramfs_unlink_vn 1 ''a'' small_fs)) 1 ''a'' = None \<and>
   fst (snd (ramfs_read_vn 3 True 1 9 (snd (ramfs_unlink_vn 1 ''a'' small_fs)))) = [20, 30]"
proof -
  obtain s' where u: "ramfs_unlink_vn 1 ''a'' small_fs = (err ERR_SUCCESS, s')"
    by (simp add: ramfs_unlink_vn_def small_defs node_of_def ramfs_find_child_def Let_def)
  have "dir_entries s' 1 ''a'' = None"
    using u by (auto simp: ramfs_unlink_vn_def small_defs node_of_def ramfs_find_child_def Let_def dir_entries_def
        ramfs_node_release_def upd_node_def vnode_unref_def)
  moreover have "files small_fs 4 = Some \<lparr>fvn = Some 3, offset = 0, flags = 3, fgeneric = True, refcount = 1\<rparr>"
    by (simp add: small_fs_def)
  ultimately show ?thesis
    using ramfs_unlinked_file_readable [OF small_wf small_holds u _ _ small_file_at] u
    by (simp add: contents_def small_file_def)
qed

end
