(* ===== verification/Fd_Props.thy ===== *)
theory Fd_Props
  imports Fd Ramfs_Fs
begin

text \<open>
  Descriptor tables over the memory file system, and the behaviour of the calls of the table.
\<close>

interpretation ramfs_files: file_keeper ramfs_tbl
  by unfold_locales
    (auto simp: ramfs_tbl_def ramfs_vnode_ops_def ramfs_destroy_vnode_def Let_def upd_node_def ramfs_node_free_def
      split: option.splits)

text \<open>A table as \<open>fd_table_init\<close> leaves it.\<close>

definition empty_fds :: fd_table where
  "empty_fds = \<lparr>entries = replicate FD_MAX \<lparr>fd_file = None, fd_used = False\<rparr>\<rparr>"

lemma init_empty: "fd_table_init (Some t) = Some empty_fds"
  by (simp add: fd_table_init_def empty_fds_def)

lemma empty_fds_inv: "files s = Map.empty \<Longrightarrow> fd_inv empty_fds (\<lambda>_. 0) s"
  by (simp add: fd_inv_def empty_fds_def fds_of_def counted_def)

text \<open>
  C14: descriptors and reference counts agree. In every state a process reaches from an initialised
  table by opening files and allocating, installing, duplicating and closing descriptors, a file exists
  exactly while a descriptor or another holder refers to it and its count is the number of these
  references; so no descriptor in use names a freed file.
\<close>

theorem fd_refcounts:
  fixes s0 :: "'z rfs_scheme"
  assumes "files s0 = Map.empty" "fd_table_init (Some t) = Some t0"
    and "(fd_step ramfs_tbl)\<^sup>*\<^sup>* (t0, \<lambda>_. 0, s0) (t', ext, s')"
  shows "(\<forall>f. files s' f = None \<longleftrightarrow> fds_of t' f = {} \<and> ext f = 0) \<and>
    (\<forall>f fl. files s' f = Some fl \<longrightarrow> refcount fl = int (card (fds_of t' f) + ext f)) \<and>
    (\<forall>fd f. fd_get (Some t') fd = Some f \<longrightarrow> files s' f \<noteq> None)"
proof -
  have inv: "fd_inv t' ext s'"
    using ramfs_files.fd_steps_inv [OF assms(3)] empty_fds_inv [OF assms(1)] assms(2)
    by (simp add: fd_ok_def init_empty)
  have "refcount fl = int (card (fds_of t' f) + ext f)" if "files s' f = Some fl" for f fl
    using fd_inv_count(1) [OF inv that] .
  moreover have "files s' f \<noteq> None" if "fd_get (Some t') fd = Some f" for fd f
    using ramfs_files.referenced [OF inv, of f "nat fd"] fd_get_Some [OF that] by simp
  ultimately show ?thesis
    using live_iff [OF inv] by simp
qed

definition file1 :: vfile where
  "file1 = \<lparr>fvn = None, offset = 0, flags = 0, fgeneric = True, refcount = 1\<rparr>"

definition no_files :: rfs where
  "no_files = small_fs\<lparr>files := Map.empty\<rparr>"

lemma empty_free: "fd_find_free empty_fds = 3"
  by (simp add: fd_find_free_def empty_fds_def FD_MAX_def upt_rec)

theorem fd_refcounts_witness:
  "\<exists>t' ext s'. (fd_step ramfs_tbl)\<^sup>*\<^sup>* (empty_fds, \<lambda>_. 0, no_files) (t', ext, s') \<and>
     fd_get (Some t') 3 = Some 9 \<and> files s' 9 \<noteq> None \<and> refcount (the (files s' 9)) = 2"
proof -
  let ?s1 = "no_files\<lparr>files := [9 \<mapsto> file1]\<rparr>" and ?t2 = "set_fd 3 (Some 9) True empty_fds"
  let ?s2 = "file_ref (Some 9) ?s1" and ?ext = "(\<lambda>_. 0)(9 := 1)"
  have 1: "fd_step ramfs_tbl (empty_fds, \<lambda>_. 0, no_files) (empty_fds, ?ext, ?s1)"
    by (rule step_open [where fl = file1]) (simp_all add: no_files_def file1_def)
  have 2: "fd_step ramfs_tbl (empty_fds, ?ext, ?s1) (?t2, ?ext, ?s2)"
    by (rule step_alloc [where f = 9 and r = 3]) (simp_all add: fd_alloc_def empty_free)
  have reach: "(fd_step ramfs_tbl)\<^sup>*\<^sup>* (empty_fds, \<lambda>_. 0, no_files) (?t2, ?ext, ?s2)"
    using 1 2 by (meson converse_rtranclp_into_rtranclp rtranclp.rtrancl_refl)
  have get: "fd_get (Some ?t2) 3 = Some 9"
    by (simp add: fd_get_def fd_valid_def set_fd_def empty_fds_def FD_MAX_def)
  have "files no_files = Map.empty"
    by (simp add: no_files_def)
  then have "files ?s2 9 \<noteq> None"
    using fd_refcounts [OF _ init_empty reach] get by blast
  moreover have "refcount (the (files ?s2 9)) = 2"
    by (simp add: file_ref_def upd_file_def file1_def)
  ultimately show ?thesis
    using reach get by blast
qed

text \<open>
  C28: duplicating a descriptor. Where the old descriptor is open and one of the slots from 3 is free, the
  lowest free one becomes a second descriptor of the same file, no other descriptor changes, and
  closing it restores the table and the file. Otherwise the call fails without a change.
\<close>

theorem fd_dup_close:
  fixes s :: "'z rfs_scheme"
  assumes "fd_inv t ext s" "fd_dup (Some t) oldfd s = (r, Some t', s')"
  shows "if fd_get (Some t) oldfd \<noteq> None \<and> (\<exists>i. 3 \<le> i \<and> i < FD_MAX \<and> \<not> fd_used (entries t ! i)) then
      3 \<le> r \<and> \<not> fd_used (entries t ! nat r) \<and> (\<forall>i. 3 \<le> i \<and> i < nat r \<longrightarrow> fd_used (entries t ! i)) \<and>
      fd_get (Some t') r = fd_get (Some t) oldfd \<and> (\<forall>i. i \<noteq> r \<longrightarrow> fd_get (Some t') i = fd_get (Some t) i) \<and>
      (case fd_close ramfs_tbl (Some t') r s' of
         (q, t'', s'') \<Rightarrow> q = err ERR_SUCCESS \<and> files s'' = files s \<and> (\<forall>i. fd_get t'' i = fd_get (Some t) i))
    else r < 0 \<and> t' = t \<and> s' = s"
proof (cases "fd_get (Some t) oldfd")
  case None
  then show ?thesis
    using assms(2) by (auto simp: fd_dup_def)
next
  case (Some f)
  show ?thesis
  proof (cases t rule: find_free_cases)
    case (1 i)
    have l: "length (entries t) = FD_MAX"
      using fd_invD(1) [OF assms(1)] .
    have res: "r = int i" "t' = set_fd i (Some f) True t" "s' = file_ref (Some f) s"
      using assms(2) Some 1(1) by (auto simp: fd_dup_def fd_alloc_def)
    obtain fl where fl: "files s f = Some fl"
      using ramfs_files.referenced [OF assms(1), of f "nat oldfd"] fd_get_Some [OF Some] by auto
    have pos: "refcount fl \<ge> 1"
      using fd_inv_count(2) [OF assms(1) fl] .
    have get: "fd_get (Some (set_fd i g u t)) j = (if j = int i then (if u then g else None) else fd_get (Some t) j)" for g u j
      using 1(3) l by (auto simp: fd_get_def fd_valid_def set_fd_def nth_list_update)
    have "files (file_unref ramfs_tbl (Some f) s') = files s"
      using ramfs_files.unref_files [of s' f "fl\<lparr>refcount := refcount fl + 1\<rparr>"] fl pos
      by (simp add: res(3) ramfs_files.ref_files [OF fl] fun_upd_idem)
    moreover have "fd_get (Some t) (int i) = None"
      using 1(4) by (simp add: fd_get_def fd_valid_def)
    ultimately have close: "case fd_close ramfs_tbl (Some t') r s' of
         (q, t'', s'') \<Rightarrow> q = err ERR_SUCCESS \<and> files s'' = files s \<and> (\<forall>i. fd_get t'' i = fd_get (Some t) i)"
      using 1(3) l by (auto simp: fd_close_def fd_valid_def res Let_def set_fd_def fd_get_def nth_list_update)
    then show ?thesis
      using Some 1 get by (auto simp: res)
  next
    case 2
    then show ?thesis
      using assms(2) Some by (auto simp: fd_dup_def fd_alloc_def)
  qed
qed

text \<open>A table with one open descriptor, on the file of the small file system.\<close>

definition one_fd :: fd_table where
  "one_fd = set_fd 3 (Some 4) True empty_fds"

lemma one_fd_inv: "fd_inv one_fd (\<lambda>_. 0) small_fs"
proof -
  have fds: "fds_of one_fd f = (if f = 4 then {3} else {})" for f
    by (auto simp: fds_of_def one_fd_def set_fd_def empty_fds_def FD_MAX_def nth_list_update split: if_splits)
  show ?thesis
    unfolding fd_inv_def fds
    by (auto simp: one_fd_def set_fd_def empty_fds_def FD_MAX_def nth_list_update small_fs_def counted_def)
qed

theorem fd_dup_close_witness:
  "fst (fd_dup (Some one_fd) 3 small_fs) = 4 \<and>
   fd_get (fst (snd (fd_dup (Some one_fd) 3 small_fs))) 4 = Some 4"
proof -
  have old: "fd_get (Some one_fd) 3 = Some 4"
    by (simp add: fd_get_def fd_valid_def one_fd_def set_fd_def empty_fds_def FD_MAX_def)
  have free: "fd_find_free one_fd = 4"
    by (simp add: fd_find_free_def one_fd_def set_fd_def empty_fds_def FD_MAX_def upt_rec nth_list_update)
  have dup: "fd_dup (Some one_fd) 3 small_fs = (4, Some (set_fd 4 (Some 4) True one_fd), file_ref (Some 4) small_fs)"
    by (simp add: fd_dup_def old fd_alloc_def free)
  have "fd_get (Some one_fd) 3 \<noteq> None \<and> (\<exists>i. 3 \<le> i \<and> i < FD_MAX \<and> \<not> fd_used (entries one_fd ! i))"
    using old by (auto simp: one_fd_def set_fd_def empty_fds_def FD_MAX_def intro!: exI [of _ 4])
  from fd_dup_close [OF one_fd_inv dup, unfolded if_P [OF this]] show ?thesis
    using dup old by simp
qed

end
