(* ===== verification/Mount.thy ===== *)
theory Mount
  imports Ramfs_Fs
begin

text \<open>
  The mount table: \<^verbatim>\<open>src/kernel/fs/vfs/mount.c\<close> and the two calls of \<^verbatim>\<open>vfs.c\<close> that use it. The intrusive list
  \<open>g_mounts\<close> is the list of its mounts, oldest first. A file system type carries its operations as functions:
  they get the mount's identifier and private data and return the new private data. An unmount may
  run through a whole tree, so its result is \<open>None\<close> if it does not return.
\<close>

section \<open>Model\<close>

record 's fs_type =
  fs_name :: string
  fs_mount :: "(nat \<Rightarrow> string option \<Rightarrow> 's \<Rightarrow> int \<times> nat option \<times> 's) option"
  fs_unmount :: "(nat \<Rightarrow> nat option \<Rightarrow> 's \<Rightarrow> (int \<times> nat option \<times> 's) option) option"
  fs_sync :: "(nat \<Rightarrow> nat option \<Rightarrow> 's \<Rightarrow> int \<times> 's) option"
  fs_root :: "(nat \<Rightarrow> nat option \<Rightarrow> 's \<Rightarrow> int \<times> vid option \<times> 's) option"

record 's mount =
  mount_id :: nat
  mtype :: "'s fs_type option"
  root_vnode :: "vid option"
  msource :: string
  mtarget :: string
  mdata :: "nat option"

record mount_stat =
  ms_source :: string
  ms_target :: string
  ms_type :: "string option"

definition find_mount_by_target :: "'s mount list \<Rightarrow> string option \<Rightarrow> 's mount option" where
  "find_mount_by_target ms target =
     (case target of None \<Rightarrow> None | Some t \<Rightarrow> find (\<lambda>m. mtarget m = t) ms)"

definition mount_init :: "'s mount list \<Rightarrow> int \<times> 's mount list" where
  "mount_init ms = (err ERR_SUCCESS, [])"

text \<open>The part of \<open>mount_do_mount\<close> that puts the root of a mount at \<open>/\<close> in place.\<close>

definition mount_set_root :: "string \<Rightarrow> vid option \<Rightarrow> 'z kfs_scheme \<Rightarrow> 'z kfs_scheme" where
  "mount_set_root target root s =
     (if target = ''/'' then
        (if vfs_get_root s = None then snd (vfs_set_root root s)
         else if vfs_get_root s \<noteq> root then snd (vfs_set_root root s)
         else s)
      else s)"

definition mount_do_mount :: "'z kfs_scheme fs_type option \<Rightarrow> string option \<Rightarrow> string option \<Rightarrow> string option
    \<Rightarrow> 'z kfs_scheme mount list \<Rightarrow> 'z kfs_scheme \<Rightarrow> (int \<times> 'z kfs_scheme mount list \<times> 'z kfs_scheme) option" where
  "mount_do_mount fst_arg source target opts ms s =
     (case (fst_arg, target) of
        (Some ft, Some tg) \<Rightarrow>
          if find_mount_by_target ms target \<noteq> None then Some (err ERR_ALREADY_EXISTS, ms, s)
          else (case kmalloc s of
              (None, s) \<Rightarrow> Some (err ERR_OUT_OF_MEMORY, ms, s)
            | (Some m, s) \<Rightarrow>
                let (src, s) = kmalloc s;
                    (tgt, s) = kmalloc s
                in if src = None \<or> tgt = None then Some (ENOMEM, ms, s)
                   else
                     let (r, data, s) = (case fs_mount ft of
                           None \<Rightarrow> (err ERR_SUCCESS, None, s)
                         | Some mnt \<Rightarrow> mnt m opts s)
                     in if r \<noteq> 0 then Some (r, ms, s)
                        else
                          let (r, root, s) = (case fs_root ft of
                                None \<Rightarrow> (err ERR_SUCCESS, None, s)
                              | Some rootf \<Rightarrow> rootf m data s)
                          in if r \<noteq> 0 then
                               (case fs_unmount ft of
                                  None \<Rightarrow> Some (r, ms, s)
                                | Some um \<Rightarrow> map_option (\<lambda>(_, _, s). (r, ms, s)) (um m data s))
                             else
                               Some (err ERR_SUCCESS,
                                 ms @ [\<lparr>mount_id = m, mtype = Some ft, root_vnode = root,
                                        msource = (case source of None \<Rightarrow> [] | Some x \<Rightarrow> x), mtarget = tg, mdata = data\<rparr>],
                                 mount_set_root tg root s))
      | _ \<Rightarrow> Some (err ERR_INVALID_ARGUMENT, ms, s))"

text \<open>Calling the unmount operation of a mount, if it has one.\<close>

definition call_unmount :: "'s mount \<Rightarrow> 's \<Rightarrow> (int \<times> nat option \<times> 's) option" where
  "call_unmount m s =
     (case Option.bind (mtype m) fs_unmount of
        None \<Rightarrow> Some (err ERR_SUCCESS, mdata m, s)
      | Some um \<Rightarrow> um (mount_id m) (mdata m) s)"

definition drop_root :: "vid option \<Rightarrow> 'z kfs_scheme \<Rightarrow> 'z kfs_scheme" where
  "drop_root root s = (if vfs_get_root s = root then snd (vfs_set_root None s) else s)"

text \<open>
  A failing unmount leaves the mount in the list, with the private data the operation left.
\<close>

fun mount_do_unmount :: "string option \<Rightarrow> 'z kfs_scheme mount list \<Rightarrow> 'z kfs_scheme
    \<Rightarrow> (int \<times> 'z kfs_scheme mount list \<times> 'z kfs_scheme) option" where
  "mount_do_unmount None ms s = Some (err ERR_INVALID_ARGUMENT, ms, s)"
| "mount_do_unmount (Some target) [] s = Some (ENOENT, [], s)"
| "mount_do_unmount (Some target) (m # ms) s =
     (if mtarget m = target then
        (case call_unmount m s of
           None \<Rightarrow> None
         | Some (r, data, s) \<Rightarrow>
             if r \<noteq> 0 then Some (r, m\<lparr>mdata := data\<rparr> # ms, s)
             else Some (err ERR_SUCCESS, ms, drop_root (root_vnode m) s))
      else map_option (\<lambda>(r, ms, s). (r, m # ms, s)) (mount_do_unmount (Some target) ms s))"



text \<open>The result array as a list; an empty table needs no memory.\<close>

definition mount_list :: "bool \<Rightarrow> 's mount list \<Rightarrow> 'z kfs_scheme \<Rightarrow> int \<times> 's mount list option \<times> 'z kfs_scheme" where
  "mount_list outs ms s =
     (if \<not> outs then (err ERR_INVALID_ARGUMENT, None, s)
      else (case kmalloc s of
          (arr, s) \<Rightarrow>
            if arr = None \<and> ms \<noteq> [] then (err ERR_ADDRESS_IN_USE, None, s)
            else (err ERR_SUCCESS, Some ms, s)))"

text \<open>The loop of \<open>mount_cleanup\<close>, which ignores the result of each unmount.\<close>

fun mount_cleanup :: "'z kfs_scheme mount list \<Rightarrow> 'z kfs_scheme \<Rightarrow> (int \<times> 'z kfs_scheme mount list \<times> 'z kfs_scheme) option" where
  "mount_cleanup [] s = Some (err ERR_SUCCESS, [], s)"
| "mount_cleanup (m # ms) s =
     (case call_unmount m s of
        None \<Rightarrow> None
      | Some (_, _, s) \<Rightarrow> mount_cleanup ms (drop_root (root_vnode m) s))"

definition mount_shutdown :: "'z kfs_scheme mount list \<Rightarrow> 'z kfs_scheme \<Rightarrow> (int \<times> 'z kfs_scheme mount list \<times> 'z kfs_scheme) option" where
  "mount_shutdown ms s = mount_cleanup ms s"

fun mount_sync :: "'s mount list \<Rightarrow> 's \<Rightarrow> int \<times> 's" where
  "mount_sync [] s = (err ERR_SUCCESS, s)"
| "mount_sync (m # ms) s =
     (case Option.bind (mtype m) fs_sync of
        None \<Rightarrow> mount_sync ms s
      | Some sync \<Rightarrow>
          (case sync (mount_id m) (mdata m) s of
             (r, s) \<Rightarrow> if r \<noteq> 0 then (r, s) else mount_sync ms s))"

definition mount_stat_of :: "string option \<Rightarrow> mount_stat option \<Rightarrow> 's mount list \<Rightarrow> int \<times> mount_stat option" where
  "mount_stat_of target out ms =
     (if target = None \<or> out = None then (err ERR_INVALID_ARGUMENT, out)
      else (case find_mount_by_target ms target of
          None \<Rightarrow> (err ERR_ADDRESS_IN_USE_NET, out)
        | Some m \<Rightarrow>
            (err ERR_SUCCESS,
             Some \<lparr>ms_source = msource m, ms_target = mtarget m, ms_type = map_option fs_name (mtype m)\<rparr>)))"

definition vfs_mount :: "(string \<times> 'z kfs_scheme fs_type) list \<Rightarrow> string option \<Rightarrow> string option \<Rightarrow> string option \<Rightarrow> string option
    \<Rightarrow> 'z kfs_scheme mount list \<Rightarrow> 'z kfs_scheme \<Rightarrow> (int \<times> 'z kfs_scheme mount list \<times> 'z kfs_scheme) option" where
  "vfs_mount types name source target opts ms s =
     (if name = None then Some (err ERR_INVALID_ARGUMENT, ms, s)
      else (case find_fs_type types name of
          None \<Rightarrow> Some (err ERR_NOT_FOUND, ms, s)
        | Some ft \<Rightarrow> mount_do_mount (Some ft) source target opts ms s))"

definition vfs_unmount :: "string option \<Rightarrow> 'z kfs_scheme mount list \<Rightarrow> 'z kfs_scheme
    \<Rightarrow> (int \<times> 'z kfs_scheme mount list \<times> 'z kfs_scheme) option" where
  "vfs_unmount target ms s = mount_do_unmount target ms s"

text \<open>The type \<open>ramfs_type\<close> and its registration.\<close>

definition ramfs_type :: "'z rfs_scheme fs_type" where
  "ramfs_type =
     \<lparr>fs_name = ''ramfs'',
      fs_mount = Some (\<lambda>m opts. ramfs_mount_fn),
      fs_unmount = Some (\<lambda>m. ramfs_unmount_fn),
      fs_sync = Some (\<lambda>m data s. (ramfs_sync_fn (Some m), s)),
      fs_root = Some (\<lambda>m data s. case ramfs_root_vnode (Some m) data (Some None) s of (r, out, s) \<Rightarrow> (r, the out, s))\<rparr>"

definition ramfs_init :: "(string \<times> 'z rfs_scheme fs_type) list \<Rightarrow> (string \<times> 'z rfs_scheme fs_type) list" where
  "ramfs_init types = snd (vfs_register_fs (Some (Some ''ramfs'', ramfs_type)) types)"

section \<open>Releasing a tree\<close>

text \<open>What the release of a tree relies on: children are younger than their parent, and a cached vnode is the node's own.\<close>

definition releasable :: "nat \<Rightarrow> 'z rfs_scheme \<Rightarrow> bool" where
  "releasable K s \<longleftrightarrow> (\<forall>n c. c \<in> set (kids (rnodes s) n) \<longrightarrow> n < c) \<and> (\<forall>n \<ge> K. rnodes s n = None) \<and>
     (\<forall>n nd v vn m. rnodes s n = Some nd \<longrightarrow> vnode_cache nd = Some v \<longrightarrow> vnodes s v = Some vn \<longrightarrow> vdata vn = Some m \<longrightarrow> m = n)"

lemma releasableD:
  assumes "releasable K s"
  shows "c \<in> set (kids (rnodes s) n) \<Longrightarrow> n < c" "K \<le> n \<Longrightarrow> rnodes s n = None"
    "rnodes s n = Some nd \<Longrightarrow> vnode_cache nd = Some v \<Longrightarrow> vnodes s v = Some vn \<Longrightarrow> vdata vn = Some m \<Longrightarrow> m = n"
  using assms unfolding releasable_def by blast+

lemma wf_releasable:
  assumes "rfs_wf s"
  shows "releasable (next_id s) s"
proof -
  have "vdata vn = Some m \<Longrightarrow> m = n"
    if "rnodes s n = Some nd" "vnode_cache nd = Some v" "vnodes s v = Some vn" for n nd v vn m
    using vnodes_wfD(1) [OF rfs_wfD(2) [OF assms] that(1,2)] that(3) by simp
  then show ?thesis
    using tree_wfD(3,6) [OF rfs_wfD(1) [OF assms]] rfs_wfD(5) [OF assms] by (auto simp: releasable_def)
qed

text \<open>Dropping a reference changes only the vnode and, with the last one, frees its node.\<close>

lemma unref_shape:
  obtains V' where "vnodes (vnode_unref ramfs_destroy_tbl (Some v) s) = (vnodes s)(v := V')"
    "rnodes (vnode_unref ramfs_destroy_tbl (Some v) s) = rnodes s \<or>
     (\<exists>vn m. vnodes s v = Some vn \<and> vdata vn = Some m \<and>
        rnodes (vnode_unref ramfs_destroy_tbl (Some v) s) = (rnodes s)(m := None))"
    "\<And>vn'. V' = Some vn' \<Longrightarrow> \<exists>vn. vnodes s v = Some vn \<and> vdata vn' = vdata vn"
proof (cases "vnodes s v")
  case None
  then show ?thesis
    using that [of None] by (simp add: vnode_unref_def fun_upd_idem)
next
  case (Some vn)
  show ?thesis
  proof (cases "refcnt vn = 0 \<or> refcnt vn - 1 \<noteq> 0")
    case True
    then show ?thesis
      using that [of "Some (if refcnt vn = 0 then vn else vn\<lparr>refcnt := refcnt vn - 1\<rparr>)"] Some
      by (auto simp: vnode_unref_def Let_def fun_upd_idem)
  next
    case False
    then show ?thesis
      using that [of None] Some
      by (cases "vdata vn") (auto simp: vnode_unref_def Let_def vop_def ramfs_destroy_tbl_def ramfs_destroy_vnode_def
          upd_node_def ramfs_node_free_def split: option.splits)
  qed
qed

lemma release_node:
  assumes "releasable K s" "rnodes s n = Some nd"
  shows "releasable K (ramfs_node_release n s) \<and> (\<forall>m < n. rnodes (ramfs_node_release n s) m = rnodes s m)"
proof (cases "vnode_cache nd")
  case None
  then have "rnodes (ramfs_node_release n s) = (rnodes s)(n := None)" "vnodes (ramfs_node_release n s) = vnodes s"
    using assms(2) by (auto simp: ramfs_node_release_def ramfs_node_free_def)
  then show ?thesis
    using assms(1) by (auto simp: releasable_def)
next
  case (Some v)
  let ?s1 = "upd_node n (\<lambda>x. x\<lparr>vnode_cache := None\<rparr>) s"
  have eq: "ramfs_node_release n s = vnode_unref ramfs_destroy_tbl (Some v) ?s1"
    using assms(2) Some by (simp add: ramfs_node_release_def)
  have s1: "rnodes ?s1 = (rnodes s)(n \<mapsto> nd\<lparr>vnode_cache := None\<rparr>)" "vnodes ?s1 = vnodes s"
    using assms(2) by (auto simp: upd_node_def)
  obtain V' where V': "vnodes (ramfs_node_release n s) = (vnodes s)(v := V')"
      "rnodes (ramfs_node_release n s) = rnodes ?s1 \<or>
       (\<exists>vn m. vnodes s v = Some vn \<and> vdata vn = Some m \<and> rnodes (ramfs_node_release n s) = (rnodes ?s1)(m := None))"
      "\<And>vn'. V' = Some vn' \<Longrightarrow> \<exists>vn. vnodes s v = Some vn \<and> vdata vn' = vdata vn"
    using unref_shape [of v ?s1] unfolding eq s1(2) by blast
  obtain x where x: "rnodes (ramfs_node_release n s) = (rnodes s)(n := x)"
      "x = Some (nd\<lparr>vnode_cache := None\<rparr>) \<or> x = None"
    using V'(2) releasableD(3) [OF assms(1,2) Some] s1(1) by fastforce
  have kids: "kids (rnodes (ramfs_node_release n s)) m = (if m = n \<and> x = None then [] else kids (rnodes s) m)" for m
    using x assms(2) by (auto simp: kids_def)
  have old: "rnodes (ramfs_node_release n s) m = Some md \<Longrightarrow> vnode_cache md = Some w \<Longrightarrow> rnodes s m = Some md" for m md w
    using x by (auto split: if_splits)
  have "vdata wn = Some k \<Longrightarrow> k = m" if a: "rnodes (ramfs_node_release n s) m = Some md" "vnode_cache md = Some w"
      "vnodes (ramfs_node_release n s) w = Some wn" for m md w wn k
    using a(3) V'(1) V'(3) [of wn] releasableD(3) [OF assms(1) old [OF a(1,2)] a(2)] by (auto split: if_splits)
  moreover have "n < K"
    using releasableD(2) [OF assms(1), of n] assms(2) by (cases "K \<le> n") auto
  ultimately show ?thesis
    using releasableD(1,2) [OF assms(1)] x kids unfolding releasable_def by auto
qed

lemma upd_releasable:
  assumes "releasable K s" "\<And>x. set (rchildren (g x)) \<subseteq> set (rchildren x)" "\<And>x. vnode_cache (g x) = vnode_cache x"
  shows "releasable K (upd_node n g s)"
proof (cases "rnodes s n")
  case None
  then have "upd_node n g s = s"
    by (simp add: upd_node_def fun_upd_idem)
  then show ?thesis
    using assms(1) by simp
next
  case (Some nd)
  then have "rnodes (upd_node n g s) = (rnodes s)(n \<mapsto> g nd)" "vnodes (upd_node n g s) = vnodes s"
    by (auto simp: upd_node_def)
  then show ?thesis
    using releasableD [OF assms(1)] Some assms(2) [of nd] assms(3) [of nd] unfolding releasable_def
    by (auto simp: tree_at)
qed

text \<open>
  The release of a tree returns, and leaves the nodes older than its root alone; by induction on the distance
  of the root from the newest node and, for one node, on the number of its children.
\<close>

lemma tree_release_returns:
  fixes s :: "'z rfs_scheme"
  assumes "releasable K s"
  shows "\<exists>s'. ramfs_tree_release n s = Some s' \<and> releasable K s' \<and> (\<forall>m < n. rnodes s' m = rnodes s m)"
  using assms
proof (induction "(K - n, length (kids (rnodes s) n))" arbitrary: n s rule: wf_induct_rule [OF wf_lex_prod [OF wf_less_than wf_less_than]])
  case (1 n s)
  have IH: "\<exists>s'. ramfs_tree_release m t = Some s' \<and> releasable K s' \<and> (\<forall>k < m. rnodes s' k = rnodes t k)"
    if "releasable K t" "K - m < K - n \<or> m = n \<and> length (kids (rnodes t) m) < length (kids (rnodes s) n)"
    for m and t :: "'z rfs_scheme"
    using 1(1) [OF _ that(1)] that(2) by auto
  show ?case
  proof (cases "rnodes s n")
    case None
    then show ?thesis
      using 1(2) by (subst ramfs_tree_release.simps) simp
  next
    case (Some nd)
    show ?thesis
    proof (cases "rchildren nd")
      case Nil
      then show ?thesis
        using release_node [OF 1(2) Some] Some by (subst ramfs_tree_release.simps) simp
    next
      case (Cons c cs)
      let ?s1 = "upd_node n (\<lambda>x. x\<lparr>rchildren := cs\<rparr>) s"
      let ?s2 = "upd_node c (\<lambda>x. x\<lparr>rparent := None\<rparr>) ?s1"
      have nc: "n < c" "n < K"
        using releasableD(1) [OF 1(2), of c n] releasableD(2) [OF 1(2), of n] Some Cons by (force simp: tree_at)+
      have n1: "rnodes ?s1 = (rnodes s)(n \<mapsto> nd\<lparr>rchildren := cs\<rparr>)"
        using Some by (simp add: upd_node_def)
      have r1: "releasable K ?s1"
        using releasableD [OF 1(2)] Some Cons unfolding releasable_def n1
        by (auto simp: tree_at upd_node_def)
      have r2: "releasable K ?s2"
        by (rule upd_releasable [OF r1]) auto
      have old: "rnodes ?s2 m = rnodes ?s1 m" if "m < c" for m
        using that by (simp add: upd_node_def)
      obtain s3 where s3: "ramfs_tree_release c ?s2 = Some s3" "releasable K s3" "\<forall>m < c. rnodes s3 m = rnodes ?s2 m"
      proof (cases "c < K")
        case True
        then have "K - c < K - n"
          using nc by simp
        then show ?thesis
          using IH [OF r2, of c] that by blast
      next
        case False
        then have "rnodes ?s2 c = None"
          using releasableD(2) [OF r2, of c] by simp
        then show ?thesis
          using that [of ?s2] r2 by (simp add: ramfs_tree_release.simps [of c])
      qed
      then have n3: "rnodes s3 n = Some (nd\<lparr>rchildren := cs\<rparr>)"
        using nc(1) old [OF nc(1)] n1 by simp
      then obtain s4 where s4: "ramfs_tree_release n s3 = Some s4" "releasable K s4" "\<forall>m < n. rnodes s4 m = rnodes s3 m"
        using IH [OF s3(2), of n] Some Cons by (auto simp: tree_at)
      have "ramfs_tree_release n s = Some s4"
        using Some Cons s3(1) s4(1) by (subst ramfs_tree_release.simps) simp
      moreover have "\<forall>m < n. rnodes s4 m = rnodes s m"
        using s4(3) s3(3) nc(1) old n1 by simp
      ultimately show ?thesis
        using s4(2) by blast
    qed
  qed
qed

text \<open>
  C16: unmounting ends. Unmounting a well-formed memory file system releases its whole tree in
  finitely many steps, for whatever private data the mount carries, and reports success.
\<close>

theorem ramfs_unmount_returns:
  assumes "rfs_wf s"
  shows "\<exists>s'. ramfs_unmount_fn data s = Some (err ERR_SUCCESS, None, s') \<and>
    (\<forall>rm root m. data = Some rm \<longrightarrow> rmounts s rm = Some (Some root) \<longrightarrow> m < root \<longrightarrow> rnodes s' m = rnodes s m)"
proof (cases "Option.bind (Option.bind data (rmounts s)) id")
  case None
  then show ?thesis
    by (cases data) (auto simp: ramfs_unmount_fn_def)
next
  case (Some root)
  then obtain rm where rm: "data = Some rm" "rmounts s rm = Some (Some root)"
    by (auto simp: bind_eq_Some_conv)
  obtain s' where "ramfs_tree_release root s = Some s'" "\<forall>m < root. rnodes s' m = rnodes s m"
    using tree_release_returns [OF wf_releasable [OF assms], of root] by blast
  then show ?thesis
    using rm by (auto simp: ramfs_unmount_fn_def)
qed

theorem ramfs_unmount_returns_witness:
  "\<exists>s'. ramfs_unmount_fn (Some 9) (small_fs\<lparr>rmounts := [9 \<mapsto> Some 0]\<rparr>) = Some (err ERR_SUCCESS, None, s')"
proof -
  have "rfs_wf (small_fs\<lparr>rmounts := [9 \<mapsto> Some 0]\<rparr>)"
    using small_wf by (simp add: rfs_wf_def)
  then show ?thesis
    using ramfs_unmount_returns by blast
qed

section \<open>Mounting\<close>









section \<open>The table\<close>

lemma do_mount_shape:
  assumes "mount_do_mount (Some ft) source (Some t) opts ms s = Some (r, ms', s')"
  shows "(if find_mount_by_target ms (Some t) \<noteq> None then r = err ERR_ALREADY_EXISTS \<and> ms' = ms \<and> s' = s
          else if r = err ERR_SUCCESS then \<exists>m. ms' = ms @ [m] \<and> mtarget m = t \<and> mtype m = Some ft else ms' = ms)"
  using assms
  by (auto simp: mount_do_mount_def Let_def split: option.splits prod.splits if_splits)

lemma do_unmount_last:
  assumes "t \<notin> mtarget ` set ms" "mtarget m = t"
  shows "mount_do_unmount (Some t) (ms @ [m]) s =
    map_option (\<lambda>(r, data, s). if r \<noteq> 0 then (r, ms @ [m\<lparr>mdata := data\<rparr>], s)
      else (err ERR_SUCCESS, ms, drop_root (root_vnode m) s)) (call_unmount m s)"
  using assms by (cases "call_unmount m s") (induction ms, auto)+

lemma find_mount_None: "find_mount_by_target ms (Some t) = None \<longleftrightarrow> t \<notin> mtarget ` set ms"
  by (auto simp: find_mount_by_target_def find_None_iff)

text \<open>
  C32: the mount table. For any file system type, a mount keeps the targets of the table distinct; when it
  succeeds, the new target is found and every other target is found as before; and whatever happens to the file
  system in between, unmounting the target either fails with the error of the file system, leaving
  the mount in the table, or gives back the table from before the mount.
\<close>

theorem mount_table_roundtrip:
  fixes s :: "'z kfs_scheme" and t' :: "'z kfs_scheme"
  assumes "distinct (map mtarget ms)" "mount_do_mount (Some ft) source (Some t) opts ms s = Some (r, ms', s')"
  shows "distinct (map mtarget ms') \<and>
    (r = err ERR_SUCCESS \<longrightarrow>
       (\<exists>m. find_mount_by_target ms' (Some t) = Some m \<and> mtype m = Some ft \<and> mtarget m = t) \<and>
       (\<forall>u. u \<noteq> t \<longrightarrow> find_mount_by_target ms' (Some u) = find_mount_by_target ms (Some u)) \<and>
       (\<forall>r2 ms2 t2. mount_do_unmount (Some t) ms' t' = Some (r2, ms2, t2) \<longrightarrow>
          (if r2 = err ERR_SUCCESS then ms2 = ms else map mtarget ms2 = map mtarget ms')))"
proof -
  note S = do_mount_shape [OF assms(2)]
  show ?thesis
  proof (cases "find_mount_by_target ms (Some t) = None \<and> r = err ERR_SUCCESS")
    case True
    then obtain m where m: "ms' = ms @ [m]" "mtarget m = t" "mtype m = Some ft"
      using S by auto
    moreover have f: "t \<notin> mtarget ` set ms"
      using True find_mount_None by blast
    moreover have "find_mount_by_target ms' (Some t) = Some m"
      using True m by (simp add: find_mount_by_target_def find_append)
    moreover have "find_mount_by_target ms' (Some u) = find_mount_by_target ms (Some u)" if "u \<noteq> t" for u
      using that m by (simp add: find_mount_by_target_def find_append split: option.split)
    ultimately show ?thesis
      using assms(1) do_unmount_last [OF f m(2), of t'] by (auto split: if_splits)
  qed (use S assms(1) in \<open>auto split: if_splits\<close>)
qed

theorem mount_table_roundtrip_witness:
  "\<exists>ms' s'. mount_do_mount (Some ramfs_type) None (Some ''/tmp'') None [] small_fs = Some (err ERR_SUCCESS, ms', s') \<and>
     length ms' = 1 \<and> (\<forall>r2 ms2 t2. mount_do_unmount (Some ''/tmp'') ms' s' = Some (err ERR_SUCCESS, ms2, t2) \<longrightarrow> ms2 = [])"
proof -
  obtain ms' s' where m: "mount_do_mount (Some ramfs_type) None (Some ''/tmp'') None [] small_fs = Some (err ERR_SUCCESS, ms', s')"
      "length ms' = 1"
    by (auto simp: mount_do_mount_def ramfs_type_def find_mount_by_target_def kmalloc_def Let_def small_defs ramfs_mount_fn_def
        ramfs_node_create_def ramfs_root_vnode_def ramfs_node_vnode_def vnode_create_def upd_node_def)
  show ?thesis
    using mount_table_roundtrip [OF _ m(1)] m by auto
qed

end
