(* ===== verification/Net_Checksum.thy ===== *)
theory Net_Checksum
  imports Prelude
begin

text \<open>
  The Internet checksum and the headers it protects: \<^verbatim>\<open>src/kernel/net/checksum.c\<close>, \<^verbatim>\<open>udp.c\<close>, \<^verbatim>\<open>tcp.c\<close>, \<^verbatim>\<open>ipv4.c\<close> and
  \<^verbatim>\<open>ethernet.c\<close>. A pointer with a length is the list of the bytes it points to; log messages are left out. The machine
  is little-endian: a 16-bit field of a packed header is stored with its low byte first.
\<close>

section \<open>Model\<close>

definition NET_HTONS :: "u16 \<Rightarrow> u16" where
  "NET_HTONS x = (push_bit 8 x AND 0xFF00) OR (drop_bit 8 x AND 0x00FF)"

definition NET_HTONL :: "u32 \<Rightarrow> u32" where
  "NET_HTONL x = push_bit 16 (ucast (NET_HTONS (ucast (x AND 0xFFFF)))) OR ucast (NET_HTONS (ucast (drop_bit 16 x AND 0xFFFF)))"

text \<open>A word of two bytes, the loop that adds up the words, and the loop that folds the carries.\<close>

definition be_word :: "u8 \<Rightarrow> u8 \<Rightarrow> u32" where
  "be_word a b = push_bit 8 (ucast a) OR ucast b"

fun sum_words :: "u8 list \<Rightarrow> u32 \<Rightarrow> u32" where
  "sum_words (a # b # bs) acc = sum_words bs (acc + be_word a b)"
| "sum_words [a] acc = acc + push_bit 8 (ucast a)"
| "sum_words [] acc = acc"

lemma unat_fold_step: "unat ((s AND 0xFFFF) + drop_bit 16 s) = unat s mod 65536 + unat s div 65536" for s :: u32
proof -
  have "unat (s AND 0xFFFF) = unat s mod 65536"
  proof -
    have "s AND 0xFFFF = take_bit 16 s"
      by (simp add: take_bit_eq_mask mask_eq_exp_minus_1)
    then show ?thesis
      by (simp add: take_bit_eq_mod unat_mod_distrib)
  qed
  moreover have "unat (drop_bit 16 s) = unat s div 65536"
    by (simp add: drop_bit_eq_div unat_div_distrib)
  moreover have "unat s div 65536 < 65536"
    using unat_less_32 [of s] by simp
  moreover have "unat s mod 65536 < 65536"
    by simp
  ultimately show ?thesis
    by (subst unat_word_ariths) simp
qed

function fold_sum :: "u32 \<Rightarrow> u32" where
  "fold_sum acc = (if drop_bit 16 acc \<noteq> 0 then fold_sum ((acc AND 0xFFFF) + drop_bit 16 acc) else acc)"
  by auto
termination
proof (relation "measure unat", goal_cases)
  case (2 s)
  have "unat (drop_bit 16 s) = unat s div 65536"
    by (simp add: drop_bit_eq_div unat_div_distrib)
  then have "unat s div 65536 \<noteq> 0"
    using 2 by (metis unat_eq_0)
  then have "unat s mod 65536 + unat s div 65536 < unat s"
    using mod_mult_div_eq [of "unat s" 65536] by linarith
  then show ?case
    by (simp only: in_measure unat_fold_step)
qed simp

declare fold_sum.simps [simp del]

definition net_checksum :: "u8 list \<Rightarrow> u16" where
  "net_checksum bytes = ucast (NOT (fold_sum (sum_words bytes 0)))"

definition net_ipv4_checksum :: "u8 list \<Rightarrow> u16" where
  "net_ipv4_checksum bytes = net_checksum bytes"

definition addr_bytes :: "u32 \<Rightarrow> u8 list" where
  "addr_bytes a = [ucast (drop_bit 24 a AND 0xFF), ucast (drop_bit 16 a AND 0xFF), ucast (drop_bit 8 a AND 0xFF), ucast (a AND 0xFF)]"

definition net_pseudo_checksum :: "u32 \<Rightarrow> u32 \<Rightarrow> u8 \<Rightarrow> u8 list \<Rightarrow> u16" where
  "net_pseudo_checksum src dst protocol bytes =
     (let s = addr_bytes src; d = addr_bytes dst;
          acc = be_word (s ! 0) (s ! 1) + be_word (s ! 2) (s ! 3) + be_word (d ! 0) (d ! 1) + be_word (d ! 2) (d ! 3)
                + ucast protocol + ucast (of_nat (length bytes) :: u16)
      in ucast (NOT (fold_sum (sum_words bytes acc))))"

text \<open>The common body of the UDP and TCP checksums; addresses are given by four bytes, \<open>NULL\<close> by \<open>None\<close>.\<close>

definition NET_IPPROTO_TCP :: u16 where "NET_IPPROTO_TCP = 6"
definition NET_IPPROTO_UDP :: u16 where "NET_IPPROTO_UDP = 17"

definition transport_checksum :: "u16 \<Rightarrow> u8 list option \<Rightarrow> u8 list option \<Rightarrow> u8 list option \<Rightarrow> u16" where
  "transport_checksum proto src_ip dst_ip data =
     (case (src_ip, dst_ip, data) of
        (Some s, Some d, Some bytes) \<Rightarrow>
          let acc = be_word (s ! 0) (s ! 1) + be_word (s ! 2) (s ! 3);
              acc = acc + be_word (d ! 0) (d ! 1) + be_word (d ! 2) (d ! 3);
              acc = acc + ucast (NET_HTONS proto);
              acc = acc + ucast (NET_HTONS (of_nat (length bytes)))
          in ucast (NOT (fold_sum (sum_words bytes acc)))
      | _ \<Rightarrow> 0)"

definition net_udp_checksum :: "u8 list option \<Rightarrow> u8 list option \<Rightarrow> u8 list option \<Rightarrow> u16" where
  "net_udp_checksum = transport_checksum NET_IPPROTO_UDP"

definition net_tcp_checksum :: "u8 list option \<Rightarrow> u8 list option \<Rightarrow> u8 list option \<Rightarrow> u16" where
  "net_tcp_checksum = transport_checksum NET_IPPROTO_TCP"

record ipv4_header =
  ihl_version :: u8
  tos :: u8
  total_length :: u16
  identification :: u16
  flags_fragment :: u16
  ttl :: u8
  protocol :: u8
  checksum :: u16
  ip_src :: u32
  ip_dst :: u32

definition le16 :: "u16 \<Rightarrow> u8 list" where
  "le16 x = [ucast x, ucast (drop_bit 8 x)]"

definition le32 :: "u32 \<Rightarrow> u8 list" where
  "le32 x = [ucast x, ucast (drop_bit 8 x), ucast (drop_bit 16 x), ucast (drop_bit 24 x)]"

definition header_bytes :: "ipv4_header \<Rightarrow> u8 list" where
  "header_bytes h = [ihl_version h, tos h] @ le16 (total_length h) @ le16 (identification h) @ le16 (flags_fragment h) @
     [ttl h, protocol h] @ le16 (checksum h) @ le32 (ip_src h) @ le32 (ip_dst h)"

definition net_ipv4_header_valid :: "ipv4_header option \<Rightarrow> int" where
  "net_ipv4_header_valid hdr =
     (case hdr of
        None \<Rightarrow> 0
      | Some h \<Rightarrow>
          let version = drop_bit 4 (ihl_version h); ihl = ihl_version h AND 0x0F in
          if version \<noteq> 4 \<or> ihl < 5 then 0
          else
            let header_size = (ucast ihl :: u32) * 4 in
            if header_size > 20 then 0
            else if (ucast (NET_HTONS (total_length h)) :: u32) < header_size then 0
            else if net_ipv4_checksum (take (unat header_size) (header_bytes h)) \<noteq> 0 then 0
            else 1)"

definition net_ipv4_fill_header :: "u32 \<Rightarrow> u32 \<Rightarrow> u8 \<Rightarrow> u16 \<Rightarrow> ipv4_header option \<Rightarrow> ipv4_header option" where
  "net_ipv4_fill_header src dst proto payload_len hdr =
     (case hdr of
        None \<Rightarrow> None
      | Some h \<Rightarrow>
          let h = h\<lparr>ihl_version := push_bit 4 4 OR 5, tos := 0, total_length := NET_HTONS (20 + payload_len), identification := 0,
                flags_fragment := NET_HTONS 0x4000, ttl := 64, protocol := proto, checksum := 0,
                ip_src := NET_HTONL src, ip_dst := NET_HTONL dst\<rparr>
          in Some (h\<lparr>checksum := net_ipv4_checksum (header_bytes h)\<rparr>))"

section \<open>Sums modulo 65535\<close>

fun word_total :: "u8 list \<Rightarrow> nat" where
  "word_total (a # b # bs) = unat a * 256 + unat b + word_total bs"
| "word_total [a] = unat a * 256"
| "word_total [] = 0"

lemma unat_be_word: "unat (be_word a b) = unat a * 256 + unat b"
proof -
  have "push_bit 8 (ucast a :: u32) OR ucast b = push_bit 8 (ucast a) + ucast b"
    by (rule disjunctive_add [symmetric]) (auto simp: bit_simps dest: bit_imp_le_length)
  then have "be_word a b = of_nat (unat a * 256 + unat b)"
    by (simp add: be_word_def push_bit_eq_mult unsigned_ucast_eq)
  moreover have "unat a < 256" "unat b < 256"
    using unsigned_less [of a] unsigned_less [of b] by auto
  ultimately show ?thesis
    by (simp only: unat_of_nat) simp
qed

lemma word_total_bound: "word_total bs \<le> 65535 * ((length bs + 1) div 2)"
proof (induction bs rule: word_total.induct)
  case (1 a b bs)
  have "unat a < 256" "unat b < 256"
    using unsigned_less [of a] unsigned_less [of b] by auto
  then show ?case
    using 1 by simp
next
  case (2 a)
  have "unat a < 256"
    using unsigned_less [of a] by auto
  then show ?case
    by simp
qed simp

lemma unat_sum_words:
  assumes "unat s + word_total bs < 2 ^ 32"
  shows "unat (sum_words bs s) = unat s + word_total bs"
  using assms
proof (induction bs s rule: sum_words.induct)
  case (1 a b bs s)
  then have "unat (s + be_word a b) = unat s + (unat a * 256 + unat b)"
    by (subst unat_word_ariths) (simp add: unat_be_word)
  then show ?case
    using 1 by simp
next
  case (2 a s)
  have "push_bit 8 (ucast a :: u32) = be_word a 0"
    by (simp add: be_word_def)
  then show ?case
    using 2 by (simp add: unat_word_ariths unat_be_word)
qed simp

lemma mod_65535_split: "(n mod 65536 + n div 65536) mod 65535 = n mod 65535" for n :: nat
proof -
  have "n mod 65535 = (n mod 65536 + 65536 * (n div 65536)) mod 65535"
    by simp
  also have "\<dots> = (n mod 65536 + n div 65536 + 65535 * (n div 65536)) mod 65535"
    by (simp add: algebra_simps)
  also have "\<dots> = (n mod 65536 + n div 65536) mod 65535"
    by (rule mod_mult_self2)
  finally show ?thesis ..
qed

text \<open>The folded sum is the representative between 1 and 65535 of a positive sum modulo 65535.\<close>

lemma fold_sum_spec: "unat (fold_sum s) < 65536 \<and> unat (fold_sum s) mod 65535 = unat s mod 65535 \<and> (fold_sum s = 0 \<longleftrightarrow> s = 0)"
proof (induction s rule: fold_sum.induct)
  case (1 s)
  have d: "drop_bit 16 s = 0 \<longleftrightarrow> unat s div 65536 = 0"
    by (simp add: word_unat_eq_iff drop_bit_eq_div unat_div_distrib)
  show ?case
  proof (cases "drop_bit 16 s = 0")
    case True
    then show ?thesis
      using d by (subst (1 2 3) fold_sum.simps) auto
  next
    case False
    let ?t = "(s AND 0xFFFF) + drop_bit 16 s"
    have "fold_sum s = fold_sum ?t"
      using False by (subst fold_sum.simps) simp
    moreover have "?t \<noteq> 0" "s \<noteq> 0"
      using False d unat_fold_step [of s] by auto
    ultimately show ?thesis
      using 1 [OF False] unat_fold_step [of s] mod_65535_split [of "unat s"] by simp
  qed
qed

lemma fold_sum_full: "unat (fold_sum s) = 65535 \<longleftrightarrow> s \<noteq> 0 \<and> unat s mod 65535 = 0"
proof -
  note f = fold_sum_spec [of s]
  have z: "fold_sum s = 0 \<longleftrightarrow> unat (fold_sum s) = 0"
    by (simp add: unat_eq_0)
  have "unat (fold_sum s) mod 65535 = 0 \<longleftrightarrow> unat (fold_sum s) = 0 \<or> unat (fold_sum s) = 65535"
    using f by (auto simp: mod_eq_0_iff_dvd dvd_def)
  then show ?thesis
    using f z by auto
qed

lemma fold_sum_eq:
  assumes "s \<noteq> 0" "t \<noteq> 0"
  shows "fold_sum s = fold_sum t \<longleftrightarrow> unat s mod 65535 = unat t mod 65535"
proof -
  note f = fold_sum_spec [of s] fold_sum_spec [of t]
  have "0 < unat (fold_sum s)" "0 < unat (fold_sum t)"
    using f assms by (simp_all add: unat_gt_0)
  moreover have "x mod 65535 = y mod 65535 \<longleftrightarrow> x = y" if "0 < x" "x < 65536" "0 < y" "y < 65536" for x y :: nat
    using that by (cases "x = 65535"; cases "y = 65535") auto
  ultimately have "unat (fold_sum s) mod 65535 = unat (fold_sum t) mod 65535 \<longleftrightarrow> unat (fold_sum s) = unat (fold_sum t)"
    using f by blast
  then show ?thesis
    using f by (simp add: word_unat_eq_iff)
qed

lemma unat_complement:
  fixes s :: u32
  assumes "unat s < 65536"
  shows "unat (ucast (NOT s) :: u16) = 65535 - unat s"
proof -
  have "(ucast (NOT s) :: u16) = NOT (ucast s)"
    by (rule bit_word_eqI) (auto simp: bit_simps)
  moreover have "unat (ucast s :: u16) = unat s"
    using assms by (simp add: unsigned_ucast_eq take_bit_nat_eq_self)
  moreover have "NOT (ucast s :: u16) = - 1 - ucast s"
    by (simp add: not_eq_complement)
  moreover have "unat (- 1 - (ucast s :: u16)) = unat (- 1 :: u16) - unat (ucast s :: u16)"
    by (rule unat_sub) simp
  moreover have "unat (- 1 :: u16) = 65535"
    by (simp add: unsigned_minus_1_eq_mask mask_eq_exp_minus_1)
  ultimately show ?thesis
    by simp
qed

lemma unat_net_checksum:
  assumes "word_total bs < 2 ^ 32"
  shows "unat (net_checksum bs) = 65535 - unat (fold_sum (sum_words bs 0))" "unat (sum_words bs 0) = word_total bs"
  using unat_complement [of "fold_sum (sum_words bs 0)"] fold_sum_spec unat_sum_words [of 0 bs] assms by (simp_all add: net_checksum_def)

lemma unat_byte_halves: "unat (ucast x :: u8) = unat x mod 256" "unat (ucast (drop_bit 8 x) :: u8) = unat x div 256" for x :: u16
proof -
  have "unat x < 65536"
    using unsigned_less [of x] by auto
  then show "unat (ucast x :: u8) = unat x mod 256" "unat (ucast (drop_bit 8 x) :: u8) = unat x div 256"
    by (simp_all add: unsigned_ucast_eq take_bit_eq_mod drop_bit_eq_div unat_div_distrib)
qed

lemma halves: "(0xFF00 :: u16) = push_bit 8 (mask 8)" "(0x00FF :: u16) = mask 8"
  by (simp_all add: mask_eq_exp_minus_1)

lemma unat_high_byte: "unat (drop_bit 8 x) mod 256 = unat x div 256" for x :: u16
  using unat_byte_halves(2) [of x] unat_byte_halves(1) [of "drop_bit 8 x"] by simp

lemma unat_htons: "unat (NET_HTONS x) = unat x mod 256 * 256 + unat x div 256"
proof -
  have "NET_HTONS x = ucast (be_word (ucast x) (ucast (drop_bit 8 x)))"
    unfolding NET_HTONS_def be_word_def halves
    by (rule bit_word_eqI) (auto simp: bit_simps)
  then have "unat (NET_HTONS x) = unat (be_word (ucast x) (ucast (drop_bit 8 x))) mod 65536"
    by (simp add: unsigned_ucast_eq take_bit_eq_mod)
  moreover have "unat x < 65536"
    using unsigned_less [of x] by auto
  ultimately show ?thesis
    by (simp add: unat_be_word unat_byte_halves unat_high_byte)
qed

lemma word_total_append: "even (length as) \<Longrightarrow> word_total (as @ bs) = word_total as + word_total bs"
  by (induction as rule: word_total.induct) auto

lemma sum_words_eq_0: "word_total bs < 2 ^ 32 \<Longrightarrow> sum_words bs 0 = 0 \<longleftrightarrow> word_total bs = 0"
  using unat_net_checksum(2) [of bs] by (metis unat_eq_0)

lemma net_checksum_eq_0:
  assumes "word_total bs < 2 ^ 32"
  shows "net_checksum bs = 0 \<longleftrightarrow> 0 < word_total bs \<and> word_total bs mod 65535 = 0"
proof -
  note u = unat_net_checksum [OF assms]
  have "net_checksum bs = 0 \<longleftrightarrow> unat (net_checksum bs) = 0"
    by (simp add: unat_eq_0)
  also have "\<dots> \<longleftrightarrow> unat (fold_sum (sum_words bs 0)) = 65535"
    using u(1) fold_sum_spec [of "sum_words bs 0"] by auto
  also have "\<dots> \<longleftrightarrow> 0 < word_total bs \<and> word_total bs mod 65535 = 0"
    using fold_sum_full [of "sum_words bs 0"] u(2) sum_words_eq_0 [OF assms] by auto
  finally show ?thesis .
qed

text \<open>The checksum is the negation of the sum modulo 65535.\<close>

lemma net_checksum_negates:
  assumes "word_total bs < 2 ^ 32" "0 < word_total bs"
  shows "(word_total bs + unat (net_checksum bs)) mod 65535 = 0" "unat (net_checksum bs) < 65535"
proof -
  let ?f = "unat (fold_sum (sum_words bs 0))"
  note u = unat_net_checksum [OF assms(1)]
  have f: "?f \<le> 65535" "?f mod 65535 = word_total bs mod 65535" "0 < ?f"
    using fold_sum_spec [of "sum_words bs 0"] u(2) sum_words_eq_0 [OF assms(1)] assms(2) by (auto simp: unat_gt_0)
  have "(word_total bs + (65535 - ?f)) mod 65535 = (?f + (65535 - ?f)) mod 65535"
    using f(2) by (metis mod_add_left_eq)
  also have "\<dots> = 0"
    using f(1) by simp
  finally show "(word_total bs + unat (net_checksum bs)) mod 65535 = 0" "unat (net_checksum bs) < 65535"
    using u(1) f(3) by simp_all
qed

text \<open>
  C36: the checksum verifies. For data of at most 128 KiB, the checksum is zero exactly when the sum of the
  big-endian 16-bit words is a positive multiple of 65535; and appending to data of even length its checksum, high byte first,
  always gives data whose checksum is zero, unless all the data are zero.
\<close>

theorem net_checksum_verifies:
  assumes "length bs \<le> 131066"
  shows "(net_checksum bs = 0 \<longleftrightarrow> 0 < word_total bs \<and> word_total bs mod 65535 = 0) \<and>
    (even (length bs) \<longrightarrow> 0 < word_total bs \<longrightarrow>
       net_checksum (bs @ [ucast (drop_bit 8 (net_checksum bs)), ucast (net_checksum bs)]) = 0)"
proof -
  let ?c = "net_checksum bs" and ?bs = "bs @ [ucast (drop_bit 8 (net_checksum bs)), ucast (net_checksum bs)]"
  have len: "word_total bs < 2 ^ 32" "word_total ?bs < 2 ^ 32"
    using assms word_total_bound [of bs] word_total_bound [of ?bs] by auto
  have "net_checksum ?bs = 0" if "even (length bs)" "0 < word_total bs"
  proof -
    have "word_total ?bs = word_total bs + unat ?c"
      using that(1) by (simp add: word_total_append unat_byte_halves unat_high_byte)
    then show ?thesis
      using net_checksum_eq_0 [OF len(2)] net_checksum_negates [OF len(1) that(2)] that(2) by simp
  qed
  then show ?thesis
    using net_checksum_eq_0 [OF len(1)] by blast
qed

theorem net_checksum_verifies_witness:
  "net_checksum [0x45, 0, 0, 0x1C] = 0xBAE3 \<and> net_checksum [0x45, 0, 0, 0x1C, 0xBA, 0xE3] = 0"
proof -
  have c: "net_checksum [0x45, 0, 0, 0x1C] = 0xBAE3"
    by (simp add: net_checksum_def be_word_def fold_sum.simps)
  have b: "ucast (drop_bit 8 (0xBAE3 :: u16)) = (0xBA :: u8)" "ucast (0xBAE3 :: u16) = (0xE3 :: u8)"
    by simp_all
  show ?thesis
    using net_checksum_verifies [of "[0x45, 0, 0, 0x1C]", unfolded c b] c by simp
qed

section \<open>IPv4 headers\<close>

lemma word_total_le16 [simp]: "word_total (le16 x @ bs) = unat (NET_HTONS x) + word_total bs"
  by (simp add: le16_def unat_htons unat_byte_halves unat_high_byte)

lemma htons_twice [simp]: "NET_HTONS (NET_HTONS x) = x"
  unfolding NET_HTONS_def halves by (rule bit_word_eqI) (auto simp: bit_simps)

lemma htons_eq_iff: "NET_HTONS x = y \<longleftrightarrow> x = NET_HTONS y"
  by auto

lemma mod_eq_int: "a mod 65535 = b mod 65535 \<longleftrightarrow> int a mod 65535 = int b mod 65535" for a b :: nat
proof -
  have "int (a mod 65535) = int (b mod 65535) \<longleftrightarrow> a mod 65535 = b mod 65535"
    by (rule of_nat_eq_iff)
  then show ?thesis
    by (simp add: zmod_int)
qed

lemma u16_mod_65535:
  fixes c y :: u16
  assumes "unat c < 65535" "(n + unat c) mod 65535 = 0"
  shows "(unat y + n) mod 65535 = 0 \<longleftrightarrow> y = c \<or> c = 0 \<and> y = 0xFFFF"
proof -
  have y: "unat y < 65536"
    using unsigned_less [of y] by auto
  have dvd: "a mod 65535 = 0 \<longleftrightarrow> 65535 dvd int a" for a
    by (simp add: mod_eq_0_iff_dvd flip: int_dvd_int_iff)
  have "65535 dvd int n + int (unat c)"
    using assms(2) dvd [of "n + unat c"] by simp
  then have "65535 dvd (int n + int (unat c)) + (int (unat y) - int (unat c)) \<longleftrightarrow> 65535 dvd int (unat y) - int (unat c)"
    by (rule dvd_add_right_iff)
  then have "(unat y + n) mod 65535 = 0 \<longleftrightarrow> int (unat y) mod 65535 = int (unat c) mod 65535"
    using dvd [of "unat y + n"] by (simp add: mod_eq_dvd_iff algebra_simps)
  also have "\<dots> \<longleftrightarrow> unat y mod 65535 = unat c mod 65535"
    by (simp only: mod_eq_int)
  also have "\<dots> \<longleftrightarrow> unat y = unat c \<or> unat c = 0 \<and> unat y = 65535"
    using assms(1) y by (cases "unat y = 65535") auto
  also have "\<dots> \<longleftrightarrow> y = c \<or> c = 0 \<and> y = 0xFFFF"
    by (simp add: word_unat_eq_iff)
  finally show ?thesis .
qed

text \<open>The words of a filled header without its checksum.\<close>

lemma header_total: "word_total (header_bytes (h\<lparr>checksum := x\<rparr>)) = unat (NET_HTONS x) + word_total (header_bytes (h\<lparr>checksum := 0\<rparr>))"
  by (simp add: header_bytes_def NET_HTONS_def)

lemma length_header [simp]: "length (header_bytes h) = 20"
  by (simp add: header_bytes_def le16_def le32_def)

lemma unat_u16_u32: "unat (ucast (x :: u16) :: u32) = unat x"
proof -
  have "unat x < 65536"
    using unsigned_less [of x] by auto
  then show ?thesis
    by (simp add: unsigned_ucast_eq take_bit_nat_eq_self)
qed

lemma ipv4_valid_iff:
  "ihl_version h = 0x45 \<Longrightarrow> net_ipv4_header_valid (Some h) =
     (if 20 \<le> unat (NET_HTONS (total_length h)) \<and> net_ipv4_checksum (header_bytes h) = 0 then 1 else 0)"
  by (simp add: net_ipv4_header_valid_def word_less_nat_alt unat_u16_u32)

text \<open>
  C37: headers and their checksum. For a header made by \<open>net_ipv4_fill_header\<close> whose length fits into 16 bits, the
  validity check accepts exactly the checksum value in network byte order (and 0xFFFF for zero). The value that is stored is in host byte order,
  so the header as made is accepted only when the two bytes of its checksum are equal.
\<close>

theorem ipv4_filled_header_valid:
  assumes "unat len < 65516" "net_ipv4_fill_header src dst proto len (Some h0) = Some h"
  shows "(net_ipv4_header_valid (Some (h\<lparr>checksum := x\<rparr>)) = 1 \<longleftrightarrow>
      x = NET_HTONS (checksum h) \<or> checksum h = 0 \<and> x = 0xFFFF) \<and>
    (net_ipv4_header_valid (Some h) = 1 \<longleftrightarrow> NET_HTONS (checksum h) = checksum h)"
proof -
  have f: "ihl_version h = 0x45" "NET_HTONS (total_length h) = 20 + len" "checksum h = net_checksum (header_bytes (h\<lparr>checksum := 0\<rparr>))"
    using assms(2) by (auto simp: net_ipv4_fill_header_def Let_def net_ipv4_checksum_def header_bytes_def)
  let ?n = "word_total (header_bytes (h\<lparr>checksum := 0\<rparr>))"
  have bound: "word_total (header_bytes g) < 2 ^ 32" for g
    using word_total_bound [of "header_bytes g"] by simp
  have pos: "0 < ?n"
    using f(1) by (simp add: header_bytes_def)
  note neg = net_checksum_negates [OF bound pos, folded f(3)]
  have l: "20 \<le> unat (20 + len)"
    using assms(1) by (simp add: unat_word_ariths)
  have v: "net_ipv4_header_valid (Some (h\<lparr>checksum := x\<rparr>)) = 1 \<longleftrightarrow> x = NET_HTONS (checksum h) \<or> checksum h = 0 \<and> x = 0xFFFF" for x
  proof -
    have "net_ipv4_header_valid (Some (h\<lparr>checksum := x\<rparr>)) = 1 \<longleftrightarrow> (unat (NET_HTONS x) + ?n) mod 65535 = 0"
      using f l pos net_checksum_eq_0 [OF bound, of "h\<lparr>checksum := x\<rparr>"] header_total [of x h]
      by (simp add: ipv4_valid_iff net_ipv4_checksum_def)
    also have "\<dots> \<longleftrightarrow> NET_HTONS x = checksum h \<or> checksum h = 0 \<and> NET_HTONS x = 0xFFFF"
      by (rule u16_mod_65535 [OF neg(2,1)])
    also have "\<dots> \<longleftrightarrow> x = NET_HTONS (checksum h) \<or> checksum h = 0 \<and> x = 0xFFFF"
      by (simp add: htons_eq_iff) (simp add: NET_HTONS_def)
    finally show ?thesis .
  qed
  have "h\<lparr>checksum := checksum h\<rparr> = h"
    by simp
  then show ?thesis
    using v [of x] v [of "checksum h"] neg(2) by auto
qed

definition blank_header :: ipv4_header where
  "blank_header = \<lparr>ihl_version = 0, tos = 0, total_length = 0, identification = 0, flags_fragment = 0, ttl = 0, protocol = 0,
     checksum = 0, ip_src = 0, ip_dst = 0\<rparr>"

theorem ipv4_filled_header_valid_witness:
  "\<exists>h. net_ipv4_fill_header 0x0A000001 0x0A000002 17 8 (Some blank_header) = Some h \<and> net_ipv4_header_valid (Some h) = 0 \<and>
     net_ipv4_header_valid (Some (h\<lparr>checksum := NET_HTONS (checksum h)\<rparr>)) = 1"
proof -
  have "\<exists>h. net_ipv4_fill_header 0x0A000001 0x0A000002 17 8 (Some blank_header) = Some h \<and> checksum h = 0x26CF"
    by (simp add: net_ipv4_fill_header_def Let_def net_ipv4_checksum_def net_checksum_def header_bytes_def le16_def le32_def
        NET_HTONS_def NET_HTONL_def be_word_def fold_sum.simps)
  then obtain h where h: "net_ipv4_fill_header 0x0A000001 0x0A000002 17 8 (Some blank_header) = Some h" "checksum h = 0x26CF"
    by blast
  have "NET_HTONS 0x26CF \<noteq> 0x26CF"
    by (simp add: NET_HTONS_def)
  then have "net_ipv4_header_valid (Some h) \<noteq> 1" "net_ipv4_header_valid (Some (h\<lparr>checksum := NET_HTONS (checksum h)\<rparr>)) = 1"
    using ipv4_filled_header_valid [OF _ h(1)] h(2) by auto
  moreover have "net_ipv4_header_valid (Some h) \<in> {0, 1}"
    by (auto simp: net_ipv4_header_valid_def Let_def)
  ultimately show ?thesis
    using h(1) by auto
qed

section \<open>Transport checksums\<close>

lemma complement_eq:
  fixes s t :: u32
  assumes "unat s < 65536" "unat t < 65536"
  shows "(ucast (NOT s) :: u16) = ucast (NOT t) \<longleftrightarrow> s = t"
proof -
  have "unat (ucast (NOT s) :: u16) = unat (ucast (NOT t) :: u16) \<longleftrightarrow> unat s = unat t"
    using unat_complement [OF assms(1)] unat_complement [OF assms(2)] assms by auto
  then show ?thesis
    by (simp add: word_unat_eq_iff)
qed

lemma htons_mod: "(unat (NET_HTONS x) + m) mod 65535 = (256 * unat x + m) mod 65535"
proof -
  have "256 * unat x = 65536 * (unat x div 256) + 256 * (unat x mod 256)"
    using mult_div_mod_eq [of 256 "unat x"] by linarith
  then have "256 * unat x + m = unat (NET_HTONS x) + m + 65535 * (unat x div 256)"
    by (simp add: unat_htons)
  then show ?thesis
    by (metis mod_mult_self2)
qed

lemma scaled_eq_mod: "(256 * k + m) mod 65535 = (k + m) mod 65535 \<longleftrightarrow> 257 dvd k" for k m :: nat
proof -
  have "int (256 * k + m) mod 65535 = int (k + m) mod 65535 \<longleftrightarrow> 255 * 257 dvd 255 * int k"
    by (simp add: mod_eq_dvd_iff algebra_simps)
  also have "\<dots> \<longleftrightarrow> 257 dvd int k"
    by (subst dvd_mult_cancel_left) simp
  also have "\<dots> \<longleftrightarrow> 257 dvd k"
    using int_dvd_int_iff [of 257 k] by simp
  finally show ?thesis
    by (simp only: mod_eq_int)
qed

lemma be_word_bound: "unat (be_word a b) \<le> 65535"
proof -
  have "unat a < 256" "unat b < 256"
    using unsigned_less [of a] unsigned_less [of b] by auto
  then show ?thesis
    by (simp add: unat_be_word)
qed

text \<open>The sum of the four words of two addresses.\<close>

definition addr_total :: "u8 list \<Rightarrow> u8 list \<Rightarrow> u32" where
  "addr_total s d = be_word (s ! 0) (s ! 1) + be_word (s ! 2) (s ! 3) + be_word (d ! 0) (d ! 1) + be_word (d ! 2) (d ! 3)"

lemma addr_total_bound: "unat (addr_total s d) \<le> 4 * 65535"
  unfolding addr_total_def
  using be_word_bound [of "s ! 0" "s ! 1"] be_word_bound [of "s ! 2" "s ! 3"] be_word_bound [of "d ! 0" "d ! 1"]
    be_word_bound [of "d ! 2" "d ! 3"]
  by (simp add: unat_word_ariths)

lemma unat_add_small: "unat a + unat b < 2 ^ 32 \<Longrightarrow> unat (a + b) = unat a + unat b" for a b :: u32
  by (simp add: unat_word_ariths)

text \<open>
  C38: the transport checksums. The UDP and TCP checksums byte-swap the protocol number and the length before adding
  them to words in host order. Their result is the one of the standard pseudo header, as \<open>net_pseudo_checksum\<close> computes it, exactly
  when the sum of the protocol number and the length is a multiple of 257.
\<close>

theorem transport_checksum_agrees:
  assumes "length bytes < 65536" "proto \<noteq> 0"
  shows "transport_checksum (ucast proto) (Some (addr_bytes src)) (Some (addr_bytes dst)) (Some bytes) =
      net_pseudo_checksum src dst proto bytes \<longleftrightarrow> 257 dvd unat proto + length bytes"
proof -
  let ?a = "addr_total (addr_bytes src) (addr_bytes dst)" and ?n = "of_nat (length bytes) :: u16" and ?p = "ucast proto :: u16"
  let ?s = "sum_words bytes (?a + ucast (NET_HTONS ?p) + ucast (NET_HTONS ?n))" and ?t = "sum_words bytes (?a + ucast proto + ucast ?n)"
  have n: "unat ?n = length bytes" "unat (NET_HTONS x) < 65536" for x
    using assms(1) unsigned_less [of "NET_HTONS x"] by (auto simp: unat_of_nat)
  have b: "unat proto < 256"
    using unsigned_less [of proto] by auto
  then have p: "unat ?p = unat proto" "unat (ucast proto :: u32) = unat proto" "unat proto < 256" "0 < unat proto"
    using assms(2) by (auto simp: unsigned_ucast_eq take_bit_nat_eq_self unat_gt_0)
  have w: "word_total bytes \<le> 65535 * 32768"
    using word_total_bound [of bytes] assms(1) by (rule_tac order_trans) auto
  note a = addr_total_bound [of "addr_bytes src" "addr_bytes dst"]
  have s: "unat ?s = unat ?a + unat (NET_HTONS ?p) + unat (NET_HTONS ?n) + word_total bytes"
    using w a n(2) [of ?n] n(2) [of ?p] by (subst unat_sum_words) (simp_all add: unat_add_small unat_u16_u32)
  have t: "unat ?t = unat ?a + unat proto + length bytes + word_total bytes"
    using w a n(1) p assms(1) by (subst unat_sum_words) (simp_all add: unat_add_small unat_u16_u32)
  have nz: "?s \<noteq> 0" "?t \<noteq> 0"
  proof -
    have "NET_HTONS ?p \<noteq> 0"
      using p(1,4) htons_eq_iff [of ?p 0] by (auto simp: NET_HTONS_def)
    then show "?s \<noteq> 0" "?t \<noteq> 0"
      using s t p(4) by (auto simp: unat_eq_0)
  qed
  have "unat ?s mod 65535 = (256 * (unat proto + length bytes) + (unat ?a + word_total bytes)) mod 65535"
    using htons_mod [of ?p "unat ?a + unat (NET_HTONS ?n) + word_total bytes"]
      htons_mod [of ?n "256 * unat ?p + unat ?a + word_total bytes"] s n(1) p(1)
    by (simp add: algebra_simps)
  moreover have "unat ?t mod 65535 = ((unat proto + length bytes) + (unat ?a + word_total bytes)) mod 65535"
    using t by (simp add: algebra_simps)
  ultimately have "fold_sum ?s = fold_sum ?t \<longleftrightarrow> 257 dvd unat proto + length bytes"
    unfolding fold_sum_eq [OF nz] by (simp only: scaled_eq_mod)
  then show ?thesis
    using complement_eq [of "fold_sum ?s" "fold_sum ?t"] fold_sum_spec
    by (simp add: transport_checksum_def net_pseudo_checksum_def Let_def addr_total_def)
qed

theorem transport_checksum_agrees_witness:
  "net_udp_checksum (Some (addr_bytes 0x0A000001)) (Some (addr_bytes 0x0A000002)) (Some [1, 2, 3, 4, 5, 6, 7, 8]) \<noteq>
     net_pseudo_checksum 0x0A000001 0x0A000002 17 [1, 2, 3, 4, 5, 6, 7, 8]"
  using transport_checksum_agrees [of "[1, 2, 3, 4, 5, 6, 7, 8]" 17 "0x0A000001" "0x0A000002"]
  by (simp add: net_udp_checksum_def NET_IPPROTO_UDP_def)

end
