(* ===== verification/Net.thy ===== *)
theory Net
  imports Net_Checksum
begin

text \<open>
  Network devices, packets, the ARP cache and sockets: \<^verbatim>\<open>src/kernel/net/net.c\<close>, \<^verbatim>\<open>dev.c\<close>, \<^verbatim>\<open>packet.c\<close>, \<^verbatim>\<open>loopback.c\<close>, \<^verbatim>\<open>nic.c\<close>,
  \<^verbatim>\<open>e1000.c\<close>, \<^verbatim>\<open>arp.c\<close>, \<^verbatim>\<open>socket.c\<close> and \<^verbatim>\<open>ethernet.c\<close>. Devices and sockets are objects in stores and pointers to them identifiers; the
  lists of devices and sockets, absent until \<open>net_init\<close>, and the packet queues are lists. A buffer with its length is a list of bytes. A device's
  functions are entries of a table of drivers, a parameter of the operations that call them; the loopback driver
  is one entry. A \<open>None\<close> result is an access through a dangling or uninitialised pointer.
\<close>

section \<open>Ethernet\<close>

definition NET_MAC_LEN :: nat where "NET_MAC_LEN = 6"
definition NET_NAME_MAX :: nat where "NET_NAME_MAX = 32"
definition NET_MTU_DEFAULT :: usize where "NET_MTU_DEFAULT = 1500"
definition NET_ETHERTYPE_ARP :: u16 where "NET_ETHERTYPE_ARP = 0x0806"

abbreviation NET_OK :: int where "NET_OK \<equiv> 0"
abbreviation NET_EINVAL :: int where "NET_EINVAL \<equiv> - 1"
abbreviation NET_ENOMEM :: int where "NET_ENOMEM \<equiv> - 2"
abbreviation NET_ENOENT :: int where "NET_ENOENT \<equiv> - 3"
abbreviation NET_EBUSY :: int where "NET_EBUSY \<equiv> - 4"
abbreviation NET_EAGAIN :: int where "NET_EAGAIN \<equiv> - 5"
abbreviation NET_E2BIG :: int where "NET_E2BIG \<equiv> - 6"

type_synonym mac = "u8 list"

definition net_ethernet_is_broadcast :: "mac option \<Rightarrow> int" where
  "net_ethernet_is_broadcast m =
     (case m of None \<Rightarrow> 0 | Some mac \<Rightarrow> if \<exists>i < NET_MAC_LEN. mac ! i \<noteq> 0xFF then 0 else 1)"

definition net_ethernet_mac_equal :: "mac option \<Rightarrow> mac option \<Rightarrow> int" where
  "net_ethernet_mac_equal l r =
     (case (l, r) of (Some lhs, Some rhs) \<Rightarrow> if \<exists>i < NET_MAC_LEN. lhs ! i \<noteq> rhs ! i then 0 else 1 | _ \<Rightarrow> 0)"

text \<open>The loop of \<open>net_ethernet_format_mac\<close> at index \<open>i\<close>, with the characters written so far.\<close>

definition hex_digit :: "nat \<Rightarrow> char" where
  "hex_digit d = ''0123456789ABCDEF'' ! d"

function format_mac_loop :: "mac \<Rightarrow> nat \<Rightarrow> nat \<Rightarrow> string \<Rightarrow> string" where
  "format_mac_loop mac out_len i out =
     (if i < NET_MAC_LEN \<and> length out + 3 < out_len then
        let v = unat (mac ! i); out = out @ [hex_digit (v div 16 mod 16), hex_digit (v mod 16)];
            out = (if i + 1 < NET_MAC_LEN \<and> length out + 1 < out_len then out @ [CHR '':''] else out)
        in format_mac_loop mac out_len (i + 1) out
      else out)"
  by auto
termination
  by (relation "measure (\<lambda>(mac, out_len, i, out). NET_MAC_LEN - i)") auto

text \<open>The string in the buffer afterwards; \<open>None\<close> when nothing is written.\<close>

definition net_ethernet_format_mac :: "mac option \<Rightarrow> bool \<Rightarrow> usize \<Rightarrow> string option" where
  "net_ethernet_format_mac m out out_len =
     (case m of
        None \<Rightarrow> None
      | Some mac \<Rightarrow>
          if \<not> out \<or> out_len = 0 then None
          else
            let s = format_mac_loop mac (unat out_len) 0 []
            in Some (if length s < unat out_len then s else take (unat out_len - 1) s))"

definition net_ethernet_type :: "u8 list option \<Rightarrow> u16" where
  "net_ethernet_type hdr =
     (case hdr of None \<Rightarrow> 0 | Some h \<Rightarrow> NET_HTONS (ucast (h ! 12) OR push_bit 8 (ucast (h ! 13))))"

section \<open>The ARP cache\<close>

definition NET_ARP_CACHE_SIZE :: nat where "NET_ARP_CACHE_SIZE = 16"

record arp_entry =
  arp_ip :: "u8 list"
  arp_mac :: mac
  arp_valid :: bool

type_synonym arp_cache = "arp_entry list"

definition net_arp_init :: "arp_cache \<Rightarrow> int \<times> arp_cache" where
  "net_arp_init c = (NET_OK, map (\<lambda>e. e\<lparr>arp_valid := False\<rparr>) c)"

definition arp_slot :: "(arp_entry \<Rightarrow> bool) \<Rightarrow> arp_cache \<Rightarrow> nat option" where
  "arp_slot P c = find (\<lambda>i. P (c ! i)) [0..<NET_ARP_CACHE_SIZE]"

definition net_arp_insert :: "u8 list option \<Rightarrow> mac option \<Rightarrow> arp_cache \<Rightarrow> int \<times> arp_cache" where
  "net_arp_insert ip_arg mac_arg c =
     (case (ip_arg, mac_arg) of
        (Some ip, Some mac) \<Rightarrow>
          (case arp_slot (\<lambda>e. arp_valid e \<and> arp_ip e = ip) c of
             Some i \<Rightarrow> (NET_OK, c[i := (c ! i)\<lparr>arp_mac := mac\<rparr>])
           | None \<Rightarrow>
               (case arp_slot (\<lambda>e. \<not> arp_valid e) c of
                  Some i \<Rightarrow> (NET_OK, c[i := \<lparr>arp_ip = ip, arp_mac = mac, arp_valid = True\<rparr>])
                | None \<Rightarrow> (NET_OK, c[0 := \<lparr>arp_ip = ip, arp_mac = mac, arp_valid = True\<rparr>])))
      | _ \<Rightarrow> (NET_EINVAL, c))"

definition net_arp_lookup :: "u8 list option \<Rightarrow> mac option \<Rightarrow> arp_cache \<Rightarrow> int \<times> mac option" where
  "net_arp_lookup ip_arg mac_out c =
     (case (ip_arg, mac_out) of
        (Some ip, Some _) \<Rightarrow>
          (case arp_slot (\<lambda>e. arp_valid e \<and> arp_ip e = ip) c of
             Some i \<Rightarrow> (NET_OK, Some (arp_mac (c ! i)))
           | None \<Rightarrow> (NET_ENOENT, mac_out))
      | _ \<Rightarrow> (NET_EINVAL, mac_out))"

text \<open>The Ethernet header has 14 bytes and the ARP header 28; its fields are read at their offsets.\<close>

definition net_arp_process :: "bool \<Rightarrow> u8 list option \<Rightarrow> arp_cache \<Rightarrow> int \<times> arp_cache" where
  "net_arp_process dev frame_arg c =
     (case frame_arg of
        None \<Rightarrow> (NET_EINVAL, c)
      | Some frame \<Rightarrow>
          if \<not> dev \<or> length frame < 14 + 28 then (NET_EINVAL, c)
          else if net_ethernet_type (Some frame) \<noteq> NET_ETHERTYPE_ARP then (NET_EINVAL, c)
          else
            let arp = drop 14 frame;
                op = NET_HTONS (ucast (arp ! 6) OR push_bit 8 (ucast (arp ! 7)));
                sha = take 6 (drop 8 arp); spa = take 4 (drop 14 arp)
            in if op = 2 then (NET_OK, snd (net_arp_insert (Some spa) (Some sha) c))
               else if op = 1 then (NET_OK, snd (net_arp_insert (Some spa) (Some sha) c))
               else (NET_OK, c))"

text \<open>The cache as a map.\<close>

definition arp_map :: "arp_cache \<Rightarrow> u8 list \<Rightarrow> mac option" where
  "arp_map c ip = map_option (\<lambda>i. arp_mac (c ! i)) (arp_slot (\<lambda>e. arp_valid e \<and> arp_ip e = ip) c)"

definition arp_wf :: "arp_cache \<Rightarrow> bool" where
  "arp_wf c \<longleftrightarrow> length c = NET_ARP_CACHE_SIZE \<and>
     (\<forall>i < NET_ARP_CACHE_SIZE. \<forall>j < NET_ARP_CACHE_SIZE.
        arp_valid (c ! i) \<and> arp_valid (c ! j) \<and> arp_ip (c ! i) = arp_ip (c ! j) \<longrightarrow> i = j)"

lemma arp_slot_Some: "arp_slot P c = Some i \<Longrightarrow> i < NET_ARP_CACHE_SIZE \<and> P (c ! i)"
  by (auto simp: arp_slot_def find_upt_Some_iff)

lemma arp_slot_None: "arp_slot P c = None \<longleftrightarrow> (\<forall>i < NET_ARP_CACHE_SIZE. \<not> P (c ! i))"
  by (auto simp: arp_slot_def find_upt_None_iff)

lemma arp_map_iff:
  assumes "arp_wf c"
  shows "arp_map c ip = Some m \<longleftrightarrow> (\<exists>i < NET_ARP_CACHE_SIZE. arp_valid (c ! i) \<and> arp_ip (c ! i) = ip \<and> arp_mac (c ! i) = m)"
proof (cases "arp_slot (\<lambda>e. arp_valid e \<and> arp_ip e = ip) c")
  case None
  then have "\<forall>i < NET_ARP_CACHE_SIZE. \<not> (arp_valid (c ! i) \<and> arp_ip (c ! i) = ip)"
    by (simp add: arp_slot_None)
  then show ?thesis
    using None by (auto simp: arp_map_def)
next
  case (Some i)
  then show ?thesis
    using arp_slot_Some [OF Some] assms by (auto simp: arp_map_def arp_wf_def)
qed

lemma arp_map_eqI: "(\<And>m. f = Some m \<longleftrightarrow> g = Some m) \<Longrightarrow> f = g"
  by (cases f; cases g) auto

text \<open>The entry that gives way to a new address: the first one, when all are in use.\<close>

definition arp_evicted :: "arp_cache \<Rightarrow> u8 list \<Rightarrow> u8 list option" where
  "arp_evicted c ip = (if arp_map c ip = None \<and> (\<forall>i < NET_ARP_CACHE_SIZE. arp_valid (c ! i)) then Some (arp_ip (c ! 0)) else None)"

lemma arp_put:
  assumes "arp_wf c" "i < NET_ARP_CACHE_SIZE"
    "\<And>j. j < NET_ARP_CACHE_SIZE \<Longrightarrow> j \<noteq> i \<Longrightarrow> arp_valid (c ! j) \<Longrightarrow> arp_ip (c ! j) \<noteq> ip"
    and c'_def: "c' = c[i := \<lparr>arp_ip = ip, arp_mac = mac, arp_valid = True\<rparr>]"
  shows "arp_wf c'"
    "arp_map c' = (if arp_valid (c ! i) then (arp_map c)(arp_ip (c ! i) := None) else arp_map c)(ip \<mapsto> mac)"
proof -
  have nth: "c' ! j = (if j = i then \<lparr>arp_ip = ip, arp_mac = mac, arp_valid = True\<rparr> else c ! j)" for j
    using assms(1,2) by (simp add: c'_def arp_wf_def nth_list_update)
  show wf: "arp_wf c'"
    using assms(1-3) unfolding arp_wf_def nth by (auto simp: c'_def)
  have uniq: "j = i" if "j < NET_ARP_CACHE_SIZE" "arp_valid (c ! j)" "arp_valid (c ! i)" "arp_ip (c ! j) = arp_ip (c ! i)" for j
    using assms(1,2) that by (auto simp: arp_wf_def)
  show "arp_map c' = (if arp_valid (c ! i) then (arp_map c)(arp_ip (c ! i) := None) else arp_map c)(ip \<mapsto> mac)"
  proof (intro ext arp_map_eqI)
    fix k m
    let ?other = "\<exists>j < NET_ARP_CACHE_SIZE. j \<noteq> i \<and> arp_valid (c ! j) \<and> arp_ip (c ! j) = k \<and> arp_mac (c ! j) = m"
    have l: "arp_map c' k = Some m \<longleftrightarrow> k = ip \<and> m = mac \<or> ?other"
      unfolding arp_map_iff [OF wf] nth using assms(2) by (auto split: if_splits)
    have "arp_map c k = Some m \<longleftrightarrow> ?other \<or> arp_valid (c ! i) \<and> arp_ip (c ! i) = k \<and> arp_mac (c ! i) = m"
      unfolding arp_map_iff [OF assms(1)] using assms(2) by auto
    moreover have "\<not> ?other" if "k = ip \<or> arp_valid (c ! i) \<and> k = arp_ip (c ! i)"
      using that uniq assms(3) by auto
    ultimately show "arp_map c' k = Some m \<longleftrightarrow> ((if arp_valid (c ! i) then (arp_map c)(arp_ip (c ! i) := None) else arp_map c)(ip \<mapsto> mac)) k = Some m"
      using l by (cases "k = ip"; cases "arp_valid (c ! i) \<and> k = arp_ip (c ! i)") auto
  qed
qed

lemma arp_insert_spec:
  assumes "arp_wf c" "net_arp_insert (Some ip) (Some mac) c = (r, c')"
  shows "r = NET_OK \<and> arp_wf c' \<and>
    arp_map c' = (case arp_evicted c ip of None \<Rightarrow> arp_map c | Some old \<Rightarrow> (arp_map c)(old := None))(ip \<mapsto> mac)"
proof (cases "arp_slot (\<lambda>e. arp_valid e \<and> arp_ip e = ip) c")
  case (Some i)
  then have i: "i < NET_ARP_CACHE_SIZE" "arp_valid (c ! i)" "arp_ip (c ! i) = ip"
    using arp_slot_Some [OF Some] by auto
  have eq: "(c ! i)\<lparr>arp_mac := mac\<rparr> = \<lparr>arp_ip = ip, arp_mac = mac, arp_valid = True\<rparr>"
    using i by (cases "c ! i") simp
  then have c': "c' = c[i := \<lparr>arp_ip = ip, arp_mac = mac, arp_valid = True\<rparr>]" "r = NET_OK"
    using assms(2) Some by (simp_all add: net_arp_insert_def)
  moreover have "arp_evicted c ip = None"
    using Some by (simp add: arp_evicted_def arp_map_def)
  ultimately show ?thesis
    using arp_put [OF assms(1) i(1) _ refl, of ip mac] i assms(1) by (auto simp: arp_wf_def)
next
  case None
  then have no: "\<And>j. j < NET_ARP_CACHE_SIZE \<Longrightarrow> arp_valid (c ! j) \<Longrightarrow> arp_ip (c ! j) \<noteq> ip"
    by (simp only: arp_slot_None) simp
  show ?thesis
  proof (cases "arp_slot (\<lambda>e. \<not> arp_valid e) c")
    case (Some i)
    then have i: "i < NET_ARP_CACHE_SIZE" "\<not> arp_valid (c ! i)"
      using arp_slot_Some [OF Some] by auto
    moreover have "arp_evicted c ip = None"
      using i by (auto simp: arp_evicted_def)
    ultimately show ?thesis
      using arp_put [OF assms(1) i(1) _ refl, of ip mac] no None Some assms(2) by (auto simp: net_arp_insert_def)
  next
    case full: None
    then have v: "\<forall>j < NET_ARP_CACHE_SIZE. arp_valid (c ! j)"
      by (simp only: arp_slot_None) simp
    moreover have "arp_evicted c ip = Some (arp_ip (c ! 0))"
      using v None by (simp add: arp_evicted_def arp_map_def)
    moreover have "0 < NET_ARP_CACHE_SIZE"
      by (simp add: NET_ARP_CACHE_SIZE_def)
    ultimately show ?thesis
      using arp_put [OF assms(1) _ _ refl, of 0 ip mac] no None full assms(2) by (auto simp: net_arp_insert_def)
  qed
qed

lemma arp_lookup_map:
  "net_arp_lookup (Some ip) (Some out) c = (case arp_map c ip of None \<Rightarrow> (NET_ENOENT, Some out) | Some m \<Rightarrow> (NET_OK, Some m))"
  by (simp add: net_arp_lookup_def arp_map_def split: option.split)

text \<open>
  C21: the ARP cache implements a map of bounded size. Inserting an address keeps the cached addresses distinct; afterwards a lookup of the
  address gives the new hardware address, and every other address is looked up as before, except for the one in the first slot when the
  address is new and the cache is full.
\<close>

theorem arp_insert_refines:
  assumes "arp_wf c" "net_arp_insert (Some ip) (Some mac) c = (r, c')"
  shows "r = NET_OK \<and> arp_wf c' \<and> net_arp_lookup (Some ip) (Some out) c' = (NET_OK, Some mac) \<and>
    (\<forall>k. k \<noteq> ip \<longrightarrow> net_arp_lookup (Some k) (Some out) c' =
       (if arp_evicted c ip = Some k then (NET_ENOENT, Some out) else net_arp_lookup (Some k) (Some out) c))"
  using arp_insert_spec [OF assms] by (auto simp: arp_lookup_map split: option.splits)

definition arp_empty :: arp_cache where
  "arp_empty = replicate NET_ARP_CACHE_SIZE \<lparr>arp_ip = [0, 0, 0, 0], arp_mac = [0, 0, 0, 0, 0, 0], arp_valid = False\<rparr>"

theorem arp_insert_refines_witness:
  "fst (net_arp_lookup (Some [10, 0, 0, 1]) (Some []) (snd (net_arp_insert (Some [10, 0, 0, 1]) (Some [1, 2, 3, 4, 5, 6]) arp_empty))) = NET_OK"
proof -
  have wf: "arp_wf arp_empty"
    by (simp add: arp_wf_def arp_empty_def)
  obtain r c' where "net_arp_insert (Some [10, 0, 0, 1]) (Some [1, 2, 3, 4, 5, 6]) arp_empty = (r, c')"
    by fastforce
  then show ?thesis
    using arp_insert_refines [OF wf, of "[10, 0, 0, 1]" "[1, 2, 3, 4, 5, 6]" r c' "[]"] by simp
qed

end
