(* ===== verification/Net_Dev.thy ===== *)
theory Net_Dev
  imports Net
begin

text \<open>
  Devices, packet queues and sockets: \<^verbatim>\<open>src/kernel/net/net.c\<close>, \<^verbatim>\<open>dev.c\<close>, \<^verbatim>\<open>packet.c\<close>, \<^verbatim>\<open>loopback.c\<close>, \<^verbatim>\<open>nic.c\<close>, \<^verbatim>\<open>e1000.c\<close> and
  \<^verbatim>\<open>socket.c\<close>, in the representation described in theory \<open>Net\<close>.
\<close>

section \<open>Model\<close>

type_synonym did = nat
type_synonym sid = nat

record packet =
  pkt_len :: usize
  pkt_capacity :: usize
  pkt_data :: "u8 list"

record net_device =
  dev_name :: string
  dev_mac :: mac
  mtu :: usize
  xmit :: "nat option"
  poll_rx :: "nat option"
  rx_linked :: bool
  queue :: "packet list"

record net_socket =
  sock_fd :: int
  sock_type :: int
  sock_port :: u16
  sock_device :: "did option"
  sock_linked :: bool
  rx_queue :: "packet list"

record net =
  devs :: "did \<Rightarrow> net_device option"
  dev_list :: "did list option"
  socks :: "sid \<Rightarrow> net_socket option"
  sock_list :: "sid list option"
  next_sock_fd :: int
  arp :: arp_cache
  net_ready :: bool
  next_obj :: nat
  nmem_ok :: "nat \<Rightarrow> bool"
  nmem_no :: nat

type_synonym net_xmit_fn = "did option \<Rightarrow> u8 list option \<Rightarrow> net \<Rightarrow> (int \<times> net) option"
type_synonym net_poll_fn = "did option \<Rightarrow> u8 list option \<Rightarrow> net \<Rightarrow> (int \<times> u8 list \<times> net) option"

definition net_calloc :: "net \<Rightarrow> bool \<times> net" where
  "net_calloc s = (nmem_ok s (nmem_no s), s\<lparr>nmem_no := nmem_no s + 1\<rparr>)"

definition upd_dev :: "did \<Rightarrow> (net_device \<Rightarrow> net_device) \<Rightarrow> net \<Rightarrow> net" where
  "upd_dev d f s = s\<lparr>devs := (devs s)(d := map_option f (devs s d))\<rparr>"

definition net_socket_init :: "net \<Rightarrow> int \<times> net" where
  "net_socket_init s = (NET_OK, s\<lparr>sock_list := Some [], next_sock_fd := 1\<rparr>)"

definition net_init :: "net \<Rightarrow> net" where
  "net_init s =
     (if net_ready s then s
      else
        let s = s\<lparr>dev_list := Some []\<rparr>;
            s = s\<lparr>arp := snd (net_arp_init (arp s))\<rparr>;
            s = snd (net_socket_init s)
        in s\<lparr>net_ready := True\<rparr>)"

definition net_packet_alloc :: "usize \<Rightarrow> net \<Rightarrow> packet option \<times> net" where
  "net_packet_alloc len s =
     (case net_calloc s of
        (False, s) \<Rightarrow> (None, s)
      | (True, s) \<Rightarrow>
          (case (if len > 0 then net_calloc s else (True, s)) of
             (False, s) \<Rightarrow> (None, s)
           | (True, s) \<Rightarrow> (Some \<lparr>pkt_len = len, pkt_capacity = len, pkt_data = replicate (unat len) 0\<rparr>, s)))"

definition net_packet_clone :: "packet option \<Rightarrow> net \<Rightarrow> packet option \<times> net" where
  "net_packet_clone pkt s =
     (case pkt of
        None \<Rightarrow> (None, s)
      | Some p \<Rightarrow>
          (case net_packet_alloc (pkt_len p) s of
             (None, s) \<Rightarrow> (None, s)
           | (Some copy, s) \<Rightarrow>
               (Some (copy\<lparr>pkt_data := take (unat (pkt_len p)) (pkt_data p), pkt_len := pkt_len p, pkt_capacity := pkt_capacity p\<rparr>), s)))"

text \<open>The walk along the list of devices, until one has the given name.\<close>

fun find_dev :: "net \<Rightarrow> string \<Rightarrow> did list \<Rightarrow> did option option" where
  "find_dev s name [] = Some None"
| "find_dev s name (d # ds) =
     (case devs s d of
        None \<Rightarrow> None
      | Some dv \<Rightarrow> if dev_name dv = name then Some (Some d) else find_dev s name ds)"

definition net_find_device :: "string option \<Rightarrow> net \<Rightarrow> did option option" where
  "net_find_device name s =
     (case name of None \<Rightarrow> Some None | Some n \<Rightarrow> Option.bind (dev_list s) (find_dev s n))"

definition net_register_device :: "did option \<Rightarrow> net \<Rightarrow> (int \<times> net) option" where
  "net_register_device dev s =
     (case dev of
        None \<Rightarrow> Some (NET_EINVAL, s)
      | Some d \<Rightarrow> do {
          dv \<leftarrow> devs s d;
          if dev_name dv = [] then Some (NET_EINVAL, s)
          else do {
            let s = (if \<not> net_ready s then net_init s else s);
            found \<leftarrow> Option.bind (dev_list s) (find_dev s (dev_name dv));
            if found \<noteq> None then Some (NET_EBUSY, s)
            else do {
              let s = upd_dev d (\<lambda>x. x\<lparr>mtu := (if mtu x = 0 then NET_MTU_DEFAULT else mtu x), queue := [], rx_linked := True\<rparr>) s;
              ds \<leftarrow> dev_list s;
              Some (NET_OK, s\<lparr>dev_list := Some (ds @ [d])\<rparr>)
            }
          }
        })"

definition net_unregister_device :: "did option \<Rightarrow> net \<Rightarrow> (int \<times> net) option" where
  "net_unregister_device dev s =
     (case dev of
        None \<Rightarrow> Some (NET_EINVAL, s)
      | Some d \<Rightarrow> do {
          dv \<leftarrow> devs s d;
          let s = (if rx_linked dv then s\<lparr>dev_list := map_option (remove1 d) (dev_list s)\<rparr> else s);
          Some (NET_OK, upd_dev d (\<lambda>x. x\<lparr>rx_linked := False, queue := []\<rparr>) s)
        })"

definition net_send :: "(nat \<Rightarrow> net_xmit_fn) \<Rightarrow> did option \<Rightarrow> u8 list option \<Rightarrow> net \<Rightarrow> (int \<times> net) option" where
  "net_send drv dev data s =
     (case (dev, data) of
        (Some d, Some bytes) \<Rightarrow>
          if bytes = [] then Some (NET_EINVAL, s)
          else do {
            dv \<leftarrow> devs s d;
            case xmit dv of
              None \<Rightarrow> Some (NET_ENOENT, s)
            | Some x \<Rightarrow> if length bytes > unat (mtu dv) then Some (NET_E2BIG, s) else drv x dev data s
          }
      | _ \<Rightarrow> Some (NET_EINVAL, s))"

definition net_rx_push :: net_xmit_fn where
  "net_rx_push dev data s =
     (case (dev, data) of
        (Some d, Some bytes) \<Rightarrow>
          if bytes = [] then Some (NET_EINVAL, s)
          else (case net_packet_alloc (of_nat (length bytes)) s of
              (None, s) \<Rightarrow> Some (NET_ENOMEM, s)
            | (Some pkt, s) \<Rightarrow>
                if devs s d = None then None
                else Some (NET_OK, upd_dev d (\<lambda>x. x\<lparr>queue := queue x @ [pkt\<lparr>pkt_data := bytes, pkt_len := of_nat (length bytes)\<rparr>]\<rparr>) s))
      | _ \<Rightarrow> Some (NET_EINVAL, s))"

text \<open>
  The buffer is given by its bytes; the result holds the bytes copied, as many as \<open>out\<close> receives.
\<close>

definition net_rx_pop :: net_poll_fn where
  "net_rx_pop dev buf s =
     (case (dev, buf) of
        (Some d, Some b) \<Rightarrow>
          if b = [] then Some (NET_EINVAL, [], s)
          else do {
            dv \<leftarrow> devs s d;
            case queue dv of
              [] \<Rightarrow> Some (NET_EAGAIN, [], s)
            | pkt # pkts \<Rightarrow>
                let n = min (unat (pkt_len pkt)) (length b)
                in Some (NET_OK, take n (pkt_data pkt), upd_dev d (\<lambda>x. x\<lparr>queue := pkts\<rparr>) s)
          }
      | _ \<Rightarrow> Some (NET_EINVAL, [], s))"

definition net_copy_name :: "string option \<Rightarrow> string" where
  "net_copy_name src = (case src of None \<Rightarrow> [] | Some n \<Rightarrow> take (NET_NAME_MAX - 1) n)"

definition net_device_alloc :: "string option \<Rightarrow> mac option \<Rightarrow> usize \<Rightarrow> nat option \<Rightarrow> nat option \<Rightarrow> net \<Rightarrow> did option \<times> net" where
  "net_device_alloc name mac m xm poll s =
     (if name = None \<or> xm = None then (None, s)
      else (case net_calloc s of
          (False, s) \<Rightarrow> (None, s)
        | (True, s) \<Rightarrow>
            (Some (next_obj s),
             s\<lparr>devs := (devs s)(next_obj s \<mapsto>
                 \<lparr>dev_name = net_copy_name name, dev_mac = (case mac of Some a \<Rightarrow> take NET_MAC_LEN a | None \<Rightarrow> replicate NET_MAC_LEN 0),
                  mtu = (if m = 0 then NET_MTU_DEFAULT else m), xmit = xm, poll_rx = poll, rx_linked = True, queue = []\<rparr>),
               next_obj := next_obj s + 1\<rparr>)))"

definition net_device_free :: "did option \<Rightarrow> net \<Rightarrow> net option" where
  "net_device_free dev s =
     (case dev of
        None \<Rightarrow> Some s
      | Some d \<Rightarrow> do {
          (_, s) \<leftarrow> net_unregister_device (Some d) s;
          Some (s\<lparr>devs := (devs s)(d := None)\<rparr>)
        })"

definition net_device_poll :: "(nat \<Rightarrow> net_poll_fn) \<Rightarrow> did option \<Rightarrow> u8 list option \<Rightarrow> net \<Rightarrow> (int \<times> u8 list \<times> net) option" where
  "net_device_poll poll dev buf s =
     (case dev of
        None \<Rightarrow> Some (NET_EINVAL, [], s)
      | Some d \<Rightarrow> do {
          dv \<leftarrow> devs s d;
          case poll_rx dv of Some f \<Rightarrow> poll f dev buf s | None \<Rightarrow> net_rx_pop dev buf s
        })"

definition net_nic_initialize :: "did option \<Rightarrow> net \<Rightarrow> (int \<times> net) option" where
  "net_nic_initialize dev s =
     (case dev of
        None \<Rightarrow> Some (NET_EINVAL, s)
      | Some d \<Rightarrow> do {
          dv \<leftarrow> devs s d;
          if xmit dv = None then Some (NET_ENOENT, s)
          else do {
            let s = upd_dev d (\<lambda>x. x\<lparr>mtu := (if mtu x = 0 then NET_MTU_DEFAULT else mtu x)\<rparr>) s;
            (r, s) \<leftarrow> net_register_device (Some d) s;
            Some (if r \<noteq> NET_OK then NET_EBUSY else NET_OK, s)
          }
        })"

definition e1000_probe :: int where
  "e1000_probe = NET_ENOENT"

definition e1000_init :: "did option \<Rightarrow> int" where
  "e1000_init dev = (case dev of None \<Rightarrow> NET_EINVAL | Some _ \<Rightarrow> NET_ENOENT)"

text \<open>The loopback driver, number 0 in the table of drivers.\<close>

definition LOOPBACK :: nat where "LOOPBACK = 0"

definition loopback_xmit :: net_xmit_fn where
  "loopback_xmit dev data s = net_rx_push dev data s"

definition loopback_poll :: net_poll_fn where
  "loopback_poll dev buf s = net_rx_pop dev buf s"

definition net_loopback_init :: "net \<Rightarrow> net option" where
  "net_loopback_init s =
     (case net_device_alloc (Some ''lo'') (Some (replicate NET_MAC_LEN 0)) NET_MTU_DEFAULT (Some LOOPBACK) (Some LOOPBACK) s of
        (None, s) \<Rightarrow> Some s
      | (Some lo, s) \<Rightarrow> do {
          (r, s) \<leftarrow> net_register_device (Some lo) s;
          if r \<noteq> NET_OK then net_device_free (Some lo) s else Some s
        })"

subsection \<open>Sockets\<close>

definition NET_SOCK_STREAM :: int where "NET_SOCK_STREAM = 1"
definition NET_SOCK_DGRAM :: int where "NET_SOCK_DGRAM = 2"

definition net_socket_create :: "int \<Rightarrow> net \<Rightarrow> (sid option \<times> net) option" where
  "net_socket_create type s =
     (if type \<noteq> NET_SOCK_DGRAM \<and> type \<noteq> NET_SOCK_STREAM then Some (None, s)
      else (case net_calloc s of
          (False, s) \<Rightarrow> Some (None, s)
        | (True, s) \<Rightarrow>
            map_option (\<lambda>l. (Some (next_obj s),
              s\<lparr>socks := (socks s)(next_obj s \<mapsto> \<lparr>sock_fd = next_sock_fd s, sock_type = type, sock_port = 0, sock_device = None,
                    sock_linked = True, rx_queue = []\<rparr>),
                next_sock_fd := next_sock_fd s + 1, next_obj := next_obj s + 1, sock_list := Some (l @ [next_obj s])\<rparr>)) (sock_list s)))"

definition upd_sock :: "sid \<Rightarrow> (net_socket \<Rightarrow> net_socket) \<Rightarrow> net \<Rightarrow> net" where
  "upd_sock k f s = s\<lparr>socks := (socks s)(k := map_option f (socks s k))\<rparr>"

definition net_socket_bind :: "sid option \<Rightarrow> u16 \<Rightarrow> net \<Rightarrow> (int \<times> net) option" where
  "net_socket_bind sock port s =
     (case sock of
        None \<Rightarrow> Some (NET_EINVAL, s)
      | Some k \<Rightarrow>
          if port = 0 then Some (NET_EINVAL, s)
          else if socks s k = None then None
          else Some (NET_OK, upd_sock k (\<lambda>x. x\<lparr>sock_port := port\<rparr>) s))"

definition net_socket_close :: "sid option \<Rightarrow> net \<Rightarrow> (int \<times> net) option" where
  "net_socket_close sock s =
     (case sock of
        None \<Rightarrow> Some (NET_EINVAL, s)
      | Some k \<Rightarrow> do {
          sk \<leftarrow> socks s k;
          let s = (if sock_linked sk then s\<lparr>sock_list := map_option (remove1 k) (sock_list s)\<rparr> else s);
          Some (NET_OK, s\<lparr>socks := (socks s)(k := None)\<rparr>)
        })"

text \<open>The destination address and port are ignored.\<close>

definition net_socket_sendto :: "(nat \<Rightarrow> net_xmit_fn) \<Rightarrow> sid option \<Rightarrow> u8 list option \<Rightarrow> net \<Rightarrow> (int \<times> net) option" where
  "net_socket_sendto drv sock data s =
     (case (sock, data) of
        (Some k, Some bytes) \<Rightarrow>
          if bytes = [] then Some (NET_EINVAL, s)
          else do {
            sk \<leftarrow> socks s k;
            dev \<leftarrow> (if sock_device sk \<noteq> None then Some (sock_device sk) else net_find_device (Some ''lo'') s);
            if dev = None then Some (NET_ENOENT, s) else net_send drv dev data s
          }
      | _ \<Rightarrow> Some (NET_EINVAL, s))"

definition net_socket_recvfrom :: "sid option \<Rightarrow> u8 list option \<Rightarrow> net \<Rightarrow> (int \<times> u8 list \<times> net) option" where
  "net_socket_recvfrom sock buf s =
     (case (sock, buf) of
        (Some k, Some b) \<Rightarrow>
          if b = [] then Some (NET_EINVAL, [], s)
          else do {
            sk \<leftarrow> socks s k;
            case rx_queue sk of
              [] \<Rightarrow> Some (NET_EAGAIN, [], s)
            | pkt # pkts \<Rightarrow>
                let copied = (if unat (pkt_len pkt) \<le> length b then unat (pkt_len pkt) else length b)
                in Some (NET_OK, take copied (pkt_data pkt), upd_sock k (\<lambda>x. x\<lparr>rx_queue := pkts\<rparr>) s)
          }
      | _ \<Rightarrow> Some (NET_EINVAL, [], s))"

section \<open>The loopback device\<close>

text \<open>The tables of drivers that have the loopback driver.\<close>

definition lo_drv :: "(nat \<Rightarrow> net_xmit_fn) \<Rightarrow> nat \<Rightarrow> net_xmit_fn" where
  "lo_drv drv = drv(LOOPBACK := loopback_xmit)"

definition lo_polls :: "(nat \<Rightarrow> net_poll_fn) \<Rightarrow> nat \<Rightarrow> net_poll_fn" where
  "lo_polls poll = poll(LOOPBACK := loopback_poll)"

fun send_all :: "(nat \<Rightarrow> net_xmit_fn) \<Rightarrow> did \<Rightarrow> u8 list list \<Rightarrow> net \<Rightarrow> (int list \<times> net) option" where
  "send_all drv d [] s = Some ([], s)"
| "send_all drv d (m # ms) s = do {
     (r, s) \<leftarrow> net_send drv (Some d) (Some m) s;
     (rs, s) \<leftarrow> send_all drv d ms s;
     Some (r # rs, s)
   }"

fun poll_all :: "(nat \<Rightarrow> net_poll_fn) \<Rightarrow> did \<Rightarrow> u8 list \<Rightarrow> nat \<Rightarrow> net \<Rightarrow> (u8 list list \<times> net) option" where
  "poll_all poll d buf 0 s = Some ([], s)"
| "poll_all poll d buf (Suc n) s = do {
     (r, bs, s) \<leftarrow> net_device_poll poll (Some d) (Some buf) s;
     (ms, s) \<leftarrow> poll_all poll d buf n s;
     Some (if r = NET_OK then bs # ms else ms, s)
   }"

text \<open>A loopback device and the data that are queued on it.\<close>

definition lo_queue :: "net \<Rightarrow> did \<Rightarrow> u8 list list \<Rightarrow> bool" where
  "lo_queue s d qs \<longleftrightarrow> (\<exists>dv. devs s d = Some dv \<and> xmit dv = Some LOOPBACK \<and> poll_rx dv = Some LOOPBACK \<and>
     map pkt_data (queue dv) = qs \<and> (\<forall>p \<in> set (queue dv). unat (pkt_len p) = length (pkt_data p)))"

definition dev_mtu :: "net \<Rightarrow> did \<Rightarrow> nat" where
  "dev_mtu s d = (case devs s d of None \<Rightarrow> 0 | Some dv \<Rightarrow> unat (mtu dv))"

lemma dev_mtu_bound: "dev_mtu s d < 2 ^ 32"
  using unat_less_32 by (auto simp: dev_mtu_def split: option.split)

lemma lo_send:
  assumes "lo_queue s d qs" "m \<noteq> []" "length m \<le> dev_mtu s d" "\<forall>n. nmem_ok s n"
  shows "\<exists>s'. net_send (lo_drv drv) (Some d) (Some m) s = Some (NET_OK, s') \<and> lo_queue s' d (qs @ [m]) \<and>
    dev_mtu s' d = dev_mtu s d \<and> (\<forall>n. nmem_ok s' n) \<and> socks s' = socks s"
proof -
  have len: "unat (of_nat (length m) :: usize) = length m"
    using assms(3) dev_mtu_bound [of s d] by (simp add: unat_of_nat)
  then show ?thesis
    using assms
    by (auto simp: net_send_def lo_queue_def lo_drv_def loopback_xmit_def net_rx_push_def net_packet_alloc_def net_calloc_def dev_mtu_def
        upd_dev_def split: if_splits)
qed

lemma lo_poll:
  assumes "lo_queue s d (m # qs)" "length m \<le> length buf" "buf \<noteq> []"
  shows "\<exists>s'. net_device_poll (lo_polls poll) (Some d) (Some buf) s = Some (NET_OK, m, s') \<and> lo_queue s' d qs"
  using assms by (auto simp: net_device_poll_def lo_queue_def lo_polls_def loopback_poll_def net_rx_pop_def upd_dev_def Let_def)

lemma send_all_queues:
  assumes "lo_queue s d qs" "\<forall>m \<in> set ms. m \<noteq> [] \<and> length m \<le> dev_mtu s d" "\<forall>n. nmem_ok s n"
  shows "\<exists>s'. send_all (lo_drv drv) d ms s = Some (map (\<lambda>_. NET_OK) ms, s') \<and> lo_queue s' d (qs @ ms)"
  using assms
proof (induction ms arbitrary: s qs)
  case (Cons m ms)
  obtain s1 where "net_send (lo_drv drv) (Some d) (Some m) s = Some (NET_OK, s1)" "lo_queue s1 d (qs @ [m])"
      "dev_mtu s1 d = dev_mtu s d" "\<forall>n. nmem_ok s1 n"
    using lo_send [OF Cons.prems(1)] Cons.prems(2,3) by (metis list.set_intros(1))
  then show ?case
    using Cons.IH [of s1 "qs @ [m]"] Cons.prems(2) by fastforce
qed simp

lemma poll_all_takes:
  assumes "lo_queue s d ms" "\<forall>m \<in> set ms. length m \<le> length buf" "buf \<noteq> []"
  shows "\<exists>s'. poll_all (lo_polls poll) d buf (length ms) s = Some (ms, s') \<and> lo_queue s' d []"
  using assms
proof (induction ms arbitrary: s)
  case (Cons m ms)
  then obtain s1 where "net_device_poll (lo_polls poll) (Some d) (Some buf) s = Some (NET_OK, m, s1)" "lo_queue s1 d ms"
    using lo_poll by (metis list.set_intros(1))
  then show ?case
    using Cons.IH [of s1] Cons.prems(2,3) by fastforce
qed simp

text \<open>
  C20: the loopback device is a queue. While memory lasts, any sequence of packets of positive size within the device's limit can be sent on an
  idle loopback device, and as many polls with a large enough buffer return exactly these packets in the order they were sent, after which
  the device is idle again.
\<close>

theorem loopback_returns_packets:
  assumes "lo_queue s d []" "\<forall>n. nmem_ok s n" "\<forall>m \<in> set ms. m \<noteq> [] \<and> length m \<le> dev_mtu s d"
    "dev_mtu s d \<le> length buf" "buf \<noteq> []"
  shows "\<exists>s1 s2. send_all (lo_drv drv) d ms s = Some (map (\<lambda>_. NET_OK) ms, s1) \<and>
    poll_all (lo_polls poll) d buf (length ms) s1 = Some (ms, s2) \<and> lo_queue s2 d []"
proof -
  obtain s1 where s1: "send_all (lo_drv drv) d ms s = Some (map (\<lambda>_. NET_OK) ms, s1)" "lo_queue s1 d ms"
    using send_all_queues [OF assms(1,3,2)] by auto
  moreover have "\<forall>m \<in> set ms. length m \<le> length buf"
    using assms(3,4) by auto
  ultimately show ?thesis
    using poll_all_takes [OF s1(2) _ assms(5)] by blast
qed

definition net_lo :: net where
  "net_lo = \<lparr>devs = [0 \<mapsto> \<lparr>dev_name = ''lo'', dev_mac = replicate 6 0, mtu = 1500, xmit = Some LOOPBACK, poll_rx = Some LOOPBACK, rx_linked = True,
       queue = []\<rparr>], dev_list = Some [0], socks = Map.empty, sock_list = Some [], next_sock_fd = 1, arp = arp_empty, net_ready = True,
     next_obj = 1, nmem_ok = (\<lambda>_. True), nmem_no = 0\<rparr>"

theorem loopback_returns_packets_witness:
  "\<exists>s1 s2. send_all (lo_drv (\<lambda>_ _ _ s. Some (NET_OK, s))) 0 [[1, 2], [3]] net_lo = Some ([NET_OK, NET_OK], s1) \<and>
     poll_all (lo_polls (\<lambda>_ _ _ s. Some (NET_OK, [], s))) 0 (replicate 1500 0) 2 s1 = Some ([[1, 2], [3]], s2)"
proof -
  have l: "lo_queue net_lo 0 []" "\<forall>n. nmem_ok net_lo n" "dev_mtu net_lo 0 = 1500"
    by (simp_all add: lo_queue_def net_lo_def dev_mtu_def)
  have two: "length [[1, 2], [3 :: u8]] = 2"
    by simp
  show ?thesis
    using loopback_returns_packets [OF l(1,2), of "[[1, 2], [3]]" "replicate 1500 0" "\<lambda>_ _ _ s. Some (NET_OK, s)" "\<lambda>_ _ _ s. Some (NET_OK, [], s)"]
    unfolding two by (auto simp: l(3))
qed

section \<open>Sockets never receive\<close>

text \<open>One call of the network interface, by any client.\<close>

inductive net_step :: "(nat \<Rightarrow> net_xmit_fn) \<Rightarrow> (nat \<Rightarrow> net_poll_fn) \<Rightarrow> net \<Rightarrow> net \<Rightarrow> bool"
  for drv poll where
  init: "net_step drv poll s (net_init s)"
| register: "net_register_device d s = Some (r, s') \<Longrightarrow> net_step drv poll s s'"
| unregister: "net_unregister_device d s = Some (r, s') \<Longrightarrow> net_step drv poll s s'"
| send: "net_send drv d data s = Some (r, s') \<Longrightarrow> net_step drv poll s s'"
| push: "net_rx_push d data s = Some (r, s') \<Longrightarrow> net_step drv poll s s'"
| pop: "net_rx_pop d buf s = Some (r, bs, s') \<Longrightarrow> net_step drv poll s s'"
| clone: "net_packet_clone p s = (p', s') \<Longrightarrow> net_step drv poll s s'"
| alloc_dev: "net_device_alloc name m mt xm pl s = (d, s') \<Longrightarrow> net_step drv poll s s'"
| free_dev: "net_device_free d s = Some s' \<Longrightarrow> net_step drv poll s s'"
| poll_dev: "net_device_poll poll d buf s = Some (r, bs, s') \<Longrightarrow> net_step drv poll s s'"
| nic: "net_nic_initialize d s = Some (r, s') \<Longrightarrow> net_step drv poll s s'"
| loopback: "net_loopback_init s = Some s' \<Longrightarrow> net_step drv poll s s'"
| sock_init: "net_step drv poll s (snd (net_socket_init s))"
| sock_create: "net_socket_create type s = Some (k, s') \<Longrightarrow> net_step drv poll s s'"
| sock_bind: "net_socket_bind k port s = Some (r, s') \<Longrightarrow> net_step drv poll s s'"
| sock_close: "net_socket_close k s = Some (r, s') \<Longrightarrow> net_step drv poll s s'"
| sock_send: "net_socket_sendto drv k data s = Some (r, s') \<Longrightarrow> net_step drv poll s s'"
| sock_recv: "net_socket_recvfrom k buf s = Some (r, bs, s') \<Longrightarrow> net_step drv poll s s'"

text \<open>Drivers do not touch sockets: they know only the device.\<close>

definition drivers_keep_sockets :: "(nat \<Rightarrow> net_xmit_fn) \<Rightarrow> (nat \<Rightarrow> net_poll_fn) \<Rightarrow> bool" where
  "drivers_keep_sockets drv poll \<longleftrightarrow>
     (\<forall>x d data s r s'. drv x d data s = Some (r, s') \<longrightarrow> socks s' = socks s) \<and>
     (\<forall>x d buf s r bs s'. poll x d buf s = Some (r, bs, s') \<longrightarrow> socks s' = socks s)"

definition sockets_idle :: "net \<Rightarrow> bool" where
  "sockets_idle s \<longleftrightarrow> (\<forall>k sk. socks s k = Some sk \<longrightarrow> rx_queue sk = [])"

lemma socks_upd_dev [simp]: "socks (upd_dev d f s) = socks s"
  by (simp add: upd_dev_def)

lemma socks_init [simp]: "socks (net_init s) = socks s"
  by (simp add: net_init_def net_socket_init_def Let_def)

lemma socks_calloc: "net_calloc s = (b, s') \<Longrightarrow> socks s' = socks s"
  by (auto simp: net_calloc_def)

lemma socks_packet_alloc: "net_packet_alloc n s = (p, s') \<Longrightarrow> socks s' = socks s"
  by (auto simp: net_packet_alloc_def dest!: socks_calloc split: prod.splits bool.splits if_splits)

lemma socks_packet_clone: "net_packet_clone p s = (p', s') \<Longrightarrow> socks s' = socks s"
  by (auto simp: net_packet_clone_def dest: socks_packet_alloc split: prod.splits option.splits)

lemma socks_push: "net_rx_push d data s = Some (r, s') \<Longrightarrow> socks s' = socks s"
  by (auto simp: net_rx_push_def dest: socks_packet_alloc split: prod.splits option.splits if_splits)

lemma socks_pop: "net_rx_pop d buf s = Some (r, bs, s') \<Longrightarrow> socks s' = socks s"
  by (auto simp: net_rx_pop_def Let_def split: option.splits list.splits if_splits bind_splits)

lemma socks_register: "net_register_device d s = Some (r, s') \<Longrightarrow> socks s' = socks s"
  by (auto simp: net_register_device_def Let_def split: option.splits if_splits bind_splits)

lemma socks_unregister: "net_unregister_device d s = Some (r, s') \<Longrightarrow> socks s' = socks s"
  by (auto simp: net_unregister_device_def Let_def split: option.splits if_splits bind_splits)

lemma socks_device_alloc: "net_device_alloc name m mt xm pl s = (d, s') \<Longrightarrow> socks s' = socks s"
  by (auto simp: net_device_alloc_def dest: socks_calloc split: prod.splits bool.splits if_splits)

lemma socks_device_free: "net_device_free d s = Some s' \<Longrightarrow> socks s' = socks s"
  by (auto simp: net_device_free_def dest: socks_unregister split: option.splits bind_splits)

lemma socks_nic: "net_nic_initialize d s = Some (r, s') \<Longrightarrow> socks s' = socks s"
  by (auto simp: net_nic_initialize_def Let_def dest: socks_register split: option.splits if_splits bind_splits)

lemma socks_loopback: "net_loopback_init s = Some s' \<Longrightarrow> socks s' = socks s"
  by (auto simp: net_loopback_init_def dest!: socks_device_alloc socks_register socks_device_free
      split: prod.splits option.splits if_splits bind_splits)

lemma socks_send:
  "drivers_keep_sockets drv poll \<Longrightarrow> net_send drv d data s = Some (r, s') \<Longrightarrow> socks s' = socks s"
  by (auto simp: net_send_def drivers_keep_sockets_def split: option.splits if_splits bind_splits)

lemma socks_poll:
  "drivers_keep_sockets drv poll \<Longrightarrow> net_device_poll poll d buf s = Some (r, bs, s') \<Longrightarrow> socks s' = socks s"
  by (auto simp: net_device_poll_def drivers_keep_sockets_def dest: socks_pop split: option.splits bind_splits)

lemma socks_sendto:
  "drivers_keep_sockets drv poll \<Longrightarrow> net_socket_sendto drv k data s = Some (r, s') \<Longrightarrow> socks s' = socks s"
  by (auto simp: net_socket_sendto_def dest: socks_send split: option.splits if_splits bind_splits)

lemmas socks_kept = socks_register socks_unregister socks_push socks_pop socks_packet_clone socks_device_alloc socks_device_free socks_nic
  socks_loopback

lemmas socks_driven = socks_send socks_poll socks_sendto

lemma idle_create: "net_socket_create type s = Some (k, s') \<Longrightarrow> sockets_idle s \<Longrightarrow> sockets_idle s'"
  by (auto simp: net_socket_create_def sockets_idle_def net_calloc_def split: prod.splits bool.splits if_splits)

lemma idle_bind: "net_socket_bind k port s = Some (r, s') \<Longrightarrow> sockets_idle s \<Longrightarrow> sockets_idle s'"
  by (auto simp: net_socket_bind_def sockets_idle_def upd_sock_def split: option.splits if_splits)

lemma idle_close: "net_socket_close k s = Some (r, s') \<Longrightarrow> sockets_idle s \<Longrightarrow> sockets_idle s'"
  by (auto simp: net_socket_close_def sockets_idle_def Let_def split: option.splits if_splits bind_splits)

lemma idle_recvfrom: "net_socket_recvfrom k buf s = Some (r, bs, s') \<Longrightarrow> sockets_idle s \<Longrightarrow> s' = s"
  by (auto simp: net_socket_recvfrom_def sockets_idle_def split: option.splits if_splits bind_splits)

lemma idle_socks: "socks s' = socks s \<Longrightarrow> sockets_idle s \<Longrightarrow> sockets_idle s'"
  by (simp add: sockets_idle_def)

lemmas idle_kept = idle_create idle_bind idle_close socks_kept [THEN idle_socks] socks_driven [THEN idle_socks]

lemma idle_step:
  assumes "net_step drv poll s s'" "drivers_keep_sockets drv poll" "sockets_idle s"
  shows "sockets_idle s'"
  using assms(1)
proof (cases rule: net_step.cases)
  case init
  then show ?thesis
    using assms(3) by (simp add: sockets_idle_def)
next
  case sock_init
  then show ?thesis
    using assms(3) by (simp add: net_socket_init_def sockets_idle_def)
next
  case sock_recv
  then show ?thesis
    using assms(3) idle_recvfrom by blast
qed (insert assms(2,3), (rule idle_kept, assumption+)+)

lemma idle_steps:
  assumes "(net_step drv poll)\<^sup>*\<^sup>* s s'" "drivers_keep_sockets drv poll" "sockets_idle s"
  shows "sockets_idle s'"
  using assms by (induction rule: rtranclp_induct) (auto intro: idle_step)

text \<open>
  C22: no socket ever receives anything. Whatever calls are made after the network has been started without sockets, receiving on an open socket
  with a proper buffer answers \<open>NET_EAGAIN\<close> and changes nothing, because no operation puts a packet on a socket's queue; the
  packets sent through a socket stay on the device.
\<close>

theorem socket_never_receives:
  assumes "(net_step drv poll)\<^sup>*\<^sup>* s0 s" "socks s0 = Map.empty" "drivers_keep_sockets drv poll" "socks s k \<noteq> None" "b \<noteq> []"
  shows "net_socket_recvfrom (Some k) (Some b) s = Some (NET_EAGAIN, [], s)"
proof -
  have "sockets_idle s"
    using idle_steps [OF assms(1,3)] assms(2) by (simp add: sockets_idle_def)
  then show ?thesis
    using assms(4,5) by (auto simp: net_socket_recvfrom_def sockets_idle_def)
qed

lemma loopback_keeps_sockets: "drivers_keep_sockets (\<lambda>_. loopback_xmit) (\<lambda>_. loopback_poll)"
  by (auto simp: drivers_keep_sockets_def loopback_xmit_def loopback_poll_def dest: socks_push socks_pop)

definition net_lo_sock :: net where
  "net_lo_sock = snd (the (net_socket_create NET_SOCK_DGRAM net_lo))"

definition net_lo_sent :: net where
  "net_lo_sent = snd (the (net_socket_sendto (\<lambda>_. loopback_xmit) (Some 1) (Some [7, 8]) net_lo_sock))"

lemma net_lo_sock_created: "net_socket_create NET_SOCK_DGRAM net_lo = Some (Some 1, net_lo_sock)"
  by (simp add: net_lo_sock_def net_lo_def net_socket_create_def net_calloc_def)

lemma net_lo_sent_ok: "net_socket_sendto (\<lambda>_. loopback_xmit) (Some 1) (Some [7, 8]) net_lo_sock = Some (NET_OK, net_lo_sent)"
  by (simp add: net_lo_sent_def net_lo_sock_def net_lo_def net_socket_create_def net_calloc_def net_socket_sendto_def net_find_device_def
      net_send_def loopback_xmit_def net_rx_push_def net_packet_alloc_def)

theorem socket_never_receives_witness:
  "net_socket_sendto (\<lambda>_. loopback_xmit) (Some 1) (Some [7, 8]) net_lo_sock = Some (NET_OK, net_lo_sent) \<and>
   net_socket_recvfrom (Some 1) (Some [0, 0]) net_lo_sent = Some (NET_EAGAIN, [], net_lo_sent)"
proof -
  have "(net_step (\<lambda>_. loopback_xmit) (\<lambda>_. loopback_poll))\<^sup>*\<^sup>* net_lo net_lo_sent"
    using net_step.sock_create [OF net_lo_sock_created] net_step.sock_send [OF net_lo_sent_ok]
    by (meson rtranclp.rtrancl_refl rtranclp.rtrancl_into_rtrancl)
  moreover have "socks net_lo = Map.empty"
    by (simp add: net_lo_def)
  moreover have "socks net_lo_sent 1 \<noteq> None"
    using socks_sendto [OF loopback_keeps_sockets net_lo_sent_ok]
    by (simp add: net_lo_sock_def net_lo_def net_socket_create_def net_calloc_def)
  ultimately show ?thesis
    using socket_never_receives [OF _ _ loopback_keeps_sockets, of net_lo net_lo_sent 1 "[0, 0]"] net_lo_sent_ok by simp
qed

end
