(* ===== verification/Ipc.thy ===== *)
theory Ipc
  imports Prelude "HOL-Library.Sublist"
begin

text \<open>
  Message ports and the service registry: \<^verbatim>\<open>src/kernel/ipc/ipc.c\<close>. Ports are objects in a store, a pointer to one is its
  identifier and \<open>None\<close> for \<open>NULL\<close>; the queue of a port and the registry are lists, the registry being absent until
  \<open>ipc_init\<close> has linked its head. Every allocation may fail. A \<open>None\<close> result is an access through a dangling
  or uninitialised pointer.
\<close>

section \<open>Model\<close>

definition IPC_NAME_MAX :: nat where "IPC_NAME_MAX = 32"
definition IPC_MAX_DATA :: nat where "IPC_MAX_DATA = 256"

abbreviation IPC_OK :: int where "IPC_OK \<equiv> 0"
abbreviation IPC_EINVAL :: int where "IPC_EINVAL \<equiv> - 1"
abbreviation IPC_ENOMEM :: int where "IPC_ENOMEM \<equiv> - 2"
abbreviation IPC_EAGAIN :: int where "IPC_EAGAIN \<equiv> - 3"
abbreviation IPC_E2BIG :: int where "IPC_E2BIG \<equiv> - 4"
abbreviation IPC_ENOENT :: int where "IPC_ENOENT \<equiv> - 5"
abbreviation IPC_EEXIST :: int where "IPC_EEXIST \<equiv> - 6"

type_synonym pid = nat

record ipc_msg =
  msg_id :: u32
  msg_src :: u32
  msg_type :: u32
  msg_flags :: u32
  msg_len :: usize
  msg_data :: "u8 list"

record ipc_port =
  port_id :: u32
  port_name :: string
  port_pending :: usize
  inbox :: "ipc_msg list"

record ipc_service =
  svc_name :: string
  svc_port :: pid

record ipc =
  ports :: "pid \<Rightarrow> ipc_port option"
  registry :: "ipc_service list option"
  next_port_id :: u32
  next_msg_id :: u32
  ipc_ready :: bool
  next_pid :: pid
  mem_ok :: "nat \<Rightarrow> bool"
  mem_no :: nat

text \<open>One call of \<open>calloc\<close>: whether it succeeds.\<close>

definition ipc_calloc :: "ipc \<Rightarrow> bool \<times> ipc" where
  "ipc_calloc s = (mem_ok s (mem_no s), s\<lparr>mem_no := mem_no s + 1\<rparr>)"

text \<open>A name as it is kept in a buffer of \<open>IPC_NAME_MAX\<close> characters.\<close>

definition ipc_copy_name :: "string option \<Rightarrow> string" where
  "ipc_copy_name src = (case src of None \<Rightarrow> [] | Some n \<Rightarrow> take (IPC_NAME_MAX - 1) n)"

definition ipc_find_service :: "string option \<Rightarrow> ipc \<Rightarrow> ipc_service option option" where
  "ipc_find_service name s =
     (case name of
        None \<Rightarrow> Some None
      | Some n \<Rightarrow> map_option (find (\<lambda>svc. svc_name svc = n)) (registry s))"

definition upd_port :: "pid \<Rightarrow> (ipc_port \<Rightarrow> ipc_port) \<Rightarrow> ipc \<Rightarrow> ipc" where
  "upd_port p f s = s\<lparr>ports := (ports s)(p := map_option f (ports s p))\<rparr>"

definition ipc_free_queue :: "pid option \<Rightarrow> ipc \<Rightarrow> ipc option" where
  "ipc_free_queue port s =
     (case port of
        None \<Rightarrow> Some s
      | Some p \<Rightarrow>
          if ports s p = None then None
          else Some (upd_port p (\<lambda>x. x\<lparr>inbox := [], port_pending := 0\<rparr>) s))"

definition ipc_init :: "ipc \<Rightarrow> ipc" where
  "ipc_init s =
     (if ipc_ready s then s
      else s\<lparr>registry := Some [], next_port_id := 1, next_msg_id := 1, ipc_ready := True\<rparr>)"

definition ipc_port_create :: "ipc \<Rightarrow> pid option \<times> ipc" where
  "ipc_port_create s =
     (case ipc_calloc s of
        (False, s) \<Rightarrow> (None, s)
      | (True, s) \<Rightarrow>
          (Some (next_pid s),
           s\<lparr>ports := (ports s)(next_pid s \<mapsto> \<lparr>port_id = next_port_id s, port_name = [], port_pending = 0, inbox = []\<rparr>),
             next_port_id := next_port_id s + 1, next_pid := next_pid s + 1\<rparr>))"

definition ipc_unregister_port :: "pid option \<Rightarrow> ipc \<Rightarrow> (int \<times> ipc) option" where
  "ipc_unregister_port port s =
     (case port of
        None \<Rightarrow> Some (IPC_EINVAL, s)
      | Some p \<Rightarrow>
          (case registry s of
             None \<Rightarrow> None
           | Some r \<Rightarrow> Some (IPC_OK, s\<lparr>registry := Some (filter (\<lambda>svc. svc_port svc \<noteq> p) r)\<rparr>)))"

definition ipc_port_destroy :: "pid option \<Rightarrow> ipc \<Rightarrow> ipc option" where
  "ipc_port_destroy port s =
     (case port of
        None \<Rightarrow> Some s
      | Some p \<Rightarrow> do {
          (_, s) \<leftarrow> ipc_unregister_port (Some p) s;
          s \<leftarrow> ipc_free_queue (Some p) s;
          Some (s\<lparr>ports := (ports s)(p := None)\<rparr>)
        })"

definition ipc_send :: "pid option \<Rightarrow> u32 \<Rightarrow> u32 \<Rightarrow> u8 list option \<Rightarrow> usize \<Rightarrow> ipc \<Rightarrow> (int \<times> ipc) option" where
  "ipc_send dst src type data len s =
     (case dst of
        None \<Rightarrow> Some (IPC_EINVAL, s)
      | Some p \<Rightarrow>
          if data = None \<and> len \<noteq> 0 then Some (IPC_EINVAL, s)
          else if unat len > IPC_MAX_DATA then Some (IPC_E2BIG, s)
          else (case ipc_calloc s of
              (False, s) \<Rightarrow> Some (IPC_ENOMEM, s)
            | (True, s) \<Rightarrow>
                if len > 0 \<and> length (the data) < unat len then None
                else
                  let body = (if len > 0 then take (unat len) (the data) else []);
                      msg = \<lparr>msg_id = next_msg_id s, msg_src = src, msg_type = type, msg_flags = 0, msg_len = len,
                             msg_data = body @ replicate (IPC_MAX_DATA - length body) 0\<rparr>;
                      s = s\<lparr>next_msg_id := next_msg_id s + 1\<rparr>
                  in if ports s p = None then None
                     else Some (IPC_OK, upd_port p (\<lambda>x. x\<lparr>inbox := inbox x @ [msg], port_pending := port_pending x + 1\<rparr>) s)))"

text \<open>The message that the caller's structure holds after \<open>ipc_recv\<close> has filled it from \<open>m\<close>.\<close>

definition fill_out :: "ipc_msg \<Rightarrow> ipc_msg \<Rightarrow> ipc_msg" where
  "fill_out m out = \<lparr>msg_id = msg_id m, msg_src = msg_src m, msg_type = msg_type m, msg_flags = msg_flags m, msg_len = msg_len m,
     msg_data = (if msg_len m > 0 then take (unat (msg_len m)) (msg_data m) @ drop (unat (msg_len m)) (msg_data out) else msg_data out)\<rparr>"

definition ipc_recv :: "pid option \<Rightarrow> ipc_msg option \<Rightarrow> ipc \<Rightarrow> (int \<times> ipc_msg option \<times> ipc) option" where
  "ipc_recv port out s =
     (case (port, out) of
        (Some p, Some o_msg) \<Rightarrow>
          (case ports s p of
             None \<Rightarrow> None
           | Some x \<Rightarrow>
               (case inbox x of
                  [] \<Rightarrow> Some (IPC_EAGAIN, out, s)
                | m # ms \<Rightarrow>
                    Some (IPC_OK, Some (fill_out m o_msg), upd_port p (\<lambda>x. x\<lparr>inbox := ms, port_pending := port_pending x - 1\<rparr>) s)))
      | _ \<Rightarrow> Some (IPC_EINVAL, out, s))"

definition ipc_pending :: "pid option \<Rightarrow> ipc \<Rightarrow> usize option" where
  "ipc_pending port s = (case port of None \<Rightarrow> Some 0 | Some p \<Rightarrow> map_option port_pending (ports s p))"

definition ipc_register_service :: "string option \<Rightarrow> pid option \<Rightarrow> ipc \<Rightarrow> (int \<times> ipc) option" where
  "ipc_register_service name port s =
     (case (name, port) of
        (Some n, Some p) \<Rightarrow> do {
          found \<leftarrow> ipc_find_service name s;
          if found \<noteq> None then Some (IPC_EEXIST, s)
          else (case ipc_calloc s of
              (False, s) \<Rightarrow> Some (IPC_ENOMEM, s)
            | (True, s) \<Rightarrow>
                if ports s p = None then None
                else
                  let s = upd_port p (\<lambda>x. x\<lparr>port_name := ipc_copy_name name\<rparr>) s
                  in map_option (\<lambda>r. (IPC_OK, s\<lparr>registry := Some (r @ [\<lparr>svc_name = ipc_copy_name name, svc_port = p\<rparr>])\<rparr>)) (registry s))
        }
      | _ \<Rightarrow> Some (IPC_EINVAL, s))"

definition ipc_unregister_service :: "string option \<Rightarrow> ipc \<Rightarrow> (int \<times> ipc) option" where
  "ipc_unregister_service name s = do {
     found \<leftarrow> ipc_find_service name s;
     case found of
       None \<Rightarrow> Some (IPC_ENOENT, s)
     | Some svc \<Rightarrow> map_option (\<lambda>r. (IPC_OK, s\<lparr>registry := Some (remove1 svc r)\<rparr>)) (registry s)
   }"

definition ipc_lookup_service :: "string option \<Rightarrow> ipc \<Rightarrow> pid option option" where
  "ipc_lookup_service name s = map_option (map_option svc_port) (ipc_find_service name s)"

section \<open>Well-formed states\<close>

definition msg_ok :: "ipc_msg \<Rightarrow> bool" where
  "msg_ok m \<longleftrightarrow> unat (msg_len m) \<le> IPC_MAX_DATA \<and> length (msg_data m) = IPC_MAX_DATA"

definition port_ok :: "ipc_port \<Rightarrow> bool" where
  "port_ok x \<longleftrightarrow> port_pending x = of_nat (length (inbox x)) \<and> length (port_name x) < IPC_NAME_MAX \<and> (\<forall>m \<in> set (inbox x). msg_ok m)"

definition ipc_wf :: "ipc \<Rightarrow> bool" where
  "ipc_wf s \<longleftrightarrow> ipc_ready s \<and> (\<exists>r. registry s = Some r \<and> (\<forall>svc \<in> set r. ports s (svc_port svc) \<noteq> None \<and> length (svc_name svc) < IPC_NAME_MAX)) \<and>
     (\<forall>p x. ports s p = Some x \<longrightarrow> p < next_pid s \<and> port_ok x)"

text \<open>The operations of the interface as a client calls them, and their answers.\<close>

datatype ipc_op = Create | Destroy pid | Send pid u32 u32 "u8 list" | Recv pid | Register string pid | Unregister string | Unregister_Port pid

datatype ipc_ans = Code int | Port "pid option" | Message ipc_msg

definition blank_msg :: ipc_msg where
  "blank_msg = \<lparr>msg_id = 0, msg_src = 0, msg_type = 0, msg_flags = 0, msg_len = 0, msg_data = replicate IPC_MAX_DATA 0\<rparr>"

fun ipc_do :: "ipc_op \<Rightarrow> ipc \<Rightarrow> (ipc_ans \<times> ipc) option" where
  "ipc_do Create s = (case ipc_port_create s of (p, s) \<Rightarrow> Some (Port p, s))"
| "ipc_do (Destroy p) s = map_option (Pair (Code IPC_OK)) (ipc_port_destroy (Some p) s)"
| "ipc_do (Send p src type data) s = map_option (map_prod Code id) (ipc_send (Some p) src type (Some data) (of_nat (length data)) s)"
| "ipc_do (Recv p) s =
     map_option (\<lambda>(r, out, s). (if r = IPC_OK then Message (the out) else Code r, s)) (ipc_recv (Some p) (Some blank_msg) s)"
| "ipc_do (Register n p) s = map_option (map_prod Code id) (ipc_register_service (Some n) (Some p) s)"
| "ipc_do (Unregister n) s = map_option (map_prod Code id) (ipc_unregister_service (Some n) s)"
| "ipc_do (Unregister_Port p) s = map_option (map_prod Code id) (ipc_unregister_port (Some p) s)"

text \<open>A client uses ports that exist.\<close>

fun ipc_legal :: "ipc \<Rightarrow> ipc_op \<Rightarrow> bool" where
  "ipc_legal s (Destroy p) \<longleftrightarrow> ports s p \<noteq> None"
| "ipc_legal s (Send p src type data) \<longleftrightarrow> ports s p \<noteq> None \<and> length data < 2 ^ 32"
| "ipc_legal s (Recv p) \<longleftrightarrow> ports s p \<noteq> None"
| "ipc_legal s (Register n p) \<longleftrightarrow> ports s p \<noteq> None"
| "ipc_legal s _ \<longleftrightarrow> True"

fun run_ipc :: "ipc_op list \<Rightarrow> ipc \<Rightarrow> (ipc_ans list \<times> ipc) option" where
  "run_ipc [] s = Some ([], s)"
| "run_ipc (op # ops) s = do {
     (a, s) \<leftarrow> ipc_do op s;
     (as, s) \<leftarrow> run_ipc ops s;
     Some (a # as, s)
   }"

fun legal_run :: "ipc_op list \<Rightarrow> ipc \<Rightarrow> bool" where
  "legal_run [] s \<longleftrightarrow> True"
| "legal_run (op # ops) s \<longleftrightarrow> ipc_legal s op \<and> (case ipc_do op s of None \<Rightarrow> True | Some (_, s) \<Rightarrow> legal_run ops s)"

lemma ipc_wf_registry: "ipc_wf s \<Longrightarrow> \<exists>r. registry s = Some r \<and> (\<forall>svc \<in> set r. ports s (svc_port svc) \<noteq> None \<and> length (svc_name svc) < IPC_NAME_MAX)"
  by (simp add: ipc_wf_def)

lemma ipc_wf_port: "ipc_wf s \<Longrightarrow> ports s p = Some x \<Longrightarrow> p < next_pid s \<and> port_ok x"
  by (simp add: ipc_wf_def)

lemma ipc_wf_upd_port:
  assumes "ipc_wf s" "\<And>x. ports s p = Some x \<Longrightarrow> port_ok x \<Longrightarrow> port_ok (f x)"
  shows "ipc_wf (upd_port p f s)"
  using assms unfolding ipc_wf_def upd_port_def by auto

lemma ipc_wf_counters [simp]: "ipc_wf (s\<lparr>mem_no := n\<rparr>) = ipc_wf s" "ipc_wf (s\<lparr>next_msg_id := i\<rparr>) = ipc_wf s"
  by (simp_all add: ipc_wf_def)

lemma copy_name_bound: "length (ipc_copy_name n) < IPC_NAME_MAX"
  by (auto simp: ipc_copy_name_def IPC_NAME_MAX_def split: option.split)

lemma send_ok:
  assumes "ipc_wf s" "ports s p = Some x" "length data < 2 ^ 32"
  shows "\<exists>r s'. ipc_send (Some p) src type (Some data) (of_nat (length data)) s = Some (r, s') \<and> ipc_wf s' \<and>
    (if r = IPC_OK then \<exists>m. s' = upd_port p (\<lambda>x. x\<lparr>inbox := inbox x @ [m], port_pending := port_pending x + 1\<rparr>)
         (s\<lparr>mem_no := mem_no s + 1, next_msg_id := next_msg_id s + 1\<rparr>) \<and>
         msg_src m = src \<and> msg_type m = type \<and> take (unat (msg_len m)) (msg_data m) = data
     else ports s' = ports s)"
proof (cases "length data \<le> IPC_MAX_DATA \<and> mem_ok s (mem_no s)")
  case True
  have len: "unat (of_nat (length data) :: usize) = length data"
    using assms(3) by (simp add: unat_of_nat)
  let ?m = "\<lparr>msg_id = next_msg_id s, msg_src = src, msg_type = type, msg_flags = 0, msg_len = of_nat (length data),
      msg_data = data @ replicate (IPC_MAX_DATA - length data) 0\<rparr>"
  let ?s = "s\<lparr>mem_no := mem_no s + 1, next_msg_id := next_msg_id s + 1\<rparr>"
  have body: "\<not> (0 :: usize) < of_nat (length data) \<Longrightarrow> data = []"
    using len by (auto simp: word_less_nat_alt)
  have "ipc_send (Some p) src type (Some data) (of_nat (length data)) s =
      Some (IPC_OK, upd_port p (\<lambda>x. x\<lparr>inbox := inbox x @ [?m], port_pending := port_pending x + 1\<rparr>) ?s)"
    using True assms(2) len body by (cases "(0 :: usize) < of_nat (length data)") (simp_all add: ipc_send_def ipc_calloc_def Let_def)
  moreover have "msg_ok ?m"
    using True len by (simp add: msg_ok_def)
  then have "ipc_wf (upd_port p (\<lambda>x. x\<lparr>inbox := inbox x @ [?m], port_pending := port_pending x + 1\<rparr>) ?s)"
    using assms(1) by (intro ipc_wf_upd_port) (auto simp: port_ok_def)
  ultimately show ?thesis
    using len by (auto intro!: exI [of _ ?m])
next
  case False
  then show ?thesis
    using assms by (auto simp: ipc_send_def ipc_calloc_def unat_of_nat)
qed

lemma recv_ok:
  assumes "ipc_wf s" "ports s p = Some x"
  shows "case inbox x of
      [] \<Rightarrow> ipc_recv (Some p) (Some out) s = Some (IPC_EAGAIN, Some out, s)
    | m # ms \<Rightarrow> (let s' = upd_port p (\<lambda>x. x\<lparr>inbox := ms, port_pending := port_pending x - 1\<rparr>) s in
        ipc_recv (Some p) (Some out) s = Some (IPC_OK, Some (fill_out m out), s') \<and> ipc_wf s' \<and> msg_ok m)"
proof (cases "inbox x")
  case (Cons m ms)
  then have "port_ok (x\<lparr>inbox := ms, port_pending := port_pending x - 1\<rparr>)" "msg_ok m"
    using ipc_wf_port [OF assms] by (auto simp: port_ok_def)
  then show ?thesis
    using assms Cons by (auto simp: ipc_recv_def Let_def intro: ipc_wf_upd_port)
qed (use assms in \<open>simp add: ipc_recv_def\<close>)

lemma create_ok: "ipc_wf s \<Longrightarrow> ipc_port_create s = (r, s') \<Longrightarrow> ipc_wf s'"
  by (auto simp: ipc_port_create_def ipc_calloc_def ipc_wf_def port_ok_def IPC_NAME_MAX_def less_Suc_eq split: if_splits bool.splits)

lemma destroy_ok:
  assumes "ipc_wf s" "ports s p = Some x"
  shows "\<exists>s'. ipc_port_destroy (Some p) s = Some s' \<and> ipc_wf s' \<and> ports s' = (ports s)(p := None)"
  using assms by (auto simp: ipc_port_destroy_def ipc_unregister_port_def ipc_free_queue_def upd_port_def ipc_wf_def split: option.splits)

lemma register_ok:
  assumes "ipc_wf s" "ports s p = Some x"
  shows "\<exists>r s'. ipc_register_service (Some n) (Some p) s = Some (r, s') \<and> ipc_wf s' \<and>
    (\<forall>q. map_option inbox (ports s' q) = map_option inbox (ports s q))"
proof -
  obtain reg where reg: "registry s = Some reg" "\<forall>svc \<in> set reg. ports s (svc_port svc) \<noteq> None \<and> length (svc_name svc) < IPC_NAME_MAX"
    using ipc_wf_registry [OF assms(1)] by auto
  let ?s = "upd_port p (\<lambda>x. x\<lparr>port_name := ipc_copy_name (Some n)\<rparr>) (s\<lparr>mem_no := mem_no s + 1\<rparr>)"
  have "ipc_wf ?s"
    using assms(1) copy_name_bound by (intro ipc_wf_upd_port) (auto simp: port_ok_def)
  then have "ipc_wf (?s\<lparr>registry := Some (reg @ [\<lparr>svc_name = ipc_copy_name (Some n), svc_port = p\<rparr>])\<rparr>)"
    using reg assms(2) copy_name_bound by (auto simp: ipc_wf_def upd_port_def)
  then show ?thesis
    using assms reg(1)
    by (cases "mem_ok s (mem_no s)") (auto simp: ipc_register_service_def ipc_find_service_def ipc_calloc_def upd_port_def Let_def)
qed

lemma unregister_ok:
  assumes "ipc_wf s"
  shows "\<exists>r s'. ipc_unregister_service (Some n) s = Some (r, s') \<and> ipc_wf s' \<and> ports s' = ports s"
    "\<exists>r s'. ipc_unregister_port (Some p) s = Some (r, s') \<and> ipc_wf s' \<and> ports s' = ports s"
  using assms by (auto simp: ipc_unregister_service_def ipc_find_service_def ipc_unregister_port_def ipc_wf_def
      dest!: subsetD [OF set_remove1_subset] split: option.splits)

text \<open>What an operation does to the queue of a port, told by its answer.\<close>

definition queue_of :: "ipc \<Rightarrow> pid \<Rightarrow> ipc_msg list" where
  "queue_of s p = (case ports s p of None \<Rightarrow> [] | Some x \<Rightarrow> inbox x)"

definition payload :: "ipc_msg \<Rightarrow> u32 \<times> u32 \<times> u8 list" where
  "payload m = (msg_src m, msg_type m, take (unat (msg_len m)) (msg_data m))"

fun sent :: "pid \<Rightarrow> ipc_op \<times> ipc_ans \<Rightarrow> (u32 \<times> u32 \<times> u8 list) list" where
  "sent p (Send q src type data, Code c) = (if q = p \<and> c = IPC_OK then [(src, type, data)] else [])"
| "sent p _ = []"

fun received :: "pid \<Rightarrow> ipc_op \<times> ipc_ans \<Rightarrow> (u32 \<times> u32 \<times> u8 list) list" where
  "received p (Recv q, Message m) = (if q = p then [payload m] else [])"
| "received p _ = []"

lemma payload_fill_out: "msg_ok m \<Longrightarrow> payload (fill_out m out) = payload m"
  by (auto simp: payload_def fill_out_def msg_ok_def word_less_nat_alt)

lemma ipc_do_step:
  assumes "ipc_wf s" "ipc_legal s op"
  shows "\<exists>a s'. ipc_do op s = Some (a, s') \<and> ipc_wf s' \<and>
    (\<forall>p. ports s p \<noteq> None \<longrightarrow> op \<noteq> Destroy p \<longrightarrow> ports s' p \<noteq> None \<and>
      map payload (queue_of s p) @ sent p (op, a) = received p (op, a) @ map payload (queue_of s' p) \<and>
      (op = Recv p \<longrightarrow> queue_of s p \<noteq> [] \<longrightarrow> received p (op, a) \<noteq> []))"
proof (cases op)
  case Create
  obtain r s' where c: "ipc_port_create s = (r, s')"
    by fastforce
  moreover have "ports s (next_pid s) = None"
    using ipc_wf_port [OF assms(1), of "next_pid s"] by (cases "ports s (next_pid s)") auto
  then have "ports s' p = ports s p" if "ports s p \<noteq> None" for p
    using c that by (auto simp: ipc_port_create_def ipc_calloc_def split: bool.splits if_splits)
  ultimately show ?thesis
    using Create create_ok [OF assms(1) c] by (auto simp: queue_of_def)
next
  case (Destroy p)
  then show ?thesis
    using assms destroy_ok [OF assms(1), of p] by (auto simp: queue_of_def)
next
  case (Send p src type data)
  then obtain x where x: "ports s p = Some x" "length data < 2 ^ 32"
    using assms(2) by auto
  obtain r s' where s': "ipc_send (Some p) src type (Some data) (of_nat (length data)) s = Some (r, s')" "ipc_wf s'"
      "if r = IPC_OK then \<exists>m. s' = upd_port p (\<lambda>x. x\<lparr>inbox := inbox x @ [m], port_pending := port_pending x + 1\<rparr>)
         (s\<lparr>mem_no := mem_no s + 1, next_msg_id := next_msg_id s + 1\<rparr>) \<and>
         msg_src m = src \<and> msg_type m = type \<and> take (unat (msg_len m)) (msg_data m) = data
       else ports s' = ports s"
    using send_ok [OF assms(1) x] by blast
  then show ?thesis
    using Send x by (auto simp: queue_of_def upd_port_def payload_def split: if_splits option.splits)
next
  case (Recv p)
  then obtain x where x: "ports s p = Some x"
    using assms(2) by auto
  note r = recv_ok [OF assms(1) x, of blank_msg]
  show ?thesis
  proof (cases "inbox x")
    case Nil
    then show ?thesis
      using Recv x r assms(1) by (auto simp: queue_of_def split: option.splits)
  next
    case (Cons m ms)
    then show ?thesis
      using Recv x r payload_fill_out by (auto simp: queue_of_def upd_port_def Let_def split: option.splits)
  qed
next
  case (Register n p)
  then obtain x where x: "ports s p = Some x"
    using assms(2) by auto
  obtain r s' where s': "ipc_register_service (Some n) (Some p) s = Some (r, s')" "ipc_wf s'"
      "\<forall>q. map_option inbox (ports s' q) = map_option inbox (ports s q)"
    using register_ok [OF assms(1) x] by blast
  have "ports s' q \<noteq> None \<and> queue_of s' q = queue_of s q" if "ports s q \<noteq> None" for q
    using that spec [OF s'(3), of q] by (cases "ports s' q") (auto simp: queue_of_def)
  then show ?thesis
    using Register s' by auto
next
  case (Unregister n)
  then show ?thesis
    using unregister_ok(1) [OF assms(1), of n] by (auto simp: queue_of_def)
next
  case (Unregister_Port p)
  then show ?thesis
    using unregister_ok(2) [OF assms(1), of p] by (auto simp: queue_of_def)
qed

section \<open>Runs\<close>

abbreviation sent_to :: "pid \<Rightarrow> ipc_op list \<Rightarrow> ipc_ans list \<Rightarrow> (u32 \<times> u32 \<times> u8 list) list" where
  "sent_to p ops as \<equiv> concat (map (sent p) (zip ops as))"

abbreviation received_from :: "pid \<Rightarrow> ipc_op list \<Rightarrow> ipc_ans list \<Rightarrow> (u32 \<times> u32 \<times> u8 list) list" where
  "received_from p ops as \<equiv> concat (map (received p) (zip ops as))"

lemma run_ipc_wf:
  assumes "ipc_wf s" "legal_run ops s"
  shows "\<exists>as s'. run_ipc ops s = Some (as, s') \<and> ipc_wf s'"
  using assms
proof (induction ops arbitrary: s)
  case (Cons op ops)
  obtain a s1 where s1: "ipc_do op s = Some (a, s1)" "ipc_wf s1"
    using ipc_do_step [OF Cons.prems(1), of op] Cons.prems(2) by auto
  then show ?case
    using Cons.IH [of s1] Cons.prems(2) by auto
qed simp

lemma run_ipc_queue:
  assumes "ipc_wf s" "legal_run ops s" "ports s p \<noteq> None" "Destroy p \<notin> set ops" "run_ipc ops s = Some (as, s')"
  shows "map payload (queue_of s p) @ sent_to p ops as = received_from p ops as @ map payload (queue_of s' p)"
    and "min (count_list ops (Recv p)) (length (queue_of s p)) \<le> length (received_from p ops as)"
proof -
  have "map payload (queue_of s p) @ sent_to p ops as = received_from p ops as @ map payload (queue_of s' p) \<and>
      min (count_list ops (Recv p)) (length (queue_of s p)) \<le> length (received_from p ops as)"
    using assms
  proof (induction ops arbitrary: s as)
    case (Cons op ops)
    obtain a s1 where s1: "ipc_do op s = Some (a, s1)" "ipc_wf s1" "ports s1 p \<noteq> None"
        "map payload (queue_of s p) @ sent p (op, a) = received p (op, a) @ map payload (queue_of s1 p)"
        "op = Recv p \<longrightarrow> queue_of s p \<noteq> [] \<longrightarrow> received p (op, a) \<noteq> []"
      using ipc_do_step [OF Cons.prems(1), of op] Cons.prems(2-4) by fastforce
    obtain as1 where as: "as = a # as1" "run_ipc ops s1 = Some (as1, s')" "legal_run ops s1"
      using Cons.prems(2,5) s1(1) by (auto simp: bind_eq_Some_conv)
    note IH = Cons.IH [OF s1(2) as(3) s1(3) _ as(2)]
    have q: "map payload (queue_of s1 p) @ sent_to p ops as1 = received_from p ops as1 @ map payload (queue_of s' p)"
        "min (count_list ops (Recv p)) (length (queue_of s1 p)) \<le> length (received_from p ops as1)"
      using IH Cons.prems(4) by auto
    have "length (queue_of s p) + length (sent p (op, a)) = length (received p (op, a)) + length (queue_of s1 p)"
      using arg_cong [OF s1(4), of length] by simp
    moreover have "op = Recv p \<Longrightarrow> queue_of s p = [] \<or> 1 \<le> length (received p (op, a))" "op = Recv p \<Longrightarrow> sent p (op, a) = []"
      using s1(5) by (cases "received p (op, a)"; auto)+
    moreover have "map payload (queue_of s p) @ sent p (op, a) @ sent_to p ops as1 =
        received p (op, a) @ received_from p ops as1 @ map payload (queue_of s' p)"
      using s1(4) q(1) by (metis append.assoc)
    moreover have "min (count_list (op # ops) (Recv p)) (length (queue_of s p)) \<le> length (received p (op, a)) + length (received_from p ops as1)"
      using calculation(1-3) q(2) by (cases "op = Recv p") (auto simp: min_def split: if_splits)
    ultimately show ?case
      by (simp add: as(1))
  qed simp
  then show "map payload (queue_of s p) @ sent_to p ops as = received_from p ops as @ map payload (queue_of s' p)"
    "min (count_list ops (Recv p)) (length (queue_of s p)) \<le> length (received_from p ops as)"
    by blast+
qed

text \<open>
  C18: the state of the ports stays well-typed. Every sequence of operations on existing ports runs without following a
  dangling pointer, and keeps the state well-formed: the pending count of each port is the length of its queue, messages and names fit
  their buffers, and every registered service refers to a port that exists.
\<close>

theorem ipc_operations_wf:
  assumes "ipc_wf s" "legal_run ops s"
  shows "\<exists>as s'. run_ipc ops s = Some (as, s') \<and> ipc_wf s'"
  by (rule run_ipc_wf [OF assms])

text \<open>
  C17: messages are delivered. Whatever operations are interleaved, as long as a port is not destroyed, the messages received from it
  are those that were waiting followed by those sent since, in order and none twice; and once as many receives have been
  made as messages were waiting, all of these have been delivered.
\<close>

theorem ipc_delivers:
  assumes "ipc_wf s" "legal_run ops s" "ports s p \<noteq> None" "Destroy p \<notin> set ops"
  shows "\<exists>as s'. run_ipc ops s = Some (as, s') \<and>
    map payload (queue_of s p) @ sent_to p ops as = received_from p ops as @ map payload (queue_of s' p) \<and>
    (length (queue_of s p) \<le> count_list ops (Recv p) \<longrightarrow> prefix (map payload (queue_of s p)) (received_from p ops as))"
proof -
  obtain as s' where r: "run_ipc ops s = Some (as, s')"
    using run_ipc_wf [OF assms(1,2)] by blast
  note q = run_ipc_queue [OF assms r]
  have "prefix (map payload (queue_of s p)) (received_from p ops as)" if "length (queue_of s p) \<le> count_list ops (Recv p)"
  proof -
    have "length (map payload (queue_of s p)) \<le> length (received_from p ops as)"
      using q(2) that by simp
    then show ?thesis
      using q(1) by (metis prefixI prefix_length_prefix)
  qed
  then show ?thesis
    using r q(1) by blast
qed

text \<open>A port with one message waiting.\<close>

definition hello :: ipc_msg where
  "hello = \<lparr>msg_id = 1, msg_src = 7, msg_type = 3, msg_flags = 0, msg_len = 2, msg_data = [72, 73] @ replicate 254 0\<rparr>"

definition ipc_small :: ipc where
  "ipc_small = \<lparr>ports = [0 \<mapsto> \<lparr>port_id = 1, port_name = [], port_pending = 1, inbox = [hello]\<rparr>], registry = Some [], next_port_id = 2,
     next_msg_id = 2, ipc_ready = True, next_pid = 1, mem_ok = (\<lambda>_. True), mem_no = 0\<rparr>"

lemma ipc_small_wf: "ipc_wf ipc_small"
  by (auto simp: ipc_wf_def ipc_small_def port_ok_def msg_ok_def hello_def IPC_NAME_MAX_def IPC_MAX_DATA_def)

lemma ipc_small_legal: "legal_run [Send 0 1 2 [5], Recv 0, Recv 0] ipc_small"
  by (simp add: ipc_small_def ipc_send_def ipc_recv_def ipc_calloc_def upd_port_def Let_def IPC_MAX_DATA_def)

theorem ipc_operations_wf_witness:
  "\<exists>as s'. run_ipc [Send 0 1 2 [5], Recv 0, Recv 0] ipc_small = Some (as, s') \<and> ipc_wf s'"
  by (rule ipc_operations_wf [OF ipc_small_wf ipc_small_legal])

theorem ipc_delivers_witness:
  "\<exists>as s'. run_ipc [Send 0 1 2 [5], Recv 0, Recv 0] ipc_small = Some (as, s') \<and>
     prefix [(7, 3, [72, 73])] (received_from 0 [Send 0 1 2 [5], Recv 0, Recv 0] as)"
proof -
  have "map payload (queue_of ipc_small 0) = [(7, 3, [72, 73])]" "ports ipc_small 0 \<noteq> None"
    by (simp_all add: queue_of_def ipc_small_def payload_def hello_def)
  moreover have "length (queue_of ipc_small 0) \<le> count_list [Send 0 1 2 [5], Recv 0, Recv 0] (Recv 0)"
    by (simp add: queue_of_def ipc_small_def)
  ultimately show ?thesis
    using ipc_delivers [OF ipc_small_wf ipc_small_legal, of 0] by fastforce
qed

section \<open>Services\<close>

lemma lookup_registry: "registry s = Some r \<Longrightarrow> ipc_lookup_service (Some n) s = Some (map_option svc_port (find (\<lambda>svc. svc_name svc = n) r))"
  by (simp add: ipc_lookup_service_def ipc_find_service_def)

text \<open>
  C40: registering a service. On a well-formed state the call reports a name in use, a lack of memory, or success. On success a
  name resolves as before if it did, and the first 31 characters of the registered name resolve to the port; nothing else does, so a longer name cannot be
  looked up.
\<close>

theorem ipc_register_resolves:
  assumes "ipc_wf s" "ports s p \<noteq> None" "ipc_register_service (Some n) (Some p) s = Some (r, s')"
  shows "if r = IPC_OK then ipc_lookup_service (Some n) s = Some None \<and>
      (\<forall>k. ipc_lookup_service (Some k) s' =
         (if ipc_lookup_service (Some k) s = Some None \<and> k = take 31 n then Some (Some p) else ipc_lookup_service (Some k) s))
    else (\<forall>k. ipc_lookup_service (Some k) s' = ipc_lookup_service (Some k) s) \<and>
      (r = IPC_EEXIST \<and> ipc_lookup_service (Some n) s \<noteq> Some None \<or> r = IPC_ENOMEM)"
proof -
  obtain reg where reg: "registry s = Some reg"
    using ipc_wf_registry [OF assms(1)] by auto
  show ?thesis
  proof (cases "find (\<lambda>svc. svc_name svc = n) reg = None \<and> mem_ok s (mem_no s)")
    case True
    then have r: "r = IPC_OK" "registry s' = Some (reg @ [\<lparr>svc_name = take 31 n, svc_port = p\<rparr>])"
      using assms(2,3) reg
      by (auto simp: ipc_register_service_def ipc_find_service_def ipc_calloc_def upd_port_def ipc_copy_name_def IPC_NAME_MAX_def Let_def)
    show ?thesis
      using True r(1) by (auto simp: lookup_registry [OF reg] lookup_registry [OF r(2)] find_append split: option.split)
  next
    case False
    then have r: "registry s' = Some reg" "r = IPC_EEXIST \<and> find (\<lambda>svc. svc_name svc = n) reg \<noteq> None \<or> r = IPC_ENOMEM"
      using assms(2,3) reg by (auto simp: ipc_register_service_def ipc_find_service_def ipc_calloc_def split: if_splits)
    then show ?thesis
      by (auto simp: lookup_registry [OF reg] lookup_registry [OF r(1)])
  qed
qed

theorem ipc_register_resolves_witness:
  "\<exists>s'. ipc_register_service (Some (replicate 32 (CHR ''a''))) (Some 0) ipc_small = Some (IPC_OK, s') \<and>
     ipc_lookup_service (Some (replicate 31 (CHR ''a''))) s' = Some (Some 0) \<and>
     ipc_lookup_service (Some (replicate 32 (CHR ''a''))) s' = Some None"
proof -
  let ?n = "replicate 32 (CHR ''a'')"
  have "map_option fst (ipc_register_service (Some ?n) (Some 0) ipc_small) = Some IPC_OK"
    by (simp add: ipc_register_service_def ipc_find_service_def ipc_calloc_def ipc_small_def upd_port_def Let_def)
  then obtain s' where s': "ipc_register_service (Some ?n) (Some 0) ipc_small = Some (IPC_OK, s')"
    by auto
  have none: "ipc_lookup_service (Some k) ipc_small = Some None" for k
    by (simp add: ipc_lookup_service_def ipc_find_service_def ipc_small_def)
  have "ports ipc_small 0 \<noteq> None" "take 31 ?n = replicate 31 (CHR ''a'')" "replicate 31 (CHR ''a'') \<noteq> ?n"
    by (simp_all add: ipc_small_def take_replicate)
  then show ?thesis
    using ipc_register_resolves [OF ipc_small_wf _ s'] s' none by auto
qed

end
