(* ===== verification/Fallible.thy ===== *)
theory Fallible
  imports Prelude
begin

text \<open>
  Operations on a state that may fail with an error code, for the block devices and the file system on them. An operation is a function from the
  state to an error or a value and the new state; what a C function stores through an output pointer on success is its value. The theory
  has the sequencing that stops at the first error, the loops over a range, and the rules for
  proving what holds after a success and after a failure.
\<close>

type_synonym ('s, 'a) io = "'s \<Rightarrow> (Errno + 'a) \<times> 's"

definition retE :: "'a \<Rightarrow> ('s, 'a) io" where
  "retE x s = (Inr x, s)"

definition failE :: "Errno \<Rightarrow> ('s, 'a) io" where
  "failE e s = (Inl e, s)"

definition bindE :: "('s, 'a) io \<Rightarrow> ('a \<Rightarrow> ('s, 'b) io) \<Rightarrow> ('s, 'b) io" where
  "bindE m f s = (case m s of (Inl e, t) \<Rightarrow> (Inl e, t) | (Inr x, t) \<Rightarrow> f x t)"

text \<open>A guard with an error, and the loops over a list of indices.\<close>

definition requireE :: "bool \<Rightarrow> Errno \<Rightarrow> ('s, unit) io" where
  "requireE b e = (if b then retE () else failE e)"

fun mapE :: "('i \<Rightarrow> ('s, 'a) io) \<Rightarrow> 'i list \<Rightarrow> ('s, 'a list) io" where
  "mapE f [] = retE []"
| "mapE f (i # is) = bindE (f i) (\<lambda>x. bindE (mapE f is) (\<lambda>xs. retE (x # xs)))"

fun eachE :: "('i \<Rightarrow> ('s, unit) io) \<Rightarrow> 'i list \<Rightarrow> ('s, unit) io" where
  "eachE f [] = retE ()"
| "eachE f (i # is) = bindE (f i) (\<lambda>_. eachE f is)"

text \<open>An operation on a part of the state.\<close>

definition partE :: "('s \<Rightarrow> 'p) \<Rightarrow> ('p \<Rightarrow> 's \<Rightarrow> 's) \<Rightarrow> ('p, 'a) io \<Rightarrow> ('s, 'a) io" where
  "partE get put m s = (case m (get s) of (r, p) \<Rightarrow> (r, put p s))"

lemma retE_simp [simp]: "retE x s = (Inr x, s)"
  by (simp add: retE_def)

lemma failE_simp [simp]: "failE e s = (Inl e, s)"
  by (simp add: failE_def)

lemma requireE_simp [simp]: "requireE b e s = (if b then Inr () else Inl e, s)"
  by (simp add: requireE_def)

lemma bindE_Inr: "bindE m f s = (Inr y, t) \<longleftrightarrow> (\<exists>x u. m s = (Inr x, u) \<and> f x u = (Inr y, t))"
  by (auto simp: bindE_def split: prod.split sum.split)

lemma bindE_Inl: "bindE m f s = (Inl e, t) \<longleftrightarrow> m s = (Inl e, t) \<or> (\<exists>x u. m s = (Inr x, u) \<and> f x u = (Inl e, t))"
  by (auto simp: bindE_def split: prod.split sum.split)

text \<open>
  \<open>okE P m Q E\<close>: started in a state with \<open>P\<close>, the operation ends in \<open>Q\<close> when it succeeds and
  in \<open>E\<close> when it fails.
\<close>

definition okE :: "('s \<Rightarrow> bool) \<Rightarrow> ('s, 'a) io \<Rightarrow> ('a \<Rightarrow> 's \<Rightarrow> bool) \<Rightarrow> ('s \<Rightarrow> bool) \<Rightarrow> bool" where
  "okE P m Q E \<longleftrightarrow> (\<forall>s. P s \<longrightarrow> (case m s of (Inl _, t) \<Rightarrow> E t | (Inr x, t) \<Rightarrow> Q x t))"

lemma okE_Inr: "okE P m Q E \<Longrightarrow> P s \<Longrightarrow> m s = (Inr x, t) \<Longrightarrow> Q x t"
  by (fastforce simp: okE_def)

lemma okE_Inl: "okE P m Q E \<Longrightarrow> P s \<Longrightarrow> m s = (Inl e, t) \<Longrightarrow> E t"
  by (fastforce simp: okE_def)

lemma okE_ret: "(\<And>s. P s \<Longrightarrow> Q x s) \<Longrightarrow> okE P (retE x) Q E"
  by (simp add: okE_def)

lemma okE_fail: "(\<And>s. P s \<Longrightarrow> E s) \<Longrightarrow> okE P (failE e) Q E"
  by (simp add: okE_def)

lemma okE_bind: "okE P m R E \<Longrightarrow> (\<And>x. okE (R x) (f x) Q E) \<Longrightarrow> okE P (bindE m f) Q E"
  by (fastforce simp: okE_def bindE_def split: prod.splits sum.splits)

lemma okE_weaken: "okE P m Q E \<Longrightarrow> (\<And>s. P' s \<Longrightarrow> P s) \<Longrightarrow> (\<And>x s. Q x s \<Longrightarrow> Q' x s) \<Longrightarrow> (\<And>s. E s \<Longrightarrow> E' s) \<Longrightarrow> okE P' m Q' E'"
  by (fastforce simp: okE_def split: prod.splits sum.splits)

lemma okE_if: "(b \<Longrightarrow> okE P m Q E) \<Longrightarrow> (\<not> b \<Longrightarrow> okE P n Q E) \<Longrightarrow> okE P (if b then m else n) Q E"
  by simp

lemma okE_each:
  assumes "\<And>i. i \<in> set is \<Longrightarrow> okE I (f i) (\<lambda>_. I) I"
  shows "okE I (eachE f is) (\<lambda>_. I) I"
  using assms by (induction "is") (auto intro!: okE_ret okE_bind)

text \<open>A property of the state that every operation keeps, whether it fails or not.\<close>

definition keepsE :: "('s \<Rightarrow> bool) \<Rightarrow> ('s, 'a) io \<Rightarrow> bool" where
  "keepsE I m \<longleftrightarrow> okE I m (\<lambda>_. I) I"

named_theorems keeps \<open>rules for invariants of fallible operations\<close>

lemma keepsE_ret [keeps]: "keepsE I (retE x)"
  by (simp add: keepsE_def okE_ret)

lemma keepsE_fail [keeps]: "keepsE I (failE e)"
  by (simp add: keepsE_def okE_fail)

lemma keepsE_require [keeps]: "keepsE I (requireE b e)"
  by (simp add: requireE_def keepsE_ret keepsE_fail)

lemma keepsE_bind [keeps]: "keepsE I m \<Longrightarrow> (\<And>x. keepsE I (f x)) \<Longrightarrow> keepsE I (bindE m f)"
  unfolding keepsE_def by (rule okE_bind)

lemma keepsE_if [keeps]: "(b \<Longrightarrow> keepsE I m) \<Longrightarrow> (\<not> b \<Longrightarrow> keepsE I n) \<Longrightarrow> keepsE I (if b then m else n)"
  by simp

lemma keepsE_each [keeps]: "(\<And>i. i \<in> set is \<Longrightarrow> keepsE I (f i)) \<Longrightarrow> keepsE I (eachE f is)"
  unfolding keepsE_def by (rule okE_each)

lemma keepsE_map [keeps]: "(\<And>i. i \<in> set is \<Longrightarrow> keepsE I (f i)) \<Longrightarrow> keepsE I (mapE f is)"
  by (induction "is") (auto intro!: keeps)

lemma keepsE_use: "keepsE I m \<Longrightarrow> I s \<Longrightarrow> m s = (r, t) \<Longrightarrow> I t"
  unfolding keepsE_def by (cases r) (auto dest: okE_Inl okE_Inr)

end
