(* ===== verification/Ata.thy ===== *)
theory Ata
  imports Fallible
begin

text \<open>
  The ATA disk driver: \<^verbatim>\<open>src/kernel/fs/block/ata.c\<close>. The drive is given by the sectors on its medium, the answers to IDENTIFY and the values its
  status register shows at successive readings, which are arbitrary. A sector travels through the 16-bit data register, low
  byte first; the drive takes the sector number from the bytes in its address registers and stores a sector when all
  its words have arrived. The reads of the control port that wait 400 ns have no effect here.
\<close>

section \<open>Model\<close>

definition ATA_SECTOR_SIZE :: nat where "ATA_SECTOR_SIZE = 512"
definition ATA_LBA28_SECTOR_LIMIT :: u32 where "ATA_LBA28_SECTOR_LIMIT = 0x10000000"
definition ATA_POLL_LIMIT :: nat where "ATA_POLL_LIMIT = 1000000"

definition ATA_SR_BSY :: u8 where "ATA_SR_BSY = 0x80"
definition ATA_SR_DRQ :: u8 where "ATA_SR_DRQ = 0x08"
definition ATA_SR_ERR :: u8 where "ATA_SR_ERR = 0x01"

record ata =
  medium :: "u32 \<Rightarrow> u8 list"
  status :: "nat \<Rightarrow> u8"
  status_no :: nat
  identity :: "nat \<Rightarrow> u16"
  ident_lba1 :: u8
  ident_lba2 :: u8
  ata_sectors :: u32

definition in_status :: "ata \<Rightarrow> u8 \<times> ata" where
  "in_status s = (status s (status_no s), s\<lparr>status_no := status_no s + 1\<rparr>)"

text \<open>The polling loops, with the number of rounds left.\<close>

fun not_busy_loop :: "nat \<Rightarrow> (ata, unit) io" where
  "not_busy_loop n s =
     (if n = 0 then (Inl ERR_TIMED_OUT, s)
      else
        let (st, s) = in_status s
        in if st = 0 \<or> st = 0xFF then (Inl ERR_DEVICE_NOT_FOUND, s)
           else if st AND ATA_SR_BSY = 0 then
             (if st AND (ATA_SR_ERR OR 0x20) \<noteq> 0 then Inl ERR_IO_ERROR else Inr (), s)
           else not_busy_loop (n - 1) s)"

definition ata_wait_not_busy :: "(ata, unit) io" where
  "ata_wait_not_busy = not_busy_loop ATA_POLL_LIMIT"

fun drq_loop :: "nat \<Rightarrow> (ata, unit) io" where
  "drq_loop n s =
     (if n = 0 then (Inl ERR_TIMED_OUT, s)
      else
        let (st, s) = in_status s
        in if st = 0 \<or> st = 0xFF then (Inl ERR_DEVICE_NOT_FOUND, s)
           else if st AND (ATA_SR_ERR OR 0x20) \<noteq> 0 then (Inl ERR_IO_ERROR, s)
           else if st AND ATA_SR_BSY = 0 \<and> st AND ATA_SR_DRQ \<noteq> 0 then (Inr (), s)
           else drq_loop (n - 1) s)"

definition ata_wait_drq :: "(ata, unit) io" where
  "ata_wait_drq = drq_loop ATA_POLL_LIMIT"

declare not_busy_loop.simps [simp del]
declare drq_loop.simps [simp del]

definition ata_identify :: "(ata, unit) io" where
  "ata_identify s =
     (let s = s\<lparr>ata_sectors := 0\<rparr>; (st, s) = in_status s
      in if st = 0 \<or> st = 0xFF then (Inl ERR_DEVICE_NOT_FOUND, s)
         else
           bindE ata_wait_not_busy (\<lambda>_ s.
             if ident_lba1 s \<noteq> 0 \<or> ident_lba2 s \<noteq> 0 then (Inl ERR_NOT_SUPPORTED, s)
             else
               bindE ata_wait_drq (\<lambda>_ s.
                 if identity s 49 AND push_bit 9 1 = 0 then (Inl ERR_NOT_SUPPORTED, s)
                 else
                   let n = ucast (identity s 60) OR push_bit 16 (ucast (identity s 61)); s = s\<lparr>ata_sectors := n\<rparr>
                   in if n = 0 then (Inl ERR_IO_ERROR, s)
                      else if n > ATA_LBA28_SECTOR_LIMIT then (Inr (), s\<lparr>ata_sectors := ATA_LBA28_SECTOR_LIMIT\<rparr>)
                      else (Inr (), s)) s) s)"

definition ata_sector_count :: "ata \<Rightarrow> u32" where
  "ata_sector_count s = ata_sectors s"

text \<open>The sector the drive is told: the low four bits of the drive register and the three address registers.\<close>

definition addressed :: "u32 \<Rightarrow> u32" where
  "addressed lba =
     (let devsel = ucast (0xE0 OR (drop_bit 24 lba AND 0x0F)) :: u8; lba0 = ucast lba :: u8; lba1 = ucast (drop_bit 8 lba) :: u8;
          lba2 = ucast (drop_bit 16 lba) :: u8
      in push_bit 24 (ucast (devsel AND 0x0F)) OR push_bit 16 (ucast lba2) OR push_bit 8 (ucast lba1) OR ucast lba0)"

text \<open>The words of a sector in the data register, and the bytes they carry.\<close>

definition data_word :: "u8 list \<Rightarrow> nat \<Rightarrow> u16" where
  "data_word bs w = ucast (bs ! (w * 2)) OR push_bit 8 (ucast (bs ! (w * 2 + 1)))"

definition word_bytes :: "u16 \<Rightarrow> u8 list" where
  "word_bytes v = [ucast v, ucast (drop_bit 8 v)]"

definition through_register :: "u8 list \<Rightarrow> u8 list" where
  "through_register bs = concat (map (\<lambda>w. word_bytes (data_word bs w)) [0..<ATA_SECTOR_SIZE div 2])"

definition read_sector :: "u32 \<Rightarrow> (ata, u8 list) io" where
  "read_sector lba =
     bindE ata_wait_not_busy (\<lambda>_.
     bindE ata_wait_drq (\<lambda>_ s. (Inr (through_register (medium s (addressed lba))), s)))"

definition ata_read28 :: "u32 \<Rightarrow> bool \<Rightarrow> u32 \<Rightarrow> (ata, u8 list) io" where
  "ata_read28 lba buf count s =
     (if count = 0 then (Inr [], s)
      else if \<not> buf \<or> ata_sectors s = 0 \<or> lba \<ge> ata_sectors s \<or> count > ata_sectors s - lba then (Inl ERR_INVALID_ARGUMENT, s)
      else bindE (mapE (\<lambda>i. read_sector (lba + of_nat i)) [0..<unat count]) (\<lambda>bs. retE (concat bs)) s)"

definition write_sector :: "u32 \<Rightarrow> u8 list \<Rightarrow> (ata, unit) io" where
  "write_sector lba bs =
     bindE ata_wait_not_busy (\<lambda>_.
     bindE ata_wait_drq (\<lambda>_ s. ata_wait_not_busy (s\<lparr>medium := (medium s)(addressed lba := through_register bs)\<rparr>)))"

definition ata_write28 :: "u32 \<Rightarrow> u8 list option \<Rightarrow> u32 \<Rightarrow> (ata, unit) io" where
  "ata_write28 lba buf count s =
     (if count = 0 then (Inr (), s)
      else (case buf of
          None \<Rightarrow> (Inl ERR_INVALID_ARGUMENT, s)
        | Some bytes \<Rightarrow>
            if ata_sectors s = 0 \<or> lba \<ge> ata_sectors s \<or> count > ata_sectors s - lba then (Inl ERR_INVALID_ARGUMENT, s)
            else
              bindE (eachE (\<lambda>i. write_sector (lba + of_nat i) (take ATA_SECTOR_SIZE (drop (i * ATA_SECTOR_SIZE) bytes))) [0..<unat count])
                (\<lambda>_. ata_wait_not_busy) s))"

section \<open>Transfers\<close>

lemma u8_high_bits [simp]: "\<not> bit (b :: u8) (8 + n)"
  by (auto dest: bit_imp_le_length)

lemma word_bytes_data_word: "word_bytes (data_word bs w) = [bs ! (w * 2), bs ! Suc (w * 2)]"
  by (auto simp: word_bytes_def data_word_def bit_simps intro!: bit_word_eqI)

lemma concat_pairs: "concat (map (\<lambda>w. [bs ! (w * 2), bs ! Suc (w * 2)]) [0..<n]) = map ((!) bs) [0..<n * 2]"
  by (induction n) simp_all

lemma through_register_nth: "through_register bs = map ((!) bs) [0..<ATA_SECTOR_SIZE]"
  unfolding through_register_def word_bytes_data_word concat_pairs by (simp add: ATA_SECTOR_SIZE_def)

lemma through_register_id: "length bs = ATA_SECTOR_SIZE \<Longrightarrow> through_register bs = bs"
  by (metis map_nth through_register_nth)

lemma length_through_register [simp]: "length (through_register bs) = ATA_SECTOR_SIZE"
  by (simp add: through_register_nth)

lemma addressed_id:
  assumes "lba < ATA_LBA28_SECTOR_LIMIT"
  shows "addressed lba = lba"
proof -
  have "unat lba < 2 ^ 28"
    using assms by (simp add: ATA_LBA28_SECTOR_LIMIT_def word_less_nat_alt)
  then have "take_bit 28 lba = lba"
    by (simp add: word_unat_eq_iff unsigned_take_bit_eq take_bit_nat_eq_self)
  then have b: "bit lba n \<Longrightarrow> n < 28" for n
    by (metis bit_take_bit_iff)
  have m: "(0xF :: u8) = mask 4" "(0xF :: u32) = mask 4" "(0xE0 :: u32) = push_bit 5 (mask 3)"
    by (simp_all add: mask_eq_exp_minus_1 push_bit_eq_mult)
  show ?thesis
  proof (rule bit_word_eqI)
    fix n :: nat
    consider "n < 8" | "8 \<le> n" "n < 16" | "16 \<le> n" "n < 24" | "24 \<le> n"
      by linarith
    then show "bit (addressed lba) n = bit lba n"
      by cases (auto simp: addressed_def Let_def m bit_simps dest: b)
  qed
qed

text \<open>The sectors in a valid range are numbered without wrap-around.\<close>

lemma range_no_wrap:
  fixes lba count total :: u32
  assumes "lba < total" "count \<le> total - lba" "i < unat count"
  shows "unat (lba + of_nat i) = unat lba + i" "lba + of_nat i < total"
proof -
  have "unat (total - lba) = unat total - unat lba"
    using assms(1) by (simp add: unat_sub)
  then have le: "unat lba + i < unat total"
    using assms by (simp add: word_le_nat_alt word_less_nat_alt)
  moreover have "unat (of_nat i :: u32) = i"
    using le unat_less_32 [of total] by (simp add: unat_of_nat)
  ultimately show *: "unat (lba + of_nat i) = unat lba + i"
    using unat_less_32 [of total] by (simp add: unat_word_ariths)
  show "lba + of_nat i < total"
    using le * by (simp add: word_less_nat_alt)
qed

definition in_range :: "u32 \<Rightarrow> u32 \<Rightarrow> u32 \<Rightarrow> bool" where
  "in_range lba count k \<longleftrightarrow> unat lba \<le> unat k \<and> unat k < unat lba + unat count"

definition sector_of :: "u8 list \<Rightarrow> nat \<Rightarrow> u8 list" where
  "sector_of bytes i = take ATA_SECTOR_SIZE (drop (i * ATA_SECTOR_SIZE) bytes)"

lemma length_sector_of [simp]:
  assumes "length bytes = n * ATA_SECTOR_SIZE" "i < n"
  shows "length (sector_of bytes i) = ATA_SECTOR_SIZE"
proof -
  have "Suc i * ATA_SECTOR_SIZE \<le> n * ATA_SECTOR_SIZE"
    using assms(2) by (intro mult_le_mono1) simp
  then show ?thesis
    using assms(1) by (simp add: sector_of_def)
qed

lemma concat_sectors: "length bytes = n * ATA_SECTOR_SIZE \<Longrightarrow> concat (map (sector_of bytes) [0..<n]) = bytes"
proof (induction n arbitrary: bytes)
  case (Suc n)
  let ?a = "take (n * ATA_SECTOR_SIZE) bytes"
  have m: "map (sector_of bytes) [0..<n] = map (sector_of ?a) [0..<n]"
  proof (rule map_cong [OF refl])
    fix i
    assume "i \<in> set [0..<n]"
    then have "Suc i * ATA_SECTOR_SIZE \<le> n * ATA_SECTOR_SIZE"
      by (intro mult_le_mono1) simp
    then show "sector_of bytes i = sector_of ?a i"
      by (simp add: sector_of_def drop_take min_def)
  qed
  have "concat (map (sector_of bytes) [0..<n]) = ?a"
    unfolding m by (rule Suc.IH) (use Suc.prems in simp)
  moreover have "sector_of bytes n = drop (n * ATA_SECTOR_SIZE) bytes"
    using Suc.prems by (simp add: sector_of_def)
  ultimately show ?case
    by simp
qed simp

lemma sectors_of_concat:
  assumes "\<forall>x \<in> set xs. length x = ATA_SECTOR_SIZE" "i < length xs"
  shows "sector_of (concat xs) i = xs ! i"
  using assms
proof (induction xs arbitrary: i)
  case (Cons x xs)
  then show ?case
    by (cases i) (auto simp: sector_of_def)
qed simp

text \<open>The disk the driver has found: within what 28 bits can address, with whole sectors.\<close>

definition ata_wf :: "ata \<Rightarrow> bool" where
  "ata_wf s \<longleftrightarrow> ata_sectors s \<le> ATA_LBA28_SECTOR_LIMIT \<and> (\<forall>k. length (medium s k) = ATA_SECTOR_SIZE)"

definition same_disk :: "ata \<Rightarrow> ata \<Rightarrow> bool" where
  "same_disk s t \<longleftrightarrow> medium t = medium s \<and> ata_sectors t = ata_sectors s"

lemma same_disk_refl [simp]: "same_disk s s"
  by (simp add: same_disk_def)

lemma same_disk_status [simp]: "same_disk s (t\<lparr>status_no := n\<rparr>) \<longleftrightarrow> same_disk s t"
  by (simp add: same_disk_def)

lemmas not_busy_loop_steps = not_busy_loop.simps [of 0] not_busy_loop.simps [of "Suc n" for n, simplified]

lemmas drq_loop_steps = drq_loop.simps [of 0] drq_loop.simps [of "Suc n" for n, simplified]

lemma not_busy_loop_keeps: "same_disk s0 s \<Longrightarrow> same_disk s0 (snd (not_busy_loop n s))"
  by (induction n arbitrary: s) (auto simp: not_busy_loop_steps in_status_def Let_def)

lemma drq_loop_keeps: "same_disk s0 s \<Longrightarrow> same_disk s0 (snd (drq_loop n s))"
  by (induction n arbitrary: s) (auto simp: drq_loop_steps in_status_def Let_def)

lemma keepsE_snd: "(\<And>s. I s \<Longrightarrow> I (snd (m s))) \<Longrightarrow> keepsE I m"
  by (fastforce simp: keepsE_def okE_def split: prod.split sum.split)

lemma waits_keep [keeps]: "keepsE (same_disk s0) ata_wait_not_busy" "keepsE (same_disk s0) ata_wait_drq"
  by (auto simp: ata_wait_not_busy_def ata_wait_drq_def intro!: keepsE_snd not_busy_loop_keeps drq_loop_keeps)

lemma wait_same: "ata_wait_not_busy s = (r, t) \<Longrightarrow> same_disk s t" "ata_wait_drq s = (r, t) \<Longrightarrow> same_disk s t"
  using keepsE_use [OF waits_keep(1) same_disk_refl] keepsE_use [OF waits_keep(2) same_disk_refl] by blast+

lemma same_disk_trans: "same_disk s t \<Longrightarrow> same_disk t u \<Longrightarrow> same_disk s u"
  by (simp add: same_disk_def)

lemma read_sector_same: "read_sector lba s = (r, t) \<Longrightarrow> same_disk s t"
  by (cases r) (auto simp: read_sector_def bindE_Inl bindE_Inr dest!: wait_same intro: same_disk_trans)

lemma read_sector_bytes:
  assumes "read_sector lba s = (Inr bs, t)" "ata_wf s" "lba < ata_sectors s"
  shows "bs = medium s lba"
proof -
  have "lba < ATA_LBA28_SECTOR_LIMIT"
    using assms(2,3) by (auto simp: ata_wf_def intro: less_le_trans)
  then show ?thesis
    using assms(1,2) by (auto simp: read_sector_def bindE_Inr addressed_id ata_wf_def same_disk_def through_register_id dest!: wait_same)
qed

lemma ata_wf_same: "same_disk s t \<Longrightarrow> ata_wf t \<longleftrightarrow> ata_wf s"
  by (simp add: same_disk_def ata_wf_def)

lemma read_sectors:
  assumes "mapE (\<lambda>i. read_sector (lba + of_nat i)) is s = (r, t)" "ata_wf s" "\<forall>i \<in> set is. lba + of_nat i < ata_sectors s"
  shows "same_disk s t \<and> (\<forall>xs. r = Inr xs \<longrightarrow> xs = map (\<lambda>i. medium s (lba + of_nat i)) is)"
  using assms
proof (induction "is" arbitrary: s r)
  case (Cons i "is")
  show ?case
  proof (cases "read_sector (lba + of_nat i) s")
    case (Pair q u)
    have su: "same_disk s u"
      using read_sector_same [OF Pair] .
    show ?thesis
    proof (cases q)
      case (Inl e)
      then show ?thesis
        using Cons.prems(1) Pair su by (auto simp: bindE_def)
    next
      case (Inr b)
      obtain r' where r': "mapE (\<lambda>i. read_sector (lba + of_nat i)) is u = (r', t)" "r = (case r' of Inl e \<Rightarrow> Inl e | Inr xs \<Rightarrow> Inr (b # xs))"
        using Cons.prems(1) Pair Inr by (auto simp: bindE_def split: prod.splits sum.splits)
      have "b = medium s (lba + of_nat i)"
        by (rule read_sector_bytes [OF Pair [unfolded Inr] Cons.prems(2)]) (rule bspec [OF Cons.prems(3)], rule list.set_intros)
      moreover have "ata_wf u" "\<forall>i \<in> set is. lba + of_nat i < ata_sectors u" "medium u = medium s"
        using su Cons.prems(2,3) by (simp_all add: ata_wf_same [OF su] same_disk_def)
      note Cons.IH [OF r'(1) this(1,2), unfolded this(3)]
      ultimately show ?thesis
        using same_disk_trans [OF su] r'(2) by (cases r') simp_all
    qed
  qed
qed simp

lemma ata_read28_spec:
  assumes "ata_read28 lba buf count s = (r, t)" "ata_wf s"
  shows "same_disk s t \<and> (\<forall>bs. r = Inr bs \<longrightarrow> bs = concat (map (\<lambda>i. medium s (lba + of_nat i)) [0..<unat count]))"
proof (cases "count = 0 \<or> \<not> buf \<or> ata_sectors s = 0 \<or> lba \<ge> ata_sectors s \<or> count > ata_sectors s - lba")
  case True
  then show ?thesis
    using assms(1) by (auto simp: ata_read28_def split: if_splits)
next
  case False
  then obtain r' where m: "mapE (\<lambda>i. read_sector (lba + of_nat i)) [0..<unat count] s = (r', t)" "r = (case r' of Inl e \<Rightarrow> Inl e | Inr xs \<Rightarrow> Inr (concat xs))"
    using assms(1) by (auto simp: ata_read28_def bindE_def split: prod.splits sum.splits if_splits)
  have "\<forall>i \<in> set [0..<unat count]. lba + of_nat i < ata_sectors s"
    using False range_no_wrap(2) [of lba "ata_sectors s" count] by (auto simp: not_le not_less)
  then show ?thesis
    using read_sectors [OF m(1) assms(2)] m(2) by (auto split: sum.splits)
qed

lemma write_sector_effect:
  assumes "write_sector lba bs s = (r, t)" "lba < ATA_LBA28_SECTOR_LIMIT" "length bs = ATA_SECTOR_SIZE"
  shows "ata_sectors t = ata_sectors s \<and> (medium t = medium s \<or> medium t = (medium s)(lba := bs)) \<and>
    (r = Inr () \<longrightarrow> medium t = (medium s)(lba := bs))"
proof (cases r)
  case (Inl e)
  then show ?thesis
    using assms by (auto simp: write_sector_def bindE_Inl addressed_id through_register_id same_disk_def dest!: wait_same)
next
  case (Inr x)
  then show ?thesis
    using assms by (auto simp: write_sector_def bindE_Inr addressed_id through_register_id same_disk_def dest!: wait_same)
qed

lemma write_sectors:
  assumes "eachE (\<lambda>i. write_sector (lba + of_nat i) (sector_of bytes i)) is s = (r, t)"
    "\<forall>i \<in> set is. lba + of_nat i < ATA_LBA28_SECTOR_LIMIT \<and> length (sector_of bytes i) = ATA_SECTOR_SIZE"
    "inj_on (\<lambda>i. lba + of_nat i) (set is)" "distinct is"
  shows "ata_sectors t = ata_sectors s \<and> (\<forall>k. k \<notin> (\<lambda>i. lba + of_nat i) ` set is \<longrightarrow> medium t k = medium s k) \<and>
    (\<forall>k. length (medium s k) = ATA_SECTOR_SIZE \<longrightarrow> length (medium t k) = ATA_SECTOR_SIZE) \<and>
    (r = Inr () \<longrightarrow> (\<forall>i \<in> set is. medium t (lba + of_nat i) = sector_of bytes i))"
  using assms
proof (induction "is" arbitrary: s)
  case (Cons i "is")
  obtain q u where w: "write_sector (lba + of_nat i) (sector_of bytes i) s = (q, u)"
    by (cases "write_sector (lba + of_nat i) (sector_of bytes i) s")
  note e = write_sector_effect [OF w]
  have eff: "ata_sectors u = ata_sectors s" "medium u = medium s \<or> medium u = (medium s)(lba + of_nat i := sector_of bytes i)"
      "q = Inr () \<longrightarrow> medium u = (medium s)(lba + of_nat i := sector_of bytes i)" "length (sector_of bytes i) = ATA_SECTOR_SIZE"
    using e Cons.prems(2) by simp_all
  show ?case
  proof (cases q)
    case (Inl e)
    then have "r = Inl e" "t = u"
      using Cons.prems(1) w by (simp_all add: bindE_def)
    then show ?thesis
      using eff by auto
  next
    case (Inr x)
    then have "eachE (\<lambda>i. write_sector (lba + of_nat i) (sector_of bytes i)) is u = (r, t)"
      using Cons.prems(1) w by (simp add: bindE_def)
    note ih = Cons.IH [OF this]
    have new: "lba + of_nat i \<notin> (\<lambda>i. lba + of_nat i) ` set is"
      using Cons.prems(3,4) by (auto simp: inj_on_def)
    have "medium u = (medium s)(lba + of_nat i := sector_of bytes i)"
      using eff(3) Inr by simp
    then show ?thesis
      using ih Cons.prems(2-4) eff(1,4) new by auto
  qed
qed simp

lemma range_image:
  fixes lba count total :: u32
  assumes "lba < total" "count \<le> total - lba"
  shows "(\<lambda>i. lba + of_nat i) ` {0..<unat count} = {k. in_range lba count k}" "inj_on (\<lambda>i. lba + of_nat i) {0..<unat count}"
proof -
  note w = range_no_wrap(1) [OF assms]
  show "inj_on (\<lambda>i. lba + of_nat i) {0..<unat count}"
    by (rule inj_onI) (metis add_left_cancel atLeastLessThan_iff w)
  show "(\<lambda>i. lba + of_nat i) ` {0..<unat count} = {k. in_range lba count k}"
  proof (intro set_eqI iffI)
    fix k
    assume "k \<in> {k. in_range lba count k}"
    then have k: "unat lba \<le> unat k" "unat k < unat lba + unat count"
      by (simp_all add: in_range_def)
    have "lba + of_nat (unat k - unat lba) = k"
      using w [of "unat k - unat lba"] k by (simp add: word_unat_eq_iff)
    then show "k \<in> (\<lambda>i. lba + of_nat i) ` {0..<unat count}"
      using k by (intro image_eqI [of _ _ "unat k - unat lba"]) auto
  qed (auto simp: in_range_def w)
qed

lemma ata_write28_spec:
  assumes "ata_write28 lba (Some bytes) count s = (r, t)" "ata_wf s" "length bytes = unat count * ATA_SECTOR_SIZE"
  shows "ata_wf t \<and> ata_sectors t = ata_sectors s \<and> (\<forall>k. \<not> in_range lba count k \<longrightarrow> medium t k = medium s k) \<and>
    (r = Inr () \<longrightarrow> (\<forall>i < unat count. medium t (lba + of_nat i) = sector_of bytes i))"
proof (cases "count = 0 \<or> ata_sectors s = 0 \<or> lba \<ge> ata_sectors s \<or> count > ata_sectors s - lba")
  case True
  then show ?thesis
    using assms(1,2) by (auto simp: ata_write28_def split: if_splits)
next
  case False
  then have rng: "lba < ata_sectors s" "count \<le> ata_sectors s - lba"
    by (simp_all add: not_le not_less)
  obtain r' u where w: "eachE (\<lambda>i. write_sector (lba + of_nat i) (sector_of bytes i)) [0..<unat count] s = (r', u)"
      "same_disk u t" "r = Inr () \<longrightarrow> r' = Inr ()"
    using assms(1) False
    by (auto simp: ata_write28_def bindE_def sector_of_def split: prod.splits sum.splits if_splits dest: wait_same(1))
  have "\<forall>i \<in> set [0..<unat count]. lba + of_nat i < ATA_LBA28_SECTOR_LIMIT \<and> length (sector_of bytes i) = ATA_SECTOR_SIZE"
    using less_le_trans [OF range_no_wrap(2) [OF rng]] assms(2) length_sector_of [OF assms(3)] by (auto simp: ata_wf_def)
  then show ?thesis
    using write_sectors [OF w(1)] range_image [OF rng] w(2,3) assms(2) by (auto simp: same_disk_def ata_wf_def)
qed

lemma ata_identify_wf:
  assumes "ata_identify s = (r, t)" "\<forall>k. length (medium s k) = ATA_SECTOR_SIZE"
  shows "ata_wf t \<and> medium t = medium s"
proof -
  have "medium t = medium s \<and> ata_sectors t \<le> ATA_LBA28_SECTOR_LIMIT"
    using assms(1)
    by (cases r)
      (auto simp: ata_identify_def Let_def in_status_def bindE_Inl bindE_Inr same_disk_def ATA_LBA28_SECTOR_LIMIT_def
        split: if_splits dest!: wait_same)
  then show ?thesis
    using assms(2) by (simp add: ata_wf_def)
qed

text \<open>
  C9: what the disk driver writes it reads back. On a drive with whole sectors that has been identified, a write that succeeds followed by a
  read of the same sectors that succeeds gives the bytes written, and a write, also one that fails half way, leaves all other
  sectors alone; the limit to 28-bit sector numbers keeps the addresses from wrapping.
\<close>

theorem ata_write_read:
  assumes "ata_identify s0 = (q, s)" "\<forall>k. length (medium s0 k) = ATA_SECTOR_SIZE"
    "ata_write28 lba (Some bytes) count s = (r, t)" "length bytes = unat count * ATA_SECTOR_SIZE"
  shows "(\<forall>k. \<not> in_range lba count k \<longrightarrow> medium t k = medium s0 k) \<and>
    (\<forall>bs u. r = Inr () \<and> ata_read28 lba True count t = (Inr bs, u) \<longrightarrow> bs = bytes)"
proof (intro conjI allI impI)
  have wf: "ata_wf s" "medium s = medium s0"
    using ata_identify_wf [OF assms(1,2)] by simp_all
  note w = ata_write28_spec [OF assms(3) wf(1) assms(4)]
  show "medium t k = medium s0 k" if "\<not> in_range lba count k" for k
    using w wf(2) that by simp
  fix bs u
  assume a: "r = Inr () \<and> ata_read28 lba True count t = (Inr bs, u)"
  then have "bs = concat (map (\<lambda>i. medium t (lba + of_nat i)) [0..<unat count])"
    using ata_read28_spec w by blast
  also have "\<dots> = concat (map (sector_of bytes) [0..<unat count])"
    using w a by (intro arg_cong [of _ _ concat] map_cong) auto
  also have "\<dots> = bytes"
    using assms(4) by (rule concat_sectors)
  finally show "bs = bytes" .
qed

text \<open>A drive of 16 sectors that is always ready.\<close>

definition ready_drive :: ata where
  "ready_drive = \<lparr>medium = (\<lambda>_. replicate 512 0), status = (\<lambda>_. 0x48), status_no = 0,
     identity = (\<lambda>w. if w = 49 then 0x200 else if w = 60 then 16 else 0), ident_lba1 = 0, ident_lba2 = 0, ata_sectors = 0\<rparr>"

lemma ready_waits:
  assumes "status s = (\<lambda>_. 0x48)"
  shows "ata_wait_not_busy s = (Inr (), s\<lparr>status_no := status_no s + 1\<rparr>)" "ata_wait_drq s = (Inr (), s\<lparr>status_no := status_no s + 1\<rparr>)"
  unfolding ata_wait_not_busy_def ata_wait_drq_def not_busy_loop.simps [of ATA_POLL_LIMIT] drq_loop.simps [of ATA_POLL_LIMIT]
  by (simp_all add: in_status_def assms ATA_POLL_LIMIT_def ATA_SR_BSY_def ATA_SR_DRQ_def ATA_SR_ERR_def)

definition identified_drive :: ata where
  "identified_drive = ready_drive\<lparr>ata_sectors := 16, status_no := 3\<rparr>"

lemma ready_drive_identify: "ata_identify ready_drive = (Inr (), identified_drive)"
  by (simp add: ata_identify_def ready_drive_def identified_drive_def in_status_def bindE_def ready_waits ATA_LBA28_SECTOR_LIMIT_def)

lemma identified_write:
  "ata_write28 3 (Some (replicate 512 7)) 1 identified_drive =
     (Inr (), identified_drive\<lparr>medium := (medium identified_drive)(3 := replicate 512 7), status_no := 7\<rparr>)"
  by (simp add: ata_write28_def identified_drive_def ready_drive_def write_sector_def bindE_def ready_waits ATA_SECTOR_SIZE_def addressed_id
      ATA_LBA28_SECTOR_LIMIT_def through_register_id)

theorem ata_write_read_witness:
  "\<exists>u. ata_read28 3 True 1 (snd (ata_write28 3 (Some (replicate 512 7)) 1 identified_drive)) = (Inr (replicate 512 7), u)"
proof -
  obtain bs u where "ata_read28 3 True 1 (snd (ata_write28 3 (Some (replicate 512 7)) 1 identified_drive)) = (Inr bs, u)"
    unfolding identified_write snd_conv by (simp add: ata_read28_def identified_drive_def ready_drive_def read_sector_def bindE_def ready_waits)
  moreover from this have "bs = replicate 512 7"
    using ata_write_read [OF ready_drive_identify _ identified_write] by (simp add: identified_write ready_drive_def ATA_SECTOR_SIZE_def)
  ultimately show ?thesis
    by simp
qed

end
