(* ===== verification/Blockdev.thy ===== *)
theory Blockdev
  imports Ata
begin

text \<open>
  The block device layer and the partition table: \<^verbatim>\<open>src/kernel/fs/block/blockdev.c\<close>, \<^verbatim>\<open>partition.c\<close> and \<open>ata_init\<close> of \<^verbatim>\<open>ata.c\<close>. The
  device structures are the static ones of the sources, \<open>g_ata_blockdev\<close> under number 0 and those in \<open>g_partitions\<close> under 1 to 4;
  \<open>bops\<close> names a table of operations and \<open>bprivate\<close> the entry of \<open>g_partitions\<close> behind \<open>private_data\<close>. The
  chain of registered devices is a list, newest first. A buffer to read into is given by whether it is not \<open>NULL\<close>, a buffer to write
  by its bytes.
\<close>

section \<open>Model\<close>

type_synonym bid = nat

record blockdev =
  bname :: "string option"
  bops :: "nat option"
  bsector_size :: u32
  bsector_count :: u32
  bprivate :: "nat option"

record mbr_partition =
  part_disk :: "bid option"
  part_start :: u32

record blk =
  ata :: ata
  bdevs :: "bid \<Rightarrow> blockdev"
  blist :: "bid list"
  partitions :: "nat \<Rightarrow> mbr_partition"
  partition_disk :: "bid option"

record 's blockdev_ops =
  op_bread :: "(bid \<Rightarrow> u32 \<Rightarrow> u32 \<Rightarrow> bool \<Rightarrow> ('s, u8 list) io) option"
  op_bwrite :: "(bid \<Rightarrow> u32 \<Rightarrow> u32 \<Rightarrow> u8 list option \<Rightarrow> ('s, unit) io) option"

definition bop :: "(nat \<Rightarrow> 's blockdev_ops) \<Rightarrow> ('s blockdev_ops \<Rightarrow> 'f option) \<Rightarrow> blockdev \<Rightarrow> 'f option" where
  "bop tbl sel bd = Option.bind (bops bd) (\<lambda>t. sel (tbl t))"

subsection \<open>blockdev.c\<close>

definition blockdev_register :: "(nat \<Rightarrow> blk blockdev_ops) \<Rightarrow> bid option \<Rightarrow> (blk, unit) io" where
  "blockdev_register tbl bd s =
     (case bd of
        None \<Rightarrow> (Inl ERR_INVALID_ARGUMENT, s)
      | Some b \<Rightarrow>
          let d = bdevs s b
          in if bname d = None \<or> bname d = Some [] \<or> bop tbl op_bread d = None \<or> bop tbl op_bwrite d = None \<or>
                bsector_size d = 0 \<or> bsector_count d = 0
             then (Inl ERR_INVALID_ARGUMENT, s)
             else if \<exists>i \<in> set (blist s). bname (bdevs s i) = bname d then (Inl ERR_ALREADY_EXISTS, s)
             else (Inr (), s\<lparr>blist := b # blist s\<rparr>))"

definition blockdev_unregister :: "bid option \<Rightarrow> (blk, unit) io" where
  "blockdev_unregister bd s =
     (case bd of
        None \<Rightarrow> (Inl ERR_INVALID_ARGUMENT, s)
      | Some b \<Rightarrow>
          if b \<in> set (blist s) then (Inr (), s\<lparr>blist := remove1 b (blist s)\<rparr>) else (Inl ERR_NOT_FOUND, s))"

definition blockdev_lookup :: "string option \<Rightarrow> blk \<Rightarrow> bid option" where
  "blockdev_lookup name s = (case name of None \<Rightarrow> None | Some n \<Rightarrow> find (\<lambda>b. bname (bdevs s b) = Some n) (blist s))"

definition blockdev_read :: "(nat \<Rightarrow> blk blockdev_ops) \<Rightarrow> bid option \<Rightarrow> u32 \<Rightarrow> u32 \<Rightarrow> bool \<Rightarrow> (blk, u8 list) io" where
  "blockdev_read tbl bd lba count buf s =
     (case bd of
        None \<Rightarrow> (Inl ERR_INVALID_ARGUMENT, s)
      | Some b \<Rightarrow>
          let d = bdevs s b
          in (case bop tbl op_bread d of
                None \<Rightarrow> (Inl ERR_INVALID_ARGUMENT, s)
              | Some rd \<Rightarrow>
                  if count = 0 then (Inr [], s)
                  else if \<not> buf \<or> lba \<ge> bsector_count d \<or> count > bsector_count d - lba then (Inl ERR_INVALID_ARGUMENT, s)
                  else rd b lba count buf s))"

definition blockdev_write :: "(nat \<Rightarrow> blk blockdev_ops) \<Rightarrow> bid option \<Rightarrow> u32 \<Rightarrow> u32 \<Rightarrow> u8 list option \<Rightarrow> (blk, unit) io" where
  "blockdev_write tbl bd lba count buf s =
     (case bd of
        None \<Rightarrow> (Inl ERR_INVALID_ARGUMENT, s)
      | Some b \<Rightarrow>
          let d = bdevs s b
          in (case bop tbl op_bwrite d of
                None \<Rightarrow> (Inl ERR_INVALID_ARGUMENT, s)
              | Some wr \<Rightarrow>
                  if count = 0 then (Inr (), s)
                  else if buf = None \<or> lba \<ge> bsector_count d \<or> count > bsector_count d - lba then (Inl ERR_INVALID_ARGUMENT, s)
                  else wr b lba count buf s))"

subsection \<open>The driver's device\<close>

definition ATA_OPS :: nat where "ATA_OPS = 0"
definition PARTITION_OPS :: nat where "PARTITION_OPS = 1"
definition HD0 :: bid where "HD0 = 0"

definition on_ata :: "(ata, 'a) io \<Rightarrow> (blk, 'a) io" where
  "on_ata = partE ata (\<lambda>a s. s\<lparr>ata := a\<rparr>)"

definition ata_blockdev_read :: "bid \<Rightarrow> u32 \<Rightarrow> u32 \<Rightarrow> bool \<Rightarrow> (blk, u8 list) io" where
  "ata_blockdev_read b lba count buf = on_ata (ata_read28 lba buf count)"

definition ata_blockdev_write :: "bid \<Rightarrow> u32 \<Rightarrow> u32 \<Rightarrow> u8 list option \<Rightarrow> (blk, unit) io" where
  "ata_blockdev_write b lba count buf = on_ata (ata_write28 lba buf count)"

definition no_blockdev_ops :: "'s blockdev_ops" where
  "no_blockdev_ops = \<lparr>op_bread = None, op_bwrite = None\<rparr>"

text \<open>The table without the partitions, which the partitions' own operations use for the disk.\<close>

definition disk_tbl :: "nat \<Rightarrow> blk blockdev_ops" where
  "disk_tbl t = (if t = ATA_OPS then \<lparr>op_bread = Some ata_blockdev_read, op_bwrite = Some ata_blockdev_write\<rparr> else no_blockdev_ops)"

subsection \<open>partition.c\<close>

definition MBR_PARTITION_COUNT :: nat where "MBR_PARTITION_COUNT = 4"

definition part_bid :: "nat \<Rightarrow> bid" where
  "part_bid i = Suc i"

definition partition_names :: "nat \<Rightarrow> string" where
  "partition_names i = [''hd0p1'', ''hd0p2'', ''hd0p3'', ''hd0p4''] ! i"

definition partition_read_u32 :: "u8 list \<Rightarrow> nat \<Rightarrow> u32" where
  "partition_read_u32 bs off =
     ucast (bs ! off) OR push_bit 8 (ucast (bs ! (off + 1))) OR push_bit 16 (ucast (bs ! (off + 2))) OR push_bit 24 (ucast (bs ! (off + 3)))"

definition partition_read :: "bid \<Rightarrow> u32 \<Rightarrow> u32 \<Rightarrow> bool \<Rightarrow> (blk, u8 list) io" where
  "partition_read b lba count buf s =
     (let d = bdevs s b
      in (case bprivate d of
            None \<Rightarrow> (Inl ERR_INVALID_ARGUMENT, s)
          | Some i \<Rightarrow>
              let p = partitions s i
              in if part_disk p = None \<or> lba \<ge> bsector_count d \<or> count > bsector_count d - lba then (Inl ERR_INVALID_ARGUMENT, s)
                 else blockdev_read disk_tbl (part_disk p) (part_start p + lba) count buf s))"

definition partition_write :: "bid \<Rightarrow> u32 \<Rightarrow> u32 \<Rightarrow> u8 list option \<Rightarrow> (blk, unit) io" where
  "partition_write b lba count buf s =
     (let d = bdevs s b
      in (case bprivate d of
            None \<Rightarrow> (Inl ERR_INVALID_ARGUMENT, s)
          | Some i \<Rightarrow>
              let p = partitions s i
              in if part_disk p = None \<or> lba \<ge> bsector_count d \<or> count > bsector_count d - lba then (Inl ERR_INVALID_ARGUMENT, s)
                 else blockdev_write disk_tbl (part_disk p) (part_start p + lba) count buf s))"

definition blk_tbl :: "nat \<Rightarrow> blk blockdev_ops" where
  "blk_tbl t =
     (if t = PARTITION_OPS then \<lparr>op_bread = Some partition_read, op_bwrite = Some partition_write\<rparr> else disk_tbl t)"

definition ata_init :: "(blk, unit) io" where
  "ata_init =
     bindE (on_ata ata_identify) (\<lambda>_ s.
       blockdev_register blk_tbl (Some HD0)
         (s\<lparr>bdevs := (bdevs s)(HD0 := \<lparr>bname = Some ''hd0'', bops = Some ATA_OPS, bsector_size = of_nat ATA_SECTOR_SIZE,
              bsector_count = ata_sectors (ata s), bprivate = None\<rparr>)\<rparr>))"

definition no_blockdev :: blockdev where
  "no_blockdev = \<lparr>bname = None, bops = None, bsector_size = 0, bsector_count = 0, bprivate = None\<rparr>"

definition no_partition :: mbr_partition where
  "no_partition = \<lparr>part_disk = None, part_start = 0\<rparr>"

text \<open>Undoing a scan that could not register a partition: every entry with a name is unregistered and cleared.\<close>

fun scan_rollback :: "nat list \<Rightarrow> blk \<Rightarrow> blk" where
  "scan_rollback [] s = s"
| "scan_rollback (i # is) s =
     scan_rollback is
       (if bname (bdevs s (part_bid i)) \<noteq> None then
          (snd (blockdev_unregister (Some (part_bid i)) s))
            \<lparr>bdevs := (bdevs s)(part_bid i := no_blockdev), partitions := (partitions s)(i := no_partition)\<rparr>
        else s)"

text \<open>
  The loop over the four entries of the table, with the start and size of the partitions taken so far and
  their number. An entry has its status in byte 0, its type in byte 4 and its range in the last eight bytes.
\<close>

fun scan_loop :: "bid \<Rightarrow> u8 list \<Rightarrow> nat list \<Rightarrow> (nat \<times> u32 \<times> u32) list \<Rightarrow> (blk, nat) io" where
  "scan_loop disk sector [] used s = (Inr (length used), s)"
| "scan_loop disk sector (i # is) used s =
     (let entry = 446 + i * 16; status = sector ! entry; type = sector ! (entry + 4);
          start_lba = partition_read_u32 sector (entry + 8); sector_count = partition_read_u32 sector (entry + 12);
          total = bsector_count (bdevs s disk)
      in if type = 0 \<or> sector_count = 0 then scan_loop disk sector is used s
         else if status \<noteq> 0 \<and> status \<noteq> 0x80 \<or> type = 0x05 \<or> type = 0x0F \<or> type = 0x85 then scan_loop disk sector is used s
         else if start_lba = 0 \<or> start_lba \<ge> total \<or> sector_count > total - start_lba then scan_loop disk sector is used s
         else if \<exists>(j, st, cnt) \<in> set used. cnt \<noteq> 0 \<and> start_lba < st + cnt \<and> st < start_lba + sector_count
         then scan_loop disk sector is used s
         else
           let s = s\<lparr>partitions := (partitions s)(i := \<lparr>part_disk = Some disk, part_start = start_lba\<rparr>),
                     bdevs := (bdevs s)(part_bid i := \<lparr>bname = Some (partition_names i), bops = Some PARTITION_OPS,
                       bsector_size = bsector_size (bdevs s disk), bsector_count = sector_count, bprivate = Some i\<rparr>)\<rparr>
           in (case blockdev_register blk_tbl (Some (part_bid i)) s of
                 (Inl e, s) \<Rightarrow> (Inl e, (scan_rollback [0..<MBR_PARTITION_COUNT] s)\<lparr>partition_disk := None\<rparr>)
               | (Inr _, s) \<Rightarrow> scan_loop disk sector is (used @ [(i, start_lba, sector_count)]) s))"

definition partition_scan :: "bid option \<Rightarrow> (blk, nat) io" where
  "partition_scan disk s =
     (case disk of
        None \<Rightarrow> (Inl ERR_INVALID_ARGUMENT, s)
      | Some b \<Rightarrow>
          let d = bdevs s b
          in if bsector_size d \<noteq> 512 \<or> bsector_count d = 0 \<or> bname d \<noteq> Some ''hd0'' then (Inl ERR_INVALID_ARGUMENT, s)
             else (case partition_disk s of
                 Some g \<Rightarrow>
                   if g \<noteq> b then (Inl ERR_BUSY, s)
                   else (Inr (length (filter (\<lambda>i. bname (bdevs s (part_bid i)) \<noteq> None) [0..<MBR_PARTITION_COUNT])), s)
               | None \<Rightarrow>
                   bindE (blockdev_read blk_tbl disk 0 1 True) (\<lambda>sector s.
                     if sector ! 510 \<noteq> 0x55 \<or> sector ! 511 \<noteq> 0xAA then (Inl ERR_NOT_FOUND, s)
                     else scan_loop b sector [0..<MBR_PARTITION_COUNT] [] (s\<lparr>partition_disk := Some b\<rparr>)) s))"

section \<open>Devices as arrays of sectors\<close>

text \<open>Where a device begins on the disk, and its sectors.\<close>

definition dev_base :: "blk \<Rightarrow> bid \<Rightarrow> u32" where
  "dev_base s b = (case bprivate (bdevs s b) of None \<Rightarrow> 0 | Some i \<Rightarrow> part_start (partitions s i))"

definition dev_sector :: "blk \<Rightarrow> bid \<Rightarrow> u32 \<Rightarrow> u8 list" where
  "dev_sector s b lba = medium (ata s) (dev_base s b + lba)"

definition disk_ok :: "blk \<Rightarrow> bid \<Rightarrow> bool" where
  "disk_ok s b \<longleftrightarrow> bops (bdevs s b) = Some ATA_OPS \<and> bprivate (bdevs s b) = None \<and> bsector_count (bdevs s b) \<le> ata_sectors (ata s)"

definition part_ok :: "blk \<Rightarrow> bid \<Rightarrow> bool" where
  "part_ok s b \<longleftrightarrow> (\<exists>i disk. bops (bdevs s b) = Some PARTITION_OPS \<and> bprivate (bdevs s b) = Some i \<and> part_disk (partitions s i) = Some disk \<and>
     disk_ok s disk \<and> unat (part_start (partitions s i)) + unat (bsector_count (bdevs s b)) \<le> unat (bsector_count (bdevs s disk)))"

definition dev_ok :: "blk \<Rightarrow> bid \<Rightarrow> bool" where
  "dev_ok s b \<longleftrightarrow> ata_wf (ata s) \<and> (disk_ok s b \<or> part_ok s b)"

text \<open>Transfers change the drive only.\<close>

definition same_devs :: "blk \<Rightarrow> blk \<Rightarrow> bool" where
  "same_devs s t \<longleftrightarrow> bdevs t = bdevs s \<and> blist t = blist s \<and> partitions t = partitions s \<and> partition_disk t = partition_disk s \<and>
     ata_sectors (ata t) = ata_sectors (ata s)"

lemma same_devs_refl [simp]: "same_devs s s"
  by (simp add: same_devs_def)

lemma same_devs_trans: "same_devs s t \<Longrightarrow> same_devs t u \<Longrightarrow> same_devs s u"
  by (simp add: same_devs_def)

lemma same_devs_dev: "same_devs s t \<Longrightarrow> ata_wf (ata t) \<Longrightarrow> dev_ok s b \<Longrightarrow> dev_ok t b"
  by (auto simp: same_devs_def dev_ok_def disk_ok_def part_ok_def)

lemma same_devs_base: "same_devs s t \<Longrightarrow> dev_base t b = dev_base s b"
  by (simp add: same_devs_def dev_base_def split: option.split)

lemma on_ata_eq: "on_ata m s = (r, t) \<longleftrightarrow> (\<exists>a. m (ata s) = (r, a) \<and> t = s\<lparr>ata := a\<rparr>)"
  by (auto simp: on_ata_def partE_def split: prod.split)

lemma bop_ata [simp]:
  "bops d = Some ATA_OPS \<Longrightarrow> bop disk_tbl op_bread d = Some ata_blockdev_read"
  "bops d = Some ATA_OPS \<Longrightarrow> bop disk_tbl op_bwrite d = Some ata_blockdev_write"
  "bops d = Some ATA_OPS \<Longrightarrow> bop blk_tbl op_bread d = Some ata_blockdev_read"
  "bops d = Some ATA_OPS \<Longrightarrow> bop blk_tbl op_bwrite d = Some ata_blockdev_write"
  by (simp_all add: bop_def disk_tbl_def blk_tbl_def ATA_OPS_def PARTITION_OPS_def)

lemma bop_partition [simp]:
  "bops d = Some PARTITION_OPS \<Longrightarrow> bop blk_tbl op_bread d = Some partition_read"
  "bops d = Some PARTITION_OPS \<Longrightarrow> bop blk_tbl op_bwrite d = Some partition_write"
  by (simp_all add: bop_def blk_tbl_def)

text \<open>A valid range of a device, and where the driver finds it.\<close>

definition valid_range :: "blk \<Rightarrow> bid \<Rightarrow> u32 \<Rightarrow> u32 \<Rightarrow> bool" where
  "valid_range s b lba count \<longleftrightarrow> lba < bsector_count (bdevs s b) \<and> count \<le> bsector_count (bdevs s b) - lba"

lemma invalid_range [simp]:
  "bsector_count (bdevs s b) \<le> lba \<or> bsector_count (bdevs s b) - lba < count \<longleftrightarrow> \<not> valid_range s b lba count"
  by (auto simp: valid_range_def)

lemma part_range:
  fixes start cnt total lba count :: u32
  assumes "unat start + unat cnt \<le> unat total" "lba < cnt" "count \<le> cnt - lba"
  shows "start + lba < total" "count \<le> total - (start + lba)" "unat (start + lba) = unat start + unat lba"
proof -
  have "unat (cnt - lba) = unat cnt - unat lba"
    using assms(2) by (simp add: unat_sub)
  then have c: "unat lba < unat cnt" "unat count + unat lba \<le> unat cnt"
    using assms(2,3) by (auto simp: word_le_nat_alt word_less_nat_alt)
  show a: "unat (start + lba) = unat start + unat lba"
    using c assms(1) unat_less_32 [of total] by (simp add: unat_word_ariths)
  show l: "start + lba < total"
    using a c assms(1) by (simp add: word_less_nat_alt)
  have "unat (total - (start + lba)) = unat total - unat (start + lba)"
    using l by (simp add: unat_sub)
  then show "count \<le> total - (start + lba)"
    using a c assms(1) by (simp add: word_le_nat_alt)
qed

text \<open>A read or write through the layer is one of the driver at the device's place, or an error.\<close>

lemma disk_read:
  assumes "disk_ok s b" "tbl = disk_tbl \<or> tbl = blk_tbl"
  shows "blockdev_read tbl (Some b) lba count buf s =
    (if count = 0 then (Inr [], s) else if \<not> buf \<or> \<not> valid_range s b lba count then (Inl ERR_INVALID_ARGUMENT, s)
     else on_ata (ata_read28 lba buf count) s)"
  using assms by (auto simp: blockdev_read_def disk_ok_def ata_blockdev_read_def)

lemma disk_write:
  assumes "disk_ok s b" "tbl = disk_tbl \<or> tbl = blk_tbl"
  shows "blockdev_write tbl (Some b) lba count buf s =
    (if count = 0 then (Inr (), s) else if buf = None \<or> \<not> valid_range s b lba count then (Inl ERR_INVALID_ARGUMENT, s)
     else on_ata (ata_write28 lba buf count) s)"
  using assms by (auto simp: blockdev_write_def disk_ok_def ata_blockdev_write_def)

lemma part_disk_range:
  assumes "part_ok s b" "valid_range s b lba count"
  obtains i disk where "bprivate (bdevs s b) = Some i" "part_disk (partitions s i) = Some disk" "disk_ok s disk"
    "valid_range s disk (dev_base s b + lba) count" "part_start (partitions s i) = dev_base s b"
    "unat (dev_base s b + lba) = unat (dev_base s b) + unat lba"
proof -
  obtain i disk where i: "bops (bdevs s b) = Some PARTITION_OPS" "bprivate (bdevs s b) = Some i" "part_disk (partitions s i) = Some disk"
      "disk_ok s disk" "unat (part_start (partitions s i)) + unat (bsector_count (bdevs s b)) \<le> unat (bsector_count (bdevs s disk))"
    using assms(1) by (auto simp: part_ok_def)
  then have b: "part_start (partitions s i) = dev_base s b"
    by (simp add: dev_base_def)
  have v: "lba < bsector_count (bdevs s b)" "count \<le> bsector_count (bdevs s b) - lba"
    using assms(2) unfolding valid_range_def by blast+
  note r = part_range [OF i(5) v, unfolded b]
  show ?thesis
    by (rule that [OF i(2,3,4) _ b r(3)]) (unfold valid_range_def, intro conjI r)
qed

lemma dev_read:
  assumes "dev_ok s b"
  shows "blockdev_read blk_tbl (Some b) lba count buf s =
    (if count = 0 then (Inr [], s) else if \<not> buf \<or> \<not> valid_range s b lba count then (Inl ERR_INVALID_ARGUMENT, s)
     else on_ata (ata_read28 (dev_base s b + lba) buf count) s)"
proof (cases "disk_ok s b")
  case True
  then show ?thesis
    using disk_read [OF True] by (simp add: disk_ok_def dev_base_def)
next
  case False
  then have p: "part_ok s b" "bops (bdevs s b) = Some PARTITION_OPS"
    using assms by (auto simp: dev_ok_def part_ok_def)
  show ?thesis
  proof (cases "valid_range s b lba count \<and> count \<noteq> 0 \<and> buf")
    case True
    obtain i disk where "bprivate (bdevs s b) = Some i" "part_disk (partitions s i) = Some disk" "disk_ok s disk"
        "valid_range s disk (dev_base s b + lba) count" "part_start (partitions s i) = dev_base s b"
      by (rule part_disk_range [OF p(1)]) (use True in auto)
    then show ?thesis
      using True p(2) by (simp add: blockdev_read_def [of blk_tbl] partition_read_def disk_read)
  next
    case False
    then show ?thesis
      using p(2) by (auto simp: blockdev_read_def)
  qed
qed

lemma dev_write:
  assumes "dev_ok s b"
  shows "blockdev_write blk_tbl (Some b) lba count buf s =
    (if count = 0 then (Inr (), s) else if buf = None \<or> \<not> valid_range s b lba count then (Inl ERR_INVALID_ARGUMENT, s)
     else on_ata (ata_write28 (dev_base s b + lba) buf count) s)"
proof (cases "disk_ok s b")
  case True
  then show ?thesis
    using disk_write [OF True] by (simp add: disk_ok_def dev_base_def)
next
  case False
  then have p: "part_ok s b" "bops (bdevs s b) = Some PARTITION_OPS"
    using assms by (auto simp: dev_ok_def part_ok_def)
  show ?thesis
  proof (cases "valid_range s b lba count \<and> count \<noteq> 0 \<and> buf \<noteq> None")
    case True
    obtain i disk where "bprivate (bdevs s b) = Some i" "part_disk (partitions s i) = Some disk" "disk_ok s disk"
        "valid_range s disk (dev_base s b + lba) count" "part_start (partitions s i) = dev_base s b"
      by (rule part_disk_range [OF p(1)]) (use True in auto)
    then show ?thesis
      using True p(2) by (auto simp add: blockdev_write_def [of blk_tbl] partition_write_def disk_write)
  next
    case False
    then show ?thesis
      using p(2) by (auto simp: blockdev_write_def)
  qed
qed

lemma dev_no_wrap:
  assumes "dev_ok s b" "k < bsector_count (bdevs s b)"
  shows "unat (dev_base s b + k) = unat (dev_base s b) + unat k"
proof (cases "disk_ok s b")
  case True
  then show ?thesis
    by (simp add: disk_ok_def dev_base_def)
next
  case False
  then have p: "part_ok s b"
    using assms(1) by (simp add: dev_ok_def)
  have "valid_range s b k 0"
    using assms(2) by (simp add: valid_range_def del: invalid_range)
  then show ?thesis
    by (rule part_disk_range [OF p]) simp
qed

lemma dev_in_range:
  assumes "dev_ok s b" "valid_range s b lba count" "k < bsector_count (bdevs s b)"
  shows "in_range (dev_base s b + lba) count (dev_base s b + k) \<longleftrightarrow> in_range lba count k"
proof -
  have "lba < bsector_count (bdevs s b)"
    using assms(2) unfolding valid_range_def by blast
  then show ?thesis
    using dev_no_wrap [OF assms(1)] assms(3) by (simp add: in_range_def)
qed

lemma valid_range_0 [simp]: "valid_range s b lba 1 \<longleftrightarrow> lba < bsector_count (bdevs s b)"
proof -
  have "lba < c \<Longrightarrow> 1 \<le> c - lba" for c :: u32
    by (simp add: word_le_nat_alt word_less_nat_alt unat_sub)
  then show ?thesis
    unfolding valid_range_def by blast
qed

lemma dev_read_spec:
  assumes "dev_ok s b" "blockdev_read blk_tbl (Some b) lba count buf s = (r, t)"
  shows "same_devs s t \<and> medium (ata t) = medium (ata s) \<and> dev_ok t b \<and>
    (\<forall>bs. r = Inr bs \<longrightarrow> (count = 0 \<or> valid_range s b lba count) \<and> bs = concat (map (\<lambda>i. dev_sector s b (lba + of_nat i)) [0..<unat count]))"
proof (cases "count \<noteq> 0 \<and> buf \<and> valid_range s b lba count")
  case True
  then obtain a where a: "ata_read28 (dev_base s b + lba) buf count (ata s) = (r, a)" "t = s\<lparr>ata := a\<rparr>"
    using assms(2) dev_read [OF assms(1)] by (auto simp: on_ata_eq)
  have wf: "ata_wf (ata s)"
    using assms(1) by (simp add: dev_ok_def)
  have sp: "same_disk (ata s) a"
      "\<forall>bs. r = Inr bs \<longrightarrow> bs = concat (map (\<lambda>i. medium (ata s) (dev_base s b + lba + of_nat i)) [0..<unat count])"
    using ata_read28_spec [OF a(1) wf] by blast+
  have sd: "same_devs s t" "ata_wf (ata t)"
    using sp(1) a(2) wf by (simp_all add: same_devs_def same_disk_def ata_wf_def)
  then show ?thesis
    using sp a(2) True same_devs_dev [OF sd assms(1)] by (simp add: same_disk_def dev_sector_def add.assoc)
next
  case False
  then show ?thesis
    using assms dev_read [OF assms(1)] by (auto split: if_splits)
qed

lemma dev_write_spec:
  assumes "dev_ok s b" "blockdev_write blk_tbl (Some b) lba count (Some bytes) s = (r, t)" "length bytes = unat count * ATA_SECTOR_SIZE"
  shows "same_devs s t \<and> dev_ok t b \<and>
    (\<forall>k. \<not> (valid_range s b lba count \<and> in_range (dev_base s b + lba) count k) \<longrightarrow> medium (ata t) k = medium (ata s) k) \<and>
    (r = Inr () \<longrightarrow> (count = 0 \<or> valid_range s b lba count) \<and> (\<forall>i < unat count. dev_sector t b (lba + of_nat i) = sector_of bytes i))"
proof (cases "count \<noteq> 0 \<and> valid_range s b lba count")
  case True
  then obtain a where a: "ata_write28 (dev_base s b + lba) (Some bytes) count (ata s) = (r, a)" "t = s\<lparr>ata := a\<rparr>"
    using assms(2) dev_write [OF assms(1)] by (auto simp: on_ata_eq)
  have wf: "ata_wf (ata s)"
    using assms(1) by (simp add: dev_ok_def)
  have sp: "ata_wf a" "ata_sectors a = ata_sectors (ata s)" "\<forall>k. \<not> in_range (dev_base s b + lba) count k \<longrightarrow> medium a k = medium (ata s) k"
      "r = Inr () \<longrightarrow> (\<forall>i < unat count. medium a (dev_base s b + lba + of_nat i) = sector_of bytes i)"
    using ata_write28_spec [OF a(1) wf assms(3)] by blast+
  have sd: "same_devs s t" "ata_wf (ata t)"
    using sp a(2) by (simp_all add: same_devs_def)
  have base: "dev_base t b = dev_base s b"
    using same_devs_base [OF sd(1)] .
  show ?thesis
    using sp a(2) True sd(1) same_devs_dev [OF sd assms(1)] base [unfolded a(2)] by (simp add: dev_sector_def add.assoc)
next
  case False
  then show ?thesis
    using assms dev_write [OF assms(1)] by (auto split: if_splits)
qed

text \<open>The same in terms of the device's own sectors.\<close>

lemma dev_write_frame:
  assumes "dev_ok s b" "blockdev_write blk_tbl (Some b) lba count (Some bytes) s = (r, t)" "length bytes = unat count * ATA_SECTOR_SIZE"
    "k < bsector_count (bdevs s b)" "\<not> in_range lba count k"
  shows "dev_sector t b k = dev_sector s b k"
proof -
  note w = dev_write_spec [OF assms(1,2,3)]
  have base: "dev_base t b = dev_base s b"
    using w same_devs_base by blast
  have "\<not> (valid_range s b lba count \<and> in_range (dev_base s b + lba) count (dev_base s b + k))"
    using dev_in_range [OF assms(1) _ assms(4)] assms(5) by blast
  then show ?thesis
    using w base by (simp add: dev_sector_def)
qed

section \<open>Scanning the partition table\<close>

text \<open>What holds of the partitions taken so far: they lie on the disk behind its first sector and do not overlap.\<close>

definition apart :: "u32 \<Rightarrow> u32 \<Rightarrow> u32 \<Rightarrow> u32 \<Rightarrow> bool" where
  "apart st cnt st' cnt' \<longleftrightarrow> unat st + unat cnt \<le> unat st' \<or> unat st' + unat cnt' \<le> unat st"

definition taken :: "blk \<Rightarrow> bid \<Rightarrow> nat \<times> u32 \<times> u32 \<Rightarrow> bool" where
  "taken s disk = (\<lambda>(i, st, cnt). i < MBR_PARTITION_COUNT \<and> partitions s i = \<lparr>part_disk = Some disk, part_start = st\<rparr> \<and>
     bops (bdevs s (part_bid i)) = Some PARTITION_OPS \<and> bprivate (bdevs s (part_bid i)) = Some i \<and>
     bsector_count (bdevs s (part_bid i)) = cnt \<and> st \<noteq> 0 \<and> cnt \<noteq> 0 \<and> unat st + unat cnt \<le> unat (bsector_count (bdevs s disk)))"

definition scan_inv :: "blk \<Rightarrow> bid \<Rightarrow> (nat \<times> u32 \<times> u32) list \<Rightarrow> bool" where
  "scan_inv s disk used \<longleftrightarrow> disk_ok s disk \<and> disk \<notin> range part_bid \<and> ata_wf (ata s) \<and>
     (\<forall>i < MBR_PARTITION_COUNT. bname (bdevs s (part_bid i)) \<noteq> None \<longleftrightarrow> i \<in> fst ` set used) \<and>
     (\<forall>u \<in> set used. taken s disk u) \<and>
     (\<forall>(i, st, cnt) \<in> set used. \<forall>(j, st', cnt') \<in> set used. i \<noteq> j \<longrightarrow> apart st cnt st' cnt')"

lemma part_bid_eq [simp]: "part_bid i = part_bid j \<longleftrightarrow> i = j"
  by (simp add: part_bid_def)

lemma range_end:
  fixes st cnt total :: u32
  assumes "st < total" "cnt \<le> total - st"
  shows "unat st + unat cnt \<le> unat total" "unat (st + cnt) = unat st + unat cnt"
proof -
  have "unat (total - st) = unat total - unat st"
    using assms(1) by (simp add: unat_sub)
  then show a: "unat st + unat cnt \<le> unat total"
    using assms by (simp add: word_le_nat_alt word_less_nat_alt)
  show "unat (st + cnt) = unat st + unat cnt"
    using a unat_less_32 [of total] by (simp add: unat_word_ariths)
qed

lemma not_overlapping:
  fixes st cnt st' cnt' :: u32
  assumes "\<not> (cnt' \<noteq> 0 \<and> st < st' + cnt' \<and> st' < st + cnt)" "cnt' \<noteq> 0" "unat (st + cnt) = unat st + unat cnt"
    "unat (st' + cnt') = unat st' + unat cnt'"
  shows "apart st cnt st' cnt'"
  using assms by (auto simp: apart_def word_less_nat_alt)

definition take_entry :: "bid \<Rightarrow> nat \<Rightarrow> u32 \<Rightarrow> u32 \<Rightarrow> blk \<Rightarrow> blk" where
  "take_entry disk i st cnt s =
     s\<lparr>partitions := (partitions s)(i := \<lparr>part_disk = Some disk, part_start = st\<rparr>),
       bdevs := (bdevs s)(part_bid i := \<lparr>bname = Some (partition_names i), bops = Some PARTITION_OPS,
         bsector_size = bsector_size (bdevs s disk), bsector_count = cnt, bprivate = Some i\<rparr>)\<rparr>"

lemma take_entry_inv:
  assumes inv: "scan_inv s disk used" and i: "i < MBR_PARTITION_COUNT" "i \<notin> fst ` set used"
    and rng: "st \<noteq> 0" "cnt \<noteq> 0" "st < bsector_count (bdevs s disk)" "cnt \<le> bsector_count (bdevs s disk) - st"
    and free: "\<not> (\<exists>(j, st', cnt') \<in> set used. cnt' \<noteq> 0 \<and> st < st' + cnt' \<and> st' < st + cnt)"
  shows "scan_inv (take_entry disk i st cnt s) disk (used @ [(i, st, cnt)])"
proof -
  have d: "disk \<notin> range part_bid" "disk \<noteq> part_bid j" for j
    using inv by (auto simp: scan_inv_def)
  have dd: "bdevs (take_entry disk i st cnt s) disk = bdevs s disk" "ata (take_entry disk i st cnt s) = ata s"
    using d(2) [of i] by (simp_all add: take_entry_def)
  have old: "taken (take_entry disk i st cnt s) disk u" if "u \<in> set used" for u
  proof -
    have "taken s disk u" "fst u \<noteq> i"
      using inv that i(2) by (auto simp: scan_inv_def image_iff)
    then show ?thesis
      using d(2) [of i] by (auto simp: taken_def take_entry_def)
  qed
  have new: "taken (take_entry disk i st cnt s) disk (i, st, cnt)"
    using i(1) rng range_end(1) [OF rng(3,4)] d(2) [of i] by (simp add: taken_def take_entry_def)
  have ap: "apart st cnt st' cnt' \<and> apart st' cnt' st cnt" if "(j, st', cnt') \<in> set used" for j st' cnt'
  proof -
    have t: "taken s disk (j, st', cnt')"
      using inv that by (auto simp: scan_inv_def)
    have "unat (st' + cnt') = unat st' + unat cnt'"
      using t unat_less_32 [of "bsector_count (bdevs s disk)"] by (simp add: taken_def unat_word_ariths)
    then have "apart st cnt st' cnt'"
      using free that t range_end(2) [OF rng(3,4)] by (intro not_overlapping) (auto simp: taken_def)
    then show ?thesis
      by (auto simp: apart_def)
  qed
  have names: "bname (bdevs (take_entry disk i st cnt s) (part_bid j)) \<noteq> None \<longleftrightarrow> j \<in> fst ` set (used @ [(i, st, cnt)])"
    if "j < MBR_PARTITION_COUNT" for j
    using inv that by (auto simp: scan_inv_def take_entry_def)
  have dok: "disk_ok (take_entry disk i st cnt s) disk"
    using inv dd by (simp add: scan_inv_def disk_ok_def)
  have pw: "\<forall>(a, st1, cnt1) \<in> set (used @ [(i, st, cnt)]). \<forall>(b, st2, cnt2) \<in> set (used @ [(i, st, cnt)]). a \<noteq> b \<longrightarrow> apart st1 cnt1 st2 cnt2"
    using inv ap by (auto simp: scan_inv_def)
  show ?thesis
    unfolding scan_inv_def using dok d(1) dd(2) names old new pw inv by (auto simp: scan_inv_def)
qed

lemma register_list:
  assumes "blockdev_register tbl bd s = (Inr x, t)"
  shows "\<exists>l. t = s\<lparr>blist := l\<rparr>"
  using assms by (auto simp: blockdev_register_def Let_def split: option.splits if_splits)

lemma scan_inv_list [simp]: "scan_inv (s\<lparr>blist := l\<rparr>) disk used \<longleftrightarrow> scan_inv s disk used"
  by (simp add: scan_inv_def disk_ok_def taken_def)

lemma scan_inv_disk [simp]: "scan_inv (s\<lparr>partition_disk := d\<rparr>) disk used \<longleftrightarrow> scan_inv s disk used"
  by (simp add: scan_inv_def disk_ok_def taken_def)

lemma scan_loop_inv:
  assumes "scan_loop disk sector is used s = (Inr n, t)" "scan_inv s disk used" "distinct is"
    "\<forall>i \<in> set is. i < MBR_PARTITION_COUNT \<and> i \<notin> fst ` set used"
  shows "\<exists>used'. scan_inv t disk used' \<and> length used' = n \<and> medium (ata t) = medium (ata s)"
  using assms
proof (induction "is" arbitrary: used s)
  case Nil
  then show ?case
    by auto
next
  case (Cons i "is")
  let ?st = "partition_read_u32 sector (446 + i * 16 + 8)"
  let ?cnt = "partition_read_u32 sector (446 + i * 16 + 12)"
  have rest: "\<forall>j \<in> set is. j < MBR_PARTITION_COUNT \<and> j \<notin> fst ` set used" "distinct is"
    using Cons.prems(3,4) by auto
  consider "scan_loop disk sector is used s = (Inr n, t)"
    | u where "?st \<noteq> 0" "?cnt \<noteq> 0" "?st < bsector_count (bdevs s disk)" "?cnt \<le> bsector_count (bdevs s disk) - ?st"
        "\<not> (\<exists>(j, st', cnt') \<in> set used. cnt' \<noteq> 0 \<and> ?st < st' + cnt' \<and> st' < ?st + ?cnt)"
        "blockdev_register blk_tbl (Some (part_bid i)) (take_entry disk i ?st ?cnt s) = (Inr (), u)"
        "scan_loop disk sector is (used @ [(i, ?st, ?cnt)]) u = (Inr n, t)"
    using Cons.prems(1)
    by (simp add: Let_def take_entry_def not_le not_less del: invalid_range split: if_splits prod.splits sum.splits)
  then show ?case
  proof cases
    case 1
    show ?thesis
      by (rule Cons.IH [OF 1 Cons.prems(2) rest(2,1)])
  next
    case 2
    obtain l where u: "u = (take_entry disk i ?st ?cnt s)\<lparr>blist := l\<rparr>"
      using register_list [OF 2(6)] by blast
    have "scan_inv u disk (used @ [(i, ?st, ?cnt)])"
      unfolding u scan_inv_list by (rule take_entry_inv [OF Cons.prems(2) _ _ 2(1-5)]) (use Cons.prems(4) in auto)
    moreover have "\<forall>j \<in> set is. j < MBR_PARTITION_COUNT \<and> j \<notin> fst ` set (used @ [(i, ?st, ?cnt)])"
      using Cons.prems(3) rest(1) by auto
    ultimately show ?thesis
      using Cons.IH [OF 2(7) _ rest(2)] by (simp add: u take_entry_def)
  qed
qed

text \<open>The devices before the first scan: the disk is there and the partitions' structures are still empty.\<close>

definition before_scan :: "blk \<Rightarrow> bool" where
  "before_scan s \<longleftrightarrow> disk_ok s HD0 \<and> ata_wf (ata s) \<and> partition_disk s = None \<and>
     (\<forall>i < MBR_PARTITION_COUNT. bname (bdevs s (part_bid i)) = None)"

lemma partition_scan_inv:
  assumes "before_scan s" "partition_scan (Some HD0) s = (Inr n, t)"
  shows "\<exists>used. scan_inv t HD0 used \<and> length used = n \<and> medium (ata t) = medium (ata s)"
proof -
  have ok: "dev_ok s HD0"
    using assms(1) by (simp add: before_scan_def dev_ok_def)
  obtain sector u where rd: "blockdev_read blk_tbl (Some HD0) 0 1 True s = (Inr sector, u)"
      "scan_loop HD0 sector [0..<MBR_PARTITION_COUNT] [] (u\<lparr>partition_disk := Some HD0\<rparr>) = (Inr n, t)"
    using assms by (auto simp: partition_scan_def before_scan_def Let_def bindE_Inr split: if_splits)
  have u: "same_devs s u" "medium (ata u) = medium (ata s)" "dev_ok u HD0"
    using dev_read_spec [OF ok rd(1)] by blast+
  have "HD0 \<notin> range part_bid"
    by (auto simp: HD0_def part_bid_def)
  then have "scan_inv u HD0 []"
    using assms(1) u by (auto simp: scan_inv_def before_scan_def same_devs_def disk_ok_def dev_ok_def)
  then show ?thesis
    using scan_loop_inv [OF rd(2)] u(2) by simp
qed

lemma scan_inv_part:
  assumes "scan_inv t disk used" "i < MBR_PARTITION_COUNT" "bname (bdevs t (part_bid i)) \<noteq> None"
  shows "(i, part_start (partitions t i), bsector_count (bdevs t (part_bid i))) \<in> set used" "dev_ok t (part_bid i)"
    "dev_base t (part_bid i) = part_start (partitions t i)" "part_start (partitions t i) \<noteq> 0"
    "unat (part_start (partitions t i)) + unat (bsector_count (bdevs t (part_bid i))) \<le> unat (bsector_count (bdevs t disk))"
proof -
  obtain st cnt where u: "(i, st, cnt) \<in> set used" "taken t disk (i, st, cnt)"
    using assms by (fastforce simp: scan_inv_def)
  then show "(i, part_start (partitions t i), bsector_count (bdevs t (part_bid i))) \<in> set used"
    by (simp add: taken_def)
  show "dev_base t (part_bid i) = part_start (partitions t i)" "part_start (partitions t i) \<noteq> 0"
      "unat (part_start (partitions t i)) + unat (bsector_count (bdevs t (part_bid i))) \<le> unat (bsector_count (bdevs t disk))"
    using u(2) by (simp_all add: taken_def dev_base_def)
  have "disk_ok t disk" "ata_wf (ata t)"
    using assms(1) by (auto simp: scan_inv_def)
  then show "dev_ok t (part_bid i)"
    using u(2) unfolding dev_ok_def part_ok_def by (fastforce simp: taken_def)
qed

lemma part_write_inside:
  assumes "dev_ok t b" "valid_range t b lba count" "in_range (dev_base t b + lba) count k"
  shows "in_range (dev_base t b) (bsector_count (bdevs t b)) k"
proof -
  have v: "lba < bsector_count (bdevs t b)" "count \<le> bsector_count (bdevs t b) - lba"
    using assms(2) unfolding valid_range_def by blast+
  show ?thesis
    using assms(3) dev_no_wrap [OF assms(1) v(1)] range_end(1) [OF v] by (auto simp: in_range_def)
qed

text \<open>
  C8: partitions are isolated from each other. After a scan of the disk that succeeds, whatever is written through one partition, whether
  the write succeeds or fails, changes no sector of another partition and not the partition table in sector 0.
\<close>

theorem partitions_isolated:
  assumes "before_scan s" "partition_scan (Some HD0) s = (Inr n, t)"
    "i < MBR_PARTITION_COUNT" "bname (bdevs t (part_bid i)) \<noteq> None"
    "j < MBR_PARTITION_COUNT" "bname (bdevs t (part_bid j)) \<noteq> None" "i \<noteq> j"
    "blockdev_write blk_tbl (Some (part_bid i)) lba count (Some bytes) t = (r, u)" "length bytes = unat count * ATA_SECTOR_SIZE"
  shows "(\<forall>k < bsector_count (bdevs t (part_bid j)). dev_sector u (part_bid j) k = dev_sector t (part_bid j) k) \<and>
    medium (ata u) 0 = medium (ata s) 0"
proof -
  obtain used where inv: "scan_inv t HD0 used" "medium (ata t) = medium (ata s)"
    using partition_scan_inv [OF assms(1,2)] by blast
  note pi = scan_inv_part [OF inv(1) assms(3,4)] and pj = scan_inv_part [OF inv(1) assms(5,6)]
  note w = dev_write_spec [OF pi(2) assms(8,9)]
  have ap: "apart (dev_base t (part_bid i)) (bsector_count (bdevs t (part_bid i))) (dev_base t (part_bid j)) (bsector_count (bdevs t (part_bid j)))"
    using inv(1) pi(1,3) pj(1,3) assms(7) unfolding scan_inv_def by fastforce
  have keep: "medium (ata u) k = medium (ata t) k" if "\<not> in_range (dev_base t (part_bid i)) (bsector_count (bdevs t (part_bid i))) k" for k
    using w part_write_inside [OF pi(2)] that by blast
  have "unat (dev_base t (part_bid i)) \<noteq> 0"
    using pi(3,4) by (simp add: unat_eq_zero)
  then have "medium (ata u) 0 = medium (ata s) 0"
    using keep [of 0] inv(2) by (simp add: in_range_def)
  moreover have "dev_sector u (part_bid j) k = dev_sector t (part_bid j) k" if k: "k < bsector_count (bdevs t (part_bid j))" for k
  proof -
    have "\<not> in_range (dev_base t (part_bid i)) (bsector_count (bdevs t (part_bid i))) (dev_base t (part_bid j) + k)"
      using ap k by (auto simp: in_range_def apart_def dev_no_wrap [OF pj(2) k] word_less_nat_alt)
    moreover have "dev_base u (part_bid j) = dev_base t (part_bid j)"
      using w same_devs_base by blast
    ultimately show ?thesis
      using keep by (simp add: dev_sector_def)
  qed
  ultimately show ?thesis
    by blast
qed

text \<open>A disk of 16 sectors with partitions at 1 to 2 and at 4 to 6.\<close>

definition small_mbr :: "u8 list" where
  "small_mbr = replicate 446 0 @ [0x80, 0, 0, 0, 6, 0, 0, 0, 1, 0, 0, 0, 2, 0, 0, 0] @ [0, 0, 0, 0, 6, 0, 0, 0, 4, 0, 0, 0, 3, 0, 0, 0] @
     replicate 32 0 @ [0x55, 0xAA]"

definition small_drive :: ata where
  "small_drive = identified_drive\<lparr>medium := (medium identified_drive)(0 := small_mbr)\<rparr>"

definition small_disk :: blk where
  "small_disk = \<lparr>ata = small_drive,
     bdevs = (\<lambda>_. no_blockdev)(HD0 := \<lparr>bname = Some ''hd0'', bops = Some ATA_OPS, bsector_size = 512, bsector_count = 16, bprivate = None\<rparr>),
     blist = [HD0], partitions = (\<lambda>_. no_partition), partition_disk = None\<rparr>"

lemma length_small_mbr [simp]: "length small_mbr = 512"
  by (simp add: small_mbr_def)

lemma small_before: "before_scan small_disk"
  by (simp add: before_scan_def small_disk_def disk_ok_def ata_wf_def small_drive_def identified_drive_def ready_drive_def ATA_SECTOR_SIZE_def
      ATA_LBA28_SECTOR_LIMIT_def HD0_def part_bid_def no_blockdev_def)

lemma small_read: "blockdev_read blk_tbl (Some HD0) 0 1 True small_disk = (Inr small_mbr, small_disk\<lparr>ata := small_drive\<lparr>status_no := 5\<rparr>\<rparr>)"
proof -
  have "ata_read28 0 True 1 small_drive = (Inr small_mbr, small_drive\<lparr>status_no := 5\<rparr>)"
    by (simp add: ata_read28_def small_drive_def identified_drive_def ready_drive_def read_sector_def bindE_def ready_waits addressed_def
        through_register_id ATA_SECTOR_SIZE_def)
  then show ?thesis
    using small_before by (simp add: disk_read before_scan_def on_ata_def partE_def small_disk_def)
qed

definition small_scanned :: blk where
  "small_scanned = snd (partition_scan (Some HD0) small_disk)"

lemma small_mbr_entries:
  "small_mbr ! 446 = 0x80" "small_mbr ! 450 = 6" "partition_read_u32 small_mbr 454 = 1" "partition_read_u32 small_mbr 458 = 2"
  "small_mbr ! 462 = 0" "small_mbr ! 466 = 6" "partition_read_u32 small_mbr 470 = 4" "partition_read_u32 small_mbr 474 = 3"
  "small_mbr ! 482 = 0" "small_mbr ! 498 = 0" "small_mbr ! 510 = 0x55" "small_mbr ! 511 = 0xAA"
  by (simp_all add: small_mbr_def partition_read_u32_def nth_append)

lemma small_scan_eq:
  "partition_scan (Some HD0) small_disk =
     scan_loop HD0 small_mbr [0, 1, 2, 3] [] (small_disk\<lparr>ata := small_drive\<lparr>status_no := 5\<rparr>, partition_disk := Some HD0\<rparr>)"
proof -
  have "[0..<MBR_PARTITION_COUNT] = [0, 1, 2, 3]"
    by (simp add: MBR_PARTITION_COUNT_def upt_rec)
  moreover have "bdevs small_disk HD0 = \<lparr>bname = Some ''hd0'', bops = Some ATA_OPS, bsector_size = 512, bsector_count = 16, bprivate = None\<rparr>"
      "partition_disk small_disk = None"
    by (simp_all add: small_disk_def)
  ultimately show ?thesis
    by (simp add: partition_scan_def bindE_def small_read small_mbr_entries del: scan_loop.simps)
qed

lemma small_scan:
  "partition_scan (Some HD0) small_disk = (Inr 2, small_scanned)"
  "bdevs small_scanned (part_bid 0) = \<lparr>bname = Some ''hd0p1'', bops = Some PARTITION_OPS, bsector_size = 512, bsector_count = 2, bprivate = Some 0\<rparr>"
  "bdevs small_scanned (part_bid 1) = \<lparr>bname = Some ''hd0p2'', bops = Some PARTITION_OPS, bsector_size = 512, bsector_count = 3, bprivate = Some 1\<rparr>"
  unfolding small_scanned_def small_scan_eq
  by (simp_all add: small_mbr_entries word_le_nat_alt [of 16 1] small_disk_def HD0_def part_bid_def blockdev_register_def partition_names_def no_blockdev_def
      del: invalid_range)

theorem partitions_isolated_witness:
  "dev_sector (snd (blockdev_write blk_tbl (Some (part_bid 0)) 1 1 (Some (replicate 512 7)) small_scanned)) (part_bid 1) 0 =
     dev_sector small_scanned (part_bid 1) 0"
proof -
  obtain r u where w: "blockdev_write blk_tbl (Some (part_bid 0)) 1 1 (Some (replicate 512 7)) small_scanned = (r, u)"
    by (cases "blockdev_write blk_tbl (Some (part_bid 0)) 1 1 (Some (replicate 512 7)) small_scanned")
  show ?thesis
    using partitions_isolated [OF small_before small_scan(1) _ _ _ _ _ w, of 1] small_scan(2,3) w
    by (simp add: MBR_PARTITION_COUNT_def ATA_SECTOR_SIZE_def)
qed

end
