(* ===== verification/Fat_Table.thy ===== *)
theory Fat_Table
  imports Blockdev
begin

text \<open>
  The volume of a FAT file system: the superblock (\<^verbatim>\<open>include/kernel/fs/fat.h\<close>), the file allocation table in its three variants
  (\<^verbatim>\<open>src/kernel/fs/fat/fat12.c\<close>, \<^verbatim>\<open>fat16.c\<close>, \<^verbatim>\<open>fat32.c\<close>) and the functions of \<^verbatim>\<open>fat.c\<close> on clusters and chains. Output pointers are not
  \<open>NULL\<close>, as in every call. The pointer \<open>var\<close> to the table of a variant is determined by the type of the volume.
\<close>

section \<open>Model\<close>

datatype fat_type = FAT_TYPE_12 | FAT_TYPE_16 | FAT_TYPE_32

record fat_super =
  sb_bdev :: bid
  sb_type :: fat_type
  bytes_per_sector :: u16
  sectors_per_cluster :: u8
  reserved_sectors :: u16
  fat_count :: u8
  root_entries :: u16
  total_sectors16 :: u16
  total_sectors32 :: u32
  sectors_per_fat16 :: u16
  sectors_per_fat32 :: u32
  fat_start :: u32
  root_dir_start :: u32
  data_start :: u32
  root_cluster :: u32
  volume_sectors :: u32
  fat_sectors :: u32
  root_dir_sectors :: u32
  cluster_count :: u32

record fat_variant_ops =
  get_fat_entry :: "fat_super \<Rightarrow> u32 \<Rightarrow> (blk, u32) io"
  set_fat_entry :: "fat_super \<Rightarrow> u32 \<Rightarrow> u32 \<Rightarrow> (blk, unit) io"
  root_dir_first_cluster :: "fat_super \<Rightarrow> u32"
  is_eoc :: "fat_super \<Rightarrow> u32 \<Rightarrow> bool"

abbreviation bps :: "fat_super \<Rightarrow> u32" where
  "bps sb \<equiv> ucast (bytes_per_sector sb)"

definition fat_read_sector :: "fat_super \<Rightarrow> u32 \<Rightarrow> (blk, u8 list) io" where
  "fat_read_sector sb lba = blockdev_read blk_tbl (Some (sb_bdev sb)) lba 1 True"

definition fat_write_sector :: "fat_super \<Rightarrow> u32 \<Rightarrow> u8 list \<Rightarrow> (blk, unit) io" where
  "fat_write_sector sb lba bytes = blockdev_write blk_tbl (Some (sb_bdev sb)) lba 1 (Some bytes)"

subsection \<open>FAT12\<close>

definition fat12_get :: "fat_super \<Rightarrow> u32 \<Rightarrow> (blk, u32) io" where
  "fat12_get sb index =
     (if index \<ge> cluster_count sb + 2 then failE ERR_INVALID_ARGUMENT
      else
        let fat_offset = index + index div 2
        in if fat_offset + 1 \<ge> fat_sectors sb * bps sb then failE ERR_IO_ERROR
           else
             let sector = fat_start sb + fat_offset div bps sb; offset = fat_offset mod bps sb
             in bindE (fat_read_sector sb sector) (\<lambda>buf.
                let byte0 = buf ! unat offset
                in bindE (if offset + 1 < bps sb then retE (buf ! unat (offset + 1))
                          else bindE (fat_read_sector sb (sector + 1)) (\<lambda>buf. retE (buf ! 0))) (\<lambda>byte1.
                   let entry = ucast byte0 OR push_bit 8 (ucast byte1) :: u16
                   in retE (ucast (if index AND 1 \<noteq> 0 then drop_bit 4 entry else entry AND 0x0FFF)))))"

text \<open>One copy of the table.\<close>

definition fat12_set_copy :: "fat_super \<Rightarrow> u32 \<Rightarrow> u32 \<Rightarrow> nat \<Rightarrow> (blk, unit) io" where
  "fat12_set_copy sb index value copy =
     (let offset = index + index div 2; fat_base = fat_start sb + of_nat copy * fat_sectors sb; sector_index = offset div bps sb;
          in_sector = offset mod bps sb; first_lba = fat_base + sector_index; crosses = (in_sector = bps sb - 1)
      in bindE (fat_read_sector sb first_lba) (\<lambda>sector0.
         bindE (if crosses then fat_read_sector sb (first_lba + 1) else retE []) (\<lambda>sector1.
         let low = sector0 ! unat in_sector;
             high = (if in_sector + 1 < bps sb then sector0 ! unat (in_sector + 1) else sector1 ! 0);
             entry = ucast low OR push_bit 8 (ucast high) :: u16;
             entry = (if index AND 1 \<noteq> 0 then (entry AND 0x000F) OR ucast (push_bit 4 (value AND 0x0FFF))
                      else (entry AND 0xF000) OR ucast (value AND 0x0FFF));
             sector0 = sector0[unat in_sector := ucast entry];
             sector0 = (if in_sector + 1 < bps sb then sector0[unat (in_sector + 1) := ucast (drop_bit 8 entry)] else sector0);
             sector1 = (if in_sector + 1 < bps sb then sector1 else sector1[0 := ucast (drop_bit 8 entry)])
         in bindE (fat_write_sector sb first_lba sector0) (\<lambda>_.
            if crosses then fat_write_sector sb (first_lba + 1) sector1 else retE ()))))"

definition fat12_set :: "fat_super \<Rightarrow> u32 \<Rightarrow> u32 \<Rightarrow> (blk, unit) io" where
  "fat12_set sb index value =
     (if index \<ge> cluster_count sb + 2 \<or> value > 0x0FFF \<or> bytes_per_sector sb \<noteq> 512 then failE ERR_INVALID_ARGUMENT
      else if index + index div 2 + 1 \<ge> fat_sectors sb * bps sb then failE ERR_IO_ERROR
      else eachE (fat12_set_copy sb index value) [0..<unat (fat_count sb)])"

definition fat12_root :: "fat_super \<Rightarrow> u32" where
  "fat12_root sb = 0"

definition fat12_is_eoc :: "fat_super \<Rightarrow> u32 \<Rightarrow> bool" where
  "fat12_is_eoc sb value \<longleftrightarrow> value \<ge> 0x0FF8"

definition fat12_ops :: fat_variant_ops where
  "fat12_ops = \<lparr>get_fat_entry = fat12_get, set_fat_entry = fat12_set, root_dir_first_cluster = fat12_root, is_eoc = fat12_is_eoc\<rparr>"

subsection \<open>FAT16\<close>

definition fat16_get :: "fat_super \<Rightarrow> u32 \<Rightarrow> (blk, u32) io" where
  "fat16_get sb index =
     (if index \<ge> cluster_count sb + 2 then failE ERR_INVALID_ARGUMENT
      else
        let fat_offset = index * 2
        in if fat_offset + 1 \<ge> fat_sectors sb * bps sb then failE ERR_IO_ERROR
           else
             bindE (fat_read_sector sb (fat_start sb + fat_offset div bps sb)) (\<lambda>buf.
               let offset = unat (fat_offset mod bps sb)
               in retE (ucast (buf ! offset) OR push_bit 8 (ucast (buf ! (offset + 1))))))"

definition fat16_set_copy :: "fat_super \<Rightarrow> u32 \<Rightarrow> u32 \<Rightarrow> nat \<Rightarrow> (blk, unit) io" where
  "fat16_set_copy sb index value copy =
     (let offset = index * 2; lba = fat_start sb + of_nat copy * fat_sectors sb + offset div bps sb; in_sector = unat (offset mod bps sb)
      in bindE (fat_read_sector sb lba) (\<lambda>sector.
         fat_write_sector sb lba (sector[in_sector := ucast value, in_sector + 1 := ucast (drop_bit 8 value)])))"

definition fat16_set :: "fat_super \<Rightarrow> u32 \<Rightarrow> u32 \<Rightarrow> (blk, unit) io" where
  "fat16_set sb index value =
     (if index \<ge> cluster_count sb + 2 \<or> value > 0xFFFF \<or> bytes_per_sector sb \<noteq> 512 then failE ERR_INVALID_ARGUMENT
      else if index * 2 + 1 \<ge> fat_sectors sb * bps sb then failE ERR_IO_ERROR
      else eachE (fat16_set_copy sb index value) [0..<unat (fat_count sb)])"

definition fat16_root :: "fat_super \<Rightarrow> u32" where
  "fat16_root sb = 0"

definition fat16_is_eoc :: "fat_super \<Rightarrow> u32 \<Rightarrow> bool" where
  "fat16_is_eoc sb value \<longleftrightarrow> value \<ge> 0xFFF8"

definition fat16_ops :: fat_variant_ops where
  "fat16_ops = \<lparr>get_fat_entry = fat16_get, set_fat_entry = fat16_set, root_dir_first_cluster = fat16_root, is_eoc = fat16_is_eoc\<rparr>"

subsection \<open>FAT32\<close>

definition fat32_get :: "fat_super \<Rightarrow> u32 \<Rightarrow> (blk, u32) io" where
  "fat32_get sb index =
     (if index \<ge> cluster_count sb + 2 then failE ERR_INVALID_ARGUMENT
      else
        let fat_offset = index * 4
        in if fat_offset + 3 \<ge> fat_sectors sb * bps sb then failE ERR_IO_ERROR
           else
             bindE (fat_read_sector sb (fat_start sb + fat_offset div bps sb)) (\<lambda>buf.
               let offset = unat (fat_offset mod bps sb)
               in retE ((ucast (buf ! offset) OR push_bit 8 (ucast (buf ! (offset + 1))) OR push_bit 16 (ucast (buf ! (offset + 2))) OR
                         push_bit 24 (ucast (buf ! (offset + 3)))) AND 0x0FFFFFFF)))"

text \<open>The loop over the copies changes \<open>value\<close>, into which the upper bits of each copy are merged.\<close>

fun fat32_set_loop :: "fat_super \<Rightarrow> u32 \<Rightarrow> u32 \<Rightarrow> nat list \<Rightarrow> (blk, unit) io" where
  "fat32_set_loop sb index value [] = retE ()"
| "fat32_set_loop sb index value (copy # copies) =
     (let offset = index * 4; lba = fat_start sb + of_nat copy * fat_sectors sb + offset div bps sb; in_sector = unat (offset mod bps sb)
      in bindE (fat_read_sector sb lba) (\<lambda>sector.
         let value = (value AND 0x0FFFFFFF) OR push_bit 24 (ucast (sector ! (in_sector + 3)) AND 0xF0)
         in bindE (fat_write_sector sb lba
              (sector[in_sector := ucast value, in_sector + 1 := ucast (drop_bit 8 value), in_sector + 2 := ucast (drop_bit 16 value),
                 in_sector + 3 := ucast (drop_bit 24 value)])) (\<lambda>_.
            fat32_set_loop sb index value copies)))"

definition fat32_set :: "fat_super \<Rightarrow> u32 \<Rightarrow> u32 \<Rightarrow> (blk, unit) io" where
  "fat32_set sb index value =
     (if index \<ge> cluster_count sb + 2 \<or> bytes_per_sector sb \<noteq> 512 then failE ERR_INVALID_ARGUMENT
      else if index * 4 + 3 \<ge> fat_sectors sb * bps sb then failE ERR_IO_ERROR
      else fat32_set_loop sb index value [0..<unat (fat_count sb)])"

definition fat32_root :: "fat_super \<Rightarrow> u32" where
  "fat32_root sb = root_cluster sb"

definition fat32_is_eoc :: "fat_super \<Rightarrow> u32 \<Rightarrow> bool" where
  "fat32_is_eoc sb value \<longleftrightarrow> value AND 0x0FFFFFFF \<ge> 0x0FFFFFF8"

definition fat32_ops :: fat_variant_ops where
  "fat32_ops = \<lparr>get_fat_entry = fat32_get, set_fat_entry = fat32_set, root_dir_first_cluster = fat32_root, is_eoc = fat32_is_eoc\<rparr>"

subsection \<open>Clusters and chains\<close>

definition fat_var :: "fat_super \<Rightarrow> fat_variant_ops" where
  "fat_var sb = (case sb_type sb of FAT_TYPE_12 \<Rightarrow> fat12_ops | FAT_TYPE_16 \<Rightarrow> fat16_ops | FAT_TYPE_32 \<Rightarrow> fat32_ops)"

definition fat_cluster_to_lba :: "fat_super \<Rightarrow> u32 \<Rightarrow> u32" where
  "fat_cluster_to_lba sb cluster = data_start sb + (cluster - 2) * ucast (sectors_per_cluster sb)"

definition fat_write_cluster :: "fat_super \<Rightarrow> u32 \<Rightarrow> u8 list option \<Rightarrow> (blk, unit) io" where
  "fat_write_cluster sb cluster buf =
     (if cluster < 2 \<or> cluster \<ge> cluster_count sb + 2 \<or> buf = None then failE ERR_IO_ERROR
      else
        let lba = fat_cluster_to_lba sb cluster; n = ucast (sectors_per_cluster sb)
        in if lba \<ge> volume_sectors sb \<or> n > volume_sectors sb - lba then failE ERR_IO_ERROR
           else blockdev_write blk_tbl (Some (sb_bdev sb)) lba n buf)"

definition fat_read_cluster :: "fat_super \<Rightarrow> u32 \<Rightarrow> bool \<Rightarrow> (blk, u8 list) io" where
  "fat_read_cluster sb cluster buf =
     (if cluster < 2 \<or> cluster \<ge> cluster_count sb + 2 \<or> \<not> buf then failE ERR_IO_ERROR
      else
        let lba = fat_cluster_to_lba sb cluster; n = ucast (sectors_per_cluster sb)
        in if lba \<ge> volume_sectors sb \<or> n > volume_sectors sb - lba then failE ERR_IO_ERROR
           else blockdev_read blk_tbl (Some (sb_bdev sb)) lba n True)"

definition fat_next_cluster :: "fat_super \<Rightarrow> u32 \<Rightarrow> (blk, u32) io" where
  "fat_next_cluster sb cluster =
     bindE (get_fat_entry (fat_var sb) sb cluster) (\<lambda>value.
       if is_eoc (fat_var sb) sb value then retE 0
       else if value < 2 \<or> value \<ge> cluster_count sb + 2 then failE ERR_IO_ERROR
       else retE value)"

definition fat_eoc_marker :: "fat_super \<Rightarrow> u32" where
  "fat_eoc_marker sb = (case sb_type sb of FAT_TYPE_12 \<Rightarrow> 0x0FFF | FAT_TYPE_16 \<Rightarrow> 0xFFFF | FAT_TYPE_32 \<Rightarrow> 0x0FFFFFFF)"

text \<open>The loop of \<open>fat_free_chain\<close>, with the number of rounds left.\<close>

fun free_chain_loop :: "fat_super \<Rightarrow> nat \<Rightarrow> u32 \<Rightarrow> (blk, unit) io" where
  "free_chain_loop sb 0 cluster = (if cluster \<noteq> 0 then failE ERR_IO_ERROR else retE ())"
| "free_chain_loop sb (Suc n) cluster =
     (if cluster = 0 then retE ()
      else
        bindE (fat_next_cluster sb cluster) (\<lambda>next.
        bindE (set_fat_entry (fat_var sb) sb cluster 0) (\<lambda>_.
        free_chain_loop sb n next)))"

definition fat_free_chain :: "fat_super \<Rightarrow> u32 \<Rightarrow> (blk, unit) io" where
  "fat_free_chain sb cluster = free_chain_loop sb (unat (cluster_count sb)) cluster"

subsection \<open>The layout of a volume\<close>

text \<open>
  \<open>fat_probe_type\<close> computes the layout from the fields of the boot sector. The result is the error or the type, with the superblock as it is
  left; \<open>sector_size\<close> and \<open>sector_count\<close> are those of the device.
\<close>

definition fat_probe_checks :: "fat_super \<Rightarrow> u32 \<Rightarrow> u32 \<Rightarrow> bool" where
  "fat_probe_checks sb total_sectors sector_size \<longleftrightarrow>
     total_sectors \<noteq> 0 \<and> bytes_per_sector sb = 512 \<and> sector_size = bps sb \<and> sectors_per_cluster sb \<noteq> 0 \<and>
     sectors_per_cluster sb AND (sectors_per_cluster sb - 1) = 0 \<and> sectors_per_cluster sb \<le> 128 \<and> reserved_sectors sb \<noteq> 0 \<and>
     (fat_count sb = 1 \<or> fat_count sb = 2)"

definition fat_type_of :: "u32 \<Rightarrow> fat_type" where
  "fat_type_of clusters = (if clusters < 4085 then FAT_TYPE_12 else if clusters < 65525 then FAT_TYPE_16 else FAT_TYPE_32)"

definition fat_probe_type :: "fat_super \<Rightarrow> u32 \<Rightarrow> u32 \<Rightarrow> u32 \<Rightarrow> (Errno + fat_type) \<times> fat_super" where
  "fat_probe_type sb total_sectors sector_size sector_count =
     (if \<not> fat_probe_checks sb total_sectors sector_size then (Inl ERR_NOT_SUPPORTED, sb)
      else
        let sectors = (if sectors_per_fat16 sb \<noteq> 0 then ucast (sectors_per_fat16 sb) else sectors_per_fat32 sb);
            sb1 = sb\<lparr>fat_sectors := sectors\<rparr>
        in if sectors = 0 \<or> sectors > total_sectors \<or> total_sectors > sector_count then (Inl ERR_IO_ERROR, sb1)
           else
             let root_sectors = (ucast (root_entries sb) * 32 + bps sb - 1) div bps sb; sb2 = sb1\<lparr>root_dir_sectors := root_sectors\<rparr>;
                 fats_area = ucast (fat_count sb) * sectors; reserved = ucast (reserved_sectors sb)
             in if fats_area div ucast (fat_count sb) \<noteq> sectors \<or> reserved > total_sectors \<or>
                   fats_area > total_sectors - reserved \<or> root_sectors > total_sectors - reserved - fats_area
                then (Inl ERR_IO_ERROR, sb2)
                else
                  let start = reserved + fats_area + root_sectors; clusters = (total_sectors - start) div ucast (sectors_per_cluster sb);
                      sb3 = sb2\<lparr>fat_start := reserved, root_dir_start := reserved + fats_area, data_start := start,
                        volume_sectors := total_sectors, cluster_count := clusters\<rparr>;
                      type = fat_type_of clusters;
                      entries = ucast clusters + 2 :: u64; table = ucast sectors :: u64; size = ucast (bps sb) :: u64
                  in if clusters = 0 then (Inl ERR_IO_ERROR, sb3)
                     else if type = FAT_TYPE_32 \<and> (sectors_per_fat16 sb \<noteq> 0 \<or> root_entries sb \<noteq> 0 \<or> root_cluster sb < 2 \<or>
                               root_cluster sb \<ge> clusters + 2) \<or>
                             type \<noteq> FAT_TYPE_32 \<and> (sectors_per_fat16 sb = 0 \<or> root_entries sb = 0)
                     then (Inl ERR_IO_ERROR, sb3)
                     else if entries > table * size * 2 div 3 \<and> type = FAT_TYPE_12 then (Inl ERR_IO_ERROR, sb3)
                     else if type = FAT_TYPE_16 \<and> entries > table * (size div 2) then (Inl ERR_IO_ERROR, sb3)
                     else if type = FAT_TYPE_32 \<and> entries > table * (size div 4) then (Inl ERR_IO_ERROR, sb3)
                     else (Inr type, sb3))"

section \<open>The layout that probing accepts\<close>

text \<open>The last byte of an entry of the table.\<close>

definition entry_end :: "fat_type \<Rightarrow> nat \<Rightarrow> nat" where
  "entry_end type i = (case type of FAT_TYPE_12 \<Rightarrow> i + i div 2 + 1 | FAT_TYPE_16 \<Rightarrow> i * 2 + 1 | FAT_TYPE_32 \<Rightarrow> i * 4 + 3)"

definition fat_layout :: "fat_super \<Rightarrow> u32 \<Rightarrow> bool" where
  "fat_layout sb sector_count \<longleftrightarrow>
     bytes_per_sector sb = 512 \<and> 0 < unat (sectors_per_cluster sb) \<and> 0 < unat (fat_count sb) \<and> 0 < unat (fat_sectors sb) \<and>
     0 < unat (fat_start sb) \<and> unat (root_dir_start sb) = unat (fat_start sb) + unat (fat_count sb) * unat (fat_sectors sb) \<and>
     unat (data_start sb) = unat (root_dir_start sb) + unat (root_dir_sectors sb) \<and>
     0 < unat (cluster_count sb) \<and>
     unat (data_start sb) + unat (cluster_count sb) * unat (sectors_per_cluster sb) \<le> unat (volume_sectors sb) \<and>
     unat (volume_sectors sb) \<le> unat sector_count \<and>
     (\<forall>i < unat (cluster_count sb) + 2. entry_end (sb_type sb) i < unat (fat_sectors sb) * 512)"

lemma double_no_overflow:
  fixes fc :: u8 and fs :: u32
  assumes "fc = 1 \<or> fc = 2" "(ucast fc * fs) div ucast fc = fs"
  shows "unat (ucast fc * fs) = unat fc * unat fs"
proof (cases "fc = 1")
  case False
  then have fc: "fc = 2"
    using assms(1) by simp
  have "unat (2 * fs) div 2 = unat fs"
    using arg_cong [OF assms(2), of unat] by (simp add: fc unat_div)
  then have "2 * unat fs < 2 ^ 32"
    using unat_less_32 [of "2 * fs"] by linarith
  then show ?thesis
    by (simp add: fc unat_word_ariths)
qed simp

lemma unat_ucast64: "unat (ucast (w :: u32) :: u64) = unat w"
proof -
  have "unat w < 2 ^ 64"
    using unat_less_32 [of w] by simp
  then show ?thesis
    by (simp add: unsigned_ucast_eq take_bit_nat_eq_self_iff)
qed

lemma unat_ucast8: "unat (ucast (w :: u8) :: u32) = unat w"
proof -
  have "unat w < 2 ^ 8"
    using unsigned_less [of w] by simp
  then have "unat w < 2 ^ 32"
    by simp
  then show ?thesis
    by (simp add: unsigned_ucast_eq take_bit_nat_eq_self_iff)
qed

lemma unat_ucast16: "unat (ucast (w :: u16) :: u32) = unat w"
proof -
  have "unat w < 2 ^ 16"
    using unsigned_less [of w] by simp
  then have "unat w < 2 ^ 32"
    by simp
  then show ?thesis
    by (simp add: unsigned_ucast_eq take_bit_nat_eq_self_iff)
qed

lemma entry_fits:
  fixes cc fs :: u32
  defines "clusters \<equiv> ucast cc + 2 :: u64" and "table \<equiv> ucast fs :: u64"
  assumes "ty = FAT_TYPE_12 \<longrightarrow> clusters \<le> table * 512 * 2 div 3" "ty = FAT_TYPE_16 \<longrightarrow> clusters \<le> table * 256"
    "ty = FAT_TYPE_32 \<longrightarrow> clusters \<le> table * 128" "i < unat cc + 2"
  shows "entry_end ty i < unat fs * 512"
proof -
  have c: "unat clusters = unat cc + 2"
    using unat_less_32 [of cc] by (simp add: clusters_def unat_word_ariths unat_ucast64)
  have t: "unat (table * 512 * 2) = unat fs * 1024" "unat (table * 256) = unat fs * 256" "unat (table * 128) = unat fs * 128"
    using unat_less_32 [of fs] by (simp_all add: table_def unat_word_ariths unat_ucast64)
  have d: "unat (table * 512 * 2 div 3) = unat fs * 1024 div 3"
    using t(1) by (simp add: unat_div)
  show ?thesis
  proof (cases ty)
    case FAT_TYPE_12
    then have "unat cc + 2 \<le> unat fs * 1024 div 3"
      using assms(3) c d by (simp add: word_le_nat_alt)
    then have "3 * (unat cc + 2) \<le> unat fs * 1024"
      by (simp add: less_eq_div_iff_mult_less_eq)
    then show ?thesis
      using assms(6) FAT_TYPE_12 by (simp add: entry_end_def)
  next
    case FAT_TYPE_16
    then have "unat cc + 2 \<le> unat fs * 256"
      using assms(4) c t by (simp add: word_le_nat_alt)
    then show ?thesis
      using assms(6) FAT_TYPE_16 by (simp add: entry_end_def)
  next
    case FAT_TYPE_32
    then have "unat cc + 2 \<le> unat fs * 128"
      using assms(5) c t by (simp add: word_le_nat_alt)
    then show ?thesis
      using assms(6) FAT_TYPE_32 by (simp add: entry_end_def)
  qed
qed

lemma guard_Inr: "(if b then (Inl e, x) else y) = (Inr v, z) \<longleftrightarrow> \<not> b \<and> y = (Inr v, z)"
  by simp

text \<open>
  C11: probing accepts only sound volumes. When \<open>fat_probe_type\<close> succeeds, the reserved sectors, the copies of the table, the root
  directory and the clusters follow each other without overlap inside the volume, the volume fits on the device, and every
  cluster has a whole entry in the table of the type that is chosen.
\<close>

theorem fat_probe_sound:
  assumes "fat_probe_type sb total_sectors sector_size sector_count = (Inr type, sb')"
  shows "fat_layout (sb'\<lparr>sb_type := type\<rparr>) sector_count \<and> type = fat_type_of (cluster_count sb')"
proof -
  define fs where "fs = (if sectors_per_fat16 sb \<noteq> 0 then ucast (sectors_per_fat16 sb) else sectors_per_fat32 sb)"
  define area where "area = ucast (fat_count sb) * fs"
  define res :: u32 where "res = ucast (reserved_sectors sb)"
  define rds where "rds = (ucast (root_entries sb) * 32 + bps sb - 1) div bps sb"
  define spc :: u32 where "spc = ucast (sectors_per_cluster sb)"
  define cc where "cc = (total_sectors - (res + area + rds)) div spc"
  have chk: "fat_probe_checks sb total_sectors sector_size"
    using assms by (auto simp: fat_probe_type_def split: if_splits)
  then have b: "bytes_per_sector sb = 512" "sectors_per_cluster sb \<noteq> 0" "reserved_sectors sb \<noteq> 0" "fat_count sb = 1 \<or> fat_count sb = 2"
    by (simp_all add: fat_probe_checks_def)
  have g: "fs \<noteq> 0" "total_sectors \<le> sector_count" "area div ucast (fat_count sb) = fs" "res \<le> total_sectors" "area \<le> total_sectors - res"
      "rds \<le> total_sectors - res - area" "cc \<noteq> 0" "type = fat_type_of cc"
      "type = FAT_TYPE_12 \<longrightarrow> ucast cc + 2 \<le> (ucast fs :: u64) * 512 * 2 div 3" "type = FAT_TYPE_16 \<longrightarrow> ucast cc + 2 \<le> (ucast fs :: u64) * 256"
      "type = FAT_TYPE_32 \<longrightarrow> ucast cc + 2 \<le> (ucast fs :: u64) * 128"
      "sb' = sb\<lparr>fat_sectors := fs, root_dir_sectors := rds, fat_start := res, root_dir_start := res + area, data_start := res + area + rds,
         volume_sectors := total_sectors, cluster_count := cc\<rparr>"
    using assms unfolding fat_probe_type_def Let_def guard_Inr fs_def [symmetric] res_def [symmetric] area_def [symmetric] rds_def [symmetric]
      spc_def [symmetric] cc_def [symmetric]
    by (auto simp: not_less b(1))
  have area: "unat area = unat (fat_count sb) * unat fs"
    using double_no_overflow b(4) g(3) by (simp add: area_def)
  have l1: "unat (total_sectors - res) = unat total_sectors - unat res" "unat res \<le> unat total_sectors"
    using g(4) by (simp_all add: unat_sub word_le_nat_alt)
  have l2: "unat (total_sectors - res - area) = unat total_sectors - unat res - unat area" "unat res + unat area \<le> unat total_sectors"
    using g(5) l1 by (auto simp: unat_sub word_le_nat_alt)
  have l3: "unat res + unat area + unat rds \<le> unat total_sectors"
    using g(6) l2 by (simp add: word_le_nat_alt)
  have s1: "unat (res + area) = unat res + unat area" "unat (res + area + rds) = unat res + unat area + unat rds"
    using l3 unat_less_32 [of total_sectors] by (simp_all add: unat_word_ariths)
  have "unat (total_sectors - (res + area + rds)) = unat total_sectors - (unat res + unat area + unat rds)"
    using l3 s1(2) by (simp add: unat_sub word_le_nat_alt)
  then have "unat cc * unat spc \<le> unat total_sectors - (unat res + unat area + unat rds)"
    by (simp add: cc_def unat_div)
  moreover have spc: "unat spc = unat (sectors_per_cluster sb)" and res: "unat res = unat (reserved_sectors sb)"
    by (simp_all add: spc_def res_def unat_ucast8 unat_ucast16)
  ultimately have cl: "unat res + unat area + unat rds + unat cc * unat (sectors_per_cluster sb) \<le> unat total_sectors"
    using l3 by simp
  have pos: "0 < unat (sectors_per_cluster sb)" "0 < unat (fat_count sb)" "0 < unat fs" "0 < unat res" "0 < unat cc"
    using b g(1,7) res by (auto simp: unat_gt_0)
  have "\<forall>i < unat cc + 2. entry_end type i < unat fs * 512"
    using entry_fits [OF g(9,10,11)] by blast
  then show ?thesis
    using b(1) pos cl s1 area g(2,8) by (simp add: fat_layout_def g(12) word_le_nat_alt)
qed

text \<open>A floppy disk of 2880 sectors, whose volume has two tables of nine sectors and 224 entries in the root directory.\<close>

definition floppy :: fat_super where
  "floppy = \<lparr>sb_bdev = 0, sb_type = FAT_TYPE_12, bytes_per_sector = 512, sectors_per_cluster = 1, reserved_sectors = 1, fat_count = 2,
     root_entries = 224, total_sectors16 = 2880, total_sectors32 = 0, sectors_per_fat16 = 9, sectors_per_fat32 = 0, fat_start = 0,
     root_dir_start = 0, data_start = 0, root_cluster = 0, volume_sectors = 0, fat_sectors = 0, root_dir_sectors = 0, cluster_count = 0\<rparr>"

definition floppy_probed :: fat_super where
  "floppy_probed = floppy\<lparr>fat_sectors := 9, root_dir_sectors := 14, fat_start := 1, root_dir_start := 19, data_start := 33,
     volume_sectors := 2880, cluster_count := 2847\<rparr>"

lemma floppy_probe: "fat_probe_type floppy 2880 512 2880 = (Inr FAT_TYPE_12, floppy_probed)"
  by (simp add: fat_probe_type_def fat_probe_checks_def fat_type_of_def floppy_def floppy_probed_def)

theorem fat_probe_sound_witness: "fat_layout (floppy_probed\<lparr>sb_type := FAT_TYPE_12\<rparr>) 2880"
  using fat_probe_sound [OF floppy_probe] by blast

section \<open>The table as a sequence of bits\<close>

text \<open>
  A mounted volume on a working device. The table is smaller than 4 GiB: the byte counts the driver computes are 32 bits wide.
\<close>

definition vol_ok :: "blk \<Rightarrow> fat_super \<Rightarrow> bool" where
  "vol_ok s sb \<longleftrightarrow> dev_ok s (sb_bdev sb) \<and> fat_layout sb (bsector_count (bdevs s (sb_bdev sb))) \<and> unat (fat_sectors sb) < 2 ^ 23"

text \<open>The sector of a copy of the table, the bytes and the bits of a copy.\<close>

definition table_lba :: "fat_super \<Rightarrow> nat \<Rightarrow> nat \<Rightarrow> u32" where
  "table_lba sb c q = fat_start sb + of_nat c * fat_sectors sb + of_nat q"

definition table_byte :: "blk \<Rightarrow> fat_super \<Rightarrow> nat \<Rightarrow> nat \<Rightarrow> u8" where
  "table_byte s sb c n = dev_sector s (sb_bdev sb) (table_lba sb c (n div 512)) ! (n mod 512)"

definition table_bit :: "blk \<Rightarrow> fat_super \<Rightarrow> nat \<Rightarrow> nat \<Rightarrow> bool" where
  "table_bit s sb c p = bit (table_byte s sb c (p div 8)) (p mod 8)"

definition table_size :: "fat_super \<Rightarrow> nat" where
  "table_size sb = unat (fat_sectors sb) * 512"

lemma vol_okD:
  assumes "vol_ok s sb"
  shows "dev_ok s (sb_bdev sb)" "bytes_per_sector sb = 512" "bps sb = 512" "unat (fat_sectors sb) < 2 ^ 23"
    "unat (fat_start sb) + unat (fat_count sb) * unat (fat_sectors sb) \<le> unat (volume_sectors sb)"
    "unat (volume_sectors sb) \<le> unat (bsector_count (bdevs s (sb_bdev sb)))"
    "\<forall>i < unat (cluster_count sb) + 2. entry_end (sb_type sb) i < table_size sb"
proof -
  have l: "fat_layout sb (bsector_count (bdevs s (sb_bdev sb)))"
    using assms by (simp add: vol_ok_def)
  show "dev_ok s (sb_bdev sb)" "unat (fat_sectors sb) < 2 ^ 23"
    using assms by (simp_all add: vol_ok_def)
  show b: "bytes_per_sector sb = 512"
    using l by (simp add: fat_layout_def)
  show "bps sb = 512"
    by (simp add: b)
  show "unat (fat_start sb) + unat (fat_count sb) * unat (fat_sectors sb) \<le> unat (volume_sectors sb)"
      "unat (volume_sectors sb) \<le> unat (bsector_count (bdevs s (sb_bdev sb)))"
      "\<forall>i < unat (cluster_count sb) + 2. entry_end (sb_type sb) i < table_size sb"
    using l by (simp_all add: fat_layout_def table_size_def)
qed

lemma table_lba_unat:
  assumes "vol_ok s sb" "c < unat (fat_count sb)" "q < unat (fat_sectors sb)"
  shows "unat (table_lba sb c q) = unat (fat_start sb) + c * unat (fat_sectors sb) + q"
    "table_lba sb c q < bsector_count (bdevs s (sb_bdev sb))"
proof -
  have "Suc c * unat (fat_sectors sb) \<le> unat (fat_count sb) * unat (fat_sectors sb)"
    using assms(2) by (intro mult_le_mono1) simp
  then have le: "unat (fat_start sb) + c * unat (fat_sectors sb) + q < unat (bsector_count (bdevs s (sb_bdev sb)))"
    using vol_okD(5,6) [OF assms(1)] assms(3) by simp
  have lt: "unat (fat_start sb) + c * unat (fat_sectors sb) + q < 2 ^ 32"
    using le unat_less_32 [of "bsector_count (bdevs s (sb_bdev sb))"] by linarith
  have "table_lba sb c q = of_nat (unat (fat_start sb) + c * unat (fat_sectors sb) + q)"
    by (simp add: table_lba_def)
  then show u: "unat (table_lba sb c q) = unat (fat_start sb) + c * unat (fat_sectors sb) + q"
    using lt by (simp only: unat_of_nat) simp
  show "table_lba sb c q < bsector_count (bdevs s (sb_bdev sb))"
    using u le by (simp add: word_less_nat_alt)
qed

lemma table_lba_inj:
  assumes "vol_ok s sb" "c < unat (fat_count sb)" "q < unat (fat_sectors sb)" "c' < unat (fat_count sb)" "q' < unat (fat_sectors sb)"
  shows "table_lba sb c q = table_lba sb c' q' \<longleftrightarrow> c = c' \<and> q = q'"
proof
  assume "table_lba sb c q = table_lba sb c' q'"
  then have e: "q + unat (fat_sectors sb) * c = q' + unat (fat_sectors sb) * c'"
    using table_lba_unat(1) [OF assms(1,2,3)] table_lba_unat(1) [OF assms(1,4,5)] by (simp add: algebra_simps)
  have "c = c'"
    using arg_cong [OF e, of "\<lambda>x. x div unat (fat_sectors sb)"] assms(3,5) by (simp add: div_mult_self2)
  then show "c = c' \<and> q = q'"
    using e by simp
qed simp

text \<open>Reading and writing one sector of a volume.\<close>

lemma length_dev_sector: "dev_ok s b \<Longrightarrow> length (dev_sector s b k) = 512"
  by (simp add: dev_ok_def ata_wf_def dev_sector_def ATA_SECTOR_SIZE_def)

definition same_blocks :: "blk \<Rightarrow> blk \<Rightarrow> bool" where
  "same_blocks s t \<longleftrightarrow> same_devs s t \<and> medium (ata t) = medium (ata s)"

lemma same_blocks_refl [simp]: "same_blocks s s"
  by (simp add: same_blocks_def)

lemma same_blocks_trans: "same_blocks s t \<Longrightarrow> same_blocks t u \<Longrightarrow> same_blocks s u"
  by (auto simp: same_blocks_def intro: same_devs_trans)

lemma same_blocks_sector: "same_blocks s t \<Longrightarrow> dev_sector t b k = dev_sector s b k"
  using same_devs_base [of s t b] by (simp add: same_blocks_def dev_sector_def)

lemma same_blocks_vol: "same_blocks s t \<Longrightarrow> vol_ok s sb \<Longrightarrow> vol_ok t sb"
  unfolding vol_ok_def same_blocks_def
  by (metis ata_wf_def dev_ok_def same_devs_def same_devs_dev)

lemma same_blocks_bit: "same_blocks s t \<Longrightarrow> table_bit t sb c p = table_bit s sb c p"
  by (simp add: table_bit_def table_byte_def same_blocks_sector)

lemma read_sector_spec:
  assumes "dev_ok s (sb_bdev sb)" "fat_read_sector sb lba s = (r, t)"
  shows "same_blocks s t" "r = Inr bs \<Longrightarrow> bs = dev_sector s (sb_bdev sb) lba \<and> lba < bsector_count (bdevs s (sb_bdev sb))"
  using dev_read_spec [OF assms(1) assms(2) [unfolded fat_read_sector_def]] by (auto simp: same_blocks_def)

lemma in_range_1 [simp]: "in_range lba 1 k \<longleftrightarrow> k = lba"
  by (auto simp: in_range_def word_unat_eq_iff)

lemma write_sector_spec:
  assumes "dev_ok s (sb_bdev sb)" "fat_write_sector sb lba bytes s = (r, t)" "length bytes = 512"
  shows "same_devs s t" "dev_ok t (sb_bdev sb)"
    "\<And>k. k < bsector_count (bdevs s (sb_bdev sb)) \<Longrightarrow> k \<noteq> lba \<Longrightarrow> dev_sector t (sb_bdev sb) k = dev_sector s (sb_bdev sb) k"
    "r = Inr () \<Longrightarrow> dev_sector t (sb_bdev sb) lba = bytes"
proof -
  have len: "length bytes = unat (1 :: u32) * ATA_SECTOR_SIZE"
    using assms(3) by (simp add: ATA_SECTOR_SIZE_def)
  note w = dev_write_spec [OF assms(1) assms(2) [unfolded fat_write_sector_def] len]
  show "same_devs s t" "dev_ok t (sb_bdev sb)"
    using w by blast+
  show "dev_sector t (sb_bdev sb) k = dev_sector s (sb_bdev sb) k" if "k < bsector_count (bdevs s (sb_bdev sb))" "k \<noteq> lba" for k
    using dev_write_frame [OF assms(1) assms(2) [unfolded fat_write_sector_def] len that(1)] that(2) by simp
  show "dev_sector t (sb_bdev sb) lba = bytes" if "r = Inr ()"
    using w that assms(3) by (simp add: sector_of_def ATA_SECTOR_SIZE_def)
qed

text \<open>
  What an update of the table does to the volume: it stays a volume, sectors outside the table are untouched,
  and the bytes of the copies are related by \<open>P\<close>.
\<close>

definition outside_table :: "fat_super \<Rightarrow> u32 \<Rightarrow> bool" where
  "outside_table sb k \<longleftrightarrow> unat k < unat (fat_start sb) \<or> unat (root_dir_start sb) \<le> unat k"

definition table_frame :: "fat_super \<Rightarrow> blk \<Rightarrow> blk \<Rightarrow> bool" where
  "table_frame sb s t \<longleftrightarrow> same_devs s t \<and> vol_ok t sb \<and>
     (\<forall>k < bsector_count (bdevs s (sb_bdev sb)). outside_table sb k \<longrightarrow> dev_sector t (sb_bdev sb) k = dev_sector s (sb_bdev sb) k)"

lemma table_frame_refl: "vol_ok s sb \<Longrightarrow> table_frame sb s s"
  by (simp add: table_frame_def)

lemma table_frame_trans: "table_frame sb s t \<Longrightarrow> table_frame sb t u \<Longrightarrow> table_frame sb s u"
  by (auto simp: table_frame_def same_devs_def)

lemma table_frame_same: "same_blocks s t \<Longrightarrow> vol_ok s sb \<Longrightarrow> table_frame sb s t"
  unfolding table_frame_def using same_blocks_vol same_blocks_sector same_blocks_def by blast

lemma vol_ok_devs: "vol_ok s sb \<Longrightarrow> same_devs s t \<Longrightarrow> dev_ok t (sb_bdev sb) \<Longrightarrow> vol_ok t sb"
  by (simp add: vol_ok_def same_devs_def)

lemma table_lba_inside:
  assumes "vol_ok s sb" "c < unat (fat_count sb)" "q < unat (fat_sectors sb)"
  shows "\<not> outside_table sb (table_lba sb c q)"
proof -
  have "unat (root_dir_start sb) = unat (fat_start sb) + unat (fat_count sb) * unat (fat_sectors sb)"
    using assms(1) by (simp add: vol_ok_def fat_layout_def)
  moreover have "Suc c * unat (fat_sectors sb) \<le> unat (fat_count sb) * unat (fat_sectors sb)"
    using assms(2) by (intro mult_le_mono1) simp
  ultimately show ?thesis
    using table_lba_unat(1) [OF assms] assms(3) by (simp add: outside_table_def)
qed

lemma write_table_sector:
  assumes "vol_ok s sb" "c < unat (fat_count sb)" "q < unat (fat_sectors sb)" "length bytes = 512"
    "fat_write_sector sb (table_lba sb c q) bytes s = (r, t)"
  shows "table_frame sb s t"
    "r = Inr () \<Longrightarrow> c' < unat (fat_count sb) \<Longrightarrow> n < table_size sb \<Longrightarrow>
       table_byte t sb c' n = (if c' = c \<and> n div 512 = q then bytes ! (n mod 512) else table_byte s sb c' n)"
proof -
  note w = write_sector_spec [OF vol_okD(1) [OF assms(1)] assms(5,4)]
  have "\<forall>k < bsector_count (bdevs s (sb_bdev sb)). outside_table sb k \<longrightarrow> dev_sector t (sb_bdev sb) k = dev_sector s (sb_bdev sb) k"
    using w(3) table_lba_inside [OF assms(1-3)] by blast
  then show "table_frame sb s t"
    using w(1,2) vol_ok_devs [OF assms(1)] by (simp add: table_frame_def)
  assume a: "r = Inr ()" "c' < unat (fat_count sb)" "n < table_size sb"
  have n: "n div 512 < unat (fat_sectors sb)"
    using a(3) by (simp add: table_size_def less_mult_imp_div_less)
  show "table_byte t sb c' n = (if c' = c \<and> n div 512 = q then bytes ! (n mod 512) else table_byte s sb c' n)"
    using table_lba_inj [OF assms(1) a(2) n assms(2,3)] w(3) [OF table_lba_unat(2) [OF assms(1) a(2) n]] w(4) [OF a(1)]
    by (auto simp: table_byte_def)
qed

text \<open>An offset in the table and its sector.\<close>

lemma table_offset:
  fixes off :: u32
  assumes "vol_ok s sb" "unat off < table_size sb"
  shows "fat_start sb + of_nat c * fat_sectors sb + off div bps sb = table_lba sb c (unat off div 512)"
    "unat off div 512 < unat (fat_sectors sb)" "unat (off mod bps sb) = unat off mod 512"
proof -
  have "unat off div 512 < 2 ^ 32"
    using unat_less_32 [of off] by linarith
  then have "off div bps sb = of_nat (unat off div 512)"
    using vol_okD(3) [OF assms(1)] by (simp add: word_unat_eq_iff unat_div unat_of_nat)
  then show "fat_start sb + of_nat c * fat_sectors sb + off div bps sb = table_lba sb c (unat off div 512)"
    by (simp add: table_lba_def)
  show "unat off div 512 < unat (fat_sectors sb)"
    using assms(2) by (simp add: table_size_def less_mult_imp_div_less)
  show "unat (off mod bps sb) = unat off mod 512"
    using vol_okD(3) [OF assms(1)] by (simp add: unat_mod)
qed

lemma table_size_word: "vol_ok s sb \<Longrightarrow> unat (fat_sectors sb * bps sb) = table_size sb"
  using vol_okD(3,4) [of s sb] by (simp add: table_size_def unat_word_ariths)

lemma read_table_sector:
  assumes "vol_ok s sb" "fat_read_sector sb (table_lba sb c q) s = (r, t)"
  shows "same_blocks s t" "r = Inr bs \<Longrightarrow> length bs = 512 \<and> (\<forall>m < 512. bs ! m = table_byte s sb c (q * 512 + m))"
  using read_sector_spec [OF vol_okD(1) [OF assms(1)] assms(2)] length_dev_sector [OF vol_okD(1) [OF assms(1)]]
  by (auto simp: table_byte_def)

text \<open>Storing a word byte by byte stores its bits.\<close>

lemma byte_bits:
  fixes e :: "'a :: len word"
  assumes "8 * m \<le> LENGTH('a)" "off \<le> p div 8" "p div 8 < off + m"
  shows "bit (ucast (drop_bit (8 * (p div 8 - off)) e) :: u8) (p mod 8) = bit e (p - 8 * off)"
proof -
  have "8 * (p div 8 - off) + p mod 8 = p - 8 * off"
    using assms(2) by (simp add: diff_mult_distrib2)
  moreover have "p mod 8 < LENGTH(8)"
    by simp
  ultimately show ?thesis
    unfolding bit_ucast_iff bit_drop_bit_eq comp_def by (simp only: simp_thms)
qed

lemma stored_bits:
  fixes e :: "'a :: len word" and B :: "nat \<Rightarrow> u8"
  assumes "8 * m \<le> LENGTH('a)" "B' (p div 8) = (if off \<le> p div 8 \<and> p div 8 < off + m then ucast (drop_bit (8 * (p div 8 - off)) e) else B (p div 8))"
  shows "bit (B' (p div 8)) (p mod 8) =
    (if 8 * off \<le> p \<and> p < 8 * off + 8 * m then bit e (p - 8 * off) else bit (B (p div 8)) (p mod 8))"
proof -
  have "off \<le> p div 8 \<and> p div 8 < off + m \<longleftrightarrow> 8 * off \<le> p \<and> p < 8 * off + 8 * m"
    by auto
  then show ?thesis
    using assms byte_bits [OF assms(1), of off p e] by auto
qed

lemma pair_bits:
  "bit ((ucast (b0 :: u8) OR push_bit 8 (ucast (b1 :: u8))) :: 'a :: len word) k \<longleftrightarrow>
     k < LENGTH('a) \<and> k < 16 \<and> (if k < 8 then bit b0 k else bit b1 (k - 8))"
  by (auto simp: bit_simps dest: bit_imp_le_length)

lemma loaded_bits:
  assumes "b0 = B off" "b1 = B (Suc off)" "k < 16"
  shows "(if k < 8 then bit (b0 :: u8) k else bit b1 (k - 8)) = bit (B ((8 * off + k) div 8)) ((8 * off + k) mod 8)"
proof (cases "k < 8")
  case False
  then have "(8 * off + k) div 8 = Suc off" "(8 * off + k) mod 8 = k - 8"
    using assms(3) by presburger+
  then show ?thesis
    using False assms by simp
qed (use assms in simp)

text \<open>Bits of an entry are set in every copy.\<close>

definition set_bits :: "nat \<Rightarrow> nat \<Rightarrow> u32 \<Rightarrow> (nat \<Rightarrow> bool) \<Rightarrow> nat \<Rightarrow> bool" where
  "set_bits start width v f p = (if start \<le> p \<and> p < start + width then bit v (p - start) else f p)"

definition copy_set :: "fat_super \<Rightarrow> nat \<Rightarrow> nat \<Rightarrow> nat \<Rightarrow> u32 \<Rightarrow> blk \<Rightarrow> blk \<Rightarrow> bool" where
  "copy_set sb c start width v s t \<longleftrightarrow> (\<forall>c' < unat (fat_count sb). \<forall>p < 8 * table_size sb.
     table_bit t sb c' p = (if c' = c then set_bits start width v (table_bit s sb c) p else table_bit s sb c' p))"

lemma each_copy:
  assumes step: "\<And>c s r t. vol_ok s sb \<Longrightarrow> c < unat (fat_count sb) \<Longrightarrow> f c s = (r, t) \<Longrightarrow>
      table_frame sb s t \<and> (r = Inr () \<longrightarrow> copy_set sb c start width v s t)"
    and "vol_ok s sb" "eachE f cs s = (r, t)" "set cs \<subseteq> {..<unat (fat_count sb)}" "distinct cs"
  shows "table_frame sb s t \<and> (r = Inr () \<longrightarrow> (\<forall>c < unat (fat_count sb). \<forall>p < 8 * table_size sb.
      table_bit t sb c p = (if c \<in> set cs then set_bits start width v (table_bit s sb c) p else table_bit s sb c p)))"
  using assms(2-)
proof (induction cs arbitrary: s)
  case Nil
  then show ?case
    by (simp add: table_frame_refl)
next
  case (Cons c cs)
  obtain q u where u: "f c s = (q, u)"
    by (cases "f c s")
  have s1: "table_frame sb s u" "q = Inr () \<longrightarrow> copy_set sb c start width v s u"
    using step [OF Cons.prems(1) _ u] Cons.prems(3) by auto
  show ?case
  proof (cases q)
    case (Inl e)
    then show ?thesis
      using Cons.prems(2) u s1 by (auto simp: bindE_def)
  next
    case (Inr x)
    then have rest: "eachE f cs u = (r, t)"
      using Cons.prems(2) u by (simp add: bindE_def)
    have ih: "table_frame sb u t \<and> (r = Inr () \<longrightarrow> (\<forall>c < unat (fat_count sb). \<forall>p < 8 * table_size sb.
        table_bit t sb c p = (if c \<in> set cs then set_bits start width v (table_bit u sb c) p else table_bit u sb c p)))"
      using Cons.IH [OF _ rest] s1(1) Cons.prems(3,4) by (simp add: table_frame_def)
    have cp: "copy_set sb c start width v s u"
      using s1(2) Inr by simp
    show ?thesis
    proof (intro conjI impI allI)
      show "table_frame sb s t"
        using table_frame_trans s1(1) ih by blast
      fix c' p
      assume a: "r = Inr ()" "c' < unat (fat_count sb)" "p < 8 * table_size sb"
      have "table_bit t sb c' p = (if c' \<in> set cs then set_bits start width v (table_bit u sb c') p else table_bit u sb c' p)"
        using ih a by blast
      moreover have "table_bit u sb c' p = (if c' = c then set_bits start width v (table_bit s sb c) p else table_bit s sb c' p)"
        using cp a unfolding copy_set_def by blast
      moreover have "c \<notin> set cs"
        using Cons.prems(4) by simp
      ultimately show "table_bit t sb c' p = (if c' \<in> set (c # cs) then set_bits start width v (table_bit s sb c') p else table_bit s sb c' p)"
        by (auto simp: set_bits_def)
    qed
  qed
qed

end
