(* ===== verification/Fat_Variants.thy ===== *)
theory Fat_Variants
  imports Fat_Table
begin

text \<open>
  The contract of \<open>struct fat_variant_ops\<close>, proved for the three variants of the file allocation table: entries are bit fields of
  the table, reading gives the field and setting changes the field in every copy of the table and nothing else.
\<close>

section \<open>The contract\<close>

text \<open>The entry of a copy of the table, as the number its bits represent; entries begin \<open>stride\<close> bits apart and have \<open>width\<close> bits.\<close>

definition table_entry :: "nat \<Rightarrow> nat \<Rightarrow> blk \<Rightarrow> fat_super \<Rightarrow> nat \<Rightarrow> nat \<Rightarrow> u32" where
  "table_entry stride width s sb c i = horner_sum of_bool 2 (map (\<lambda>k. table_bit s sb c (stride * i + k)) [0..<width])"

lemma bit_table_entry:
  assumes "width \<le> 32"
  shows "bit (table_entry stride width s sb c i) k \<longleftrightarrow> k < width \<and> table_bit s sb c (stride * i + k)"
  using assms by (auto simp: table_entry_def bit_horner_sum_bit_iff)

locale fat_variant =
  fixes get :: "fat_super \<Rightarrow> u32 \<Rightarrow> (blk, u32) io"
    and put :: "fat_super \<Rightarrow> u32 \<Rightarrow> u32 \<Rightarrow> (blk, unit) io"
    and type :: fat_type
    and stride width :: nat
  assumes sizes: "0 < width" "width \<le> stride" "width \<le> 32"
    and get_law: "vol_ok s sb \<Longrightarrow> sb_type sb = type \<Longrightarrow> unat i < unat (cluster_count sb) + 2 \<Longrightarrow> get sb i s = (r, t) \<Longrightarrow>
      same_blocks s t \<and> (\<forall>v. r = Inr v \<longrightarrow> (\<forall>k. bit v k \<longleftrightarrow> k < width \<and> table_bit s sb 0 (stride * unat i + k)))"
    and set_law: "vol_ok s sb \<Longrightarrow> sb_type sb = type \<Longrightarrow> unat i < unat (cluster_count sb) + 2 \<Longrightarrow> unat v < 2 ^ width \<Longrightarrow>
      put sb i v s = (q, t) \<Longrightarrow>
      table_frame sb s t \<and> (q = Inr () \<longrightarrow> (\<forall>c < unat (fat_count sb). \<forall>p < 8 * table_size sb.
        table_bit t sb c p = set_bits (stride * unat i) width v (table_bit s sb c) p))"
    and fits: "vol_ok s sb \<Longrightarrow> sb_type sb = type \<Longrightarrow> j < unat (cluster_count sb) + 2 \<Longrightarrow> stride * j + width \<le> 8 * table_size sb"
begin

abbreviation entry :: "blk \<Rightarrow> fat_super \<Rightarrow> nat \<Rightarrow> nat \<Rightarrow> u32" where
  "entry \<equiv> table_entry stride width"

lemma bit_entry: "bit (entry s sb c i) k \<longleftrightarrow> k < width \<and> table_bit s sb c (stride * i + k)"
  by (rule bit_table_entry [OF sizes(3)])

lemma get_entry:
  assumes "vol_ok s sb" "sb_type sb = type" "unat i < unat (cluster_count sb) + 2" "get sb i s = (r, t)"
  shows "same_blocks s t" "r = Inr v \<Longrightarrow> v = entry s sb 0 (unat i)"
proof -
  show "same_blocks s t"
    using get_law [OF assms] by blast
  assume "r = Inr v"
  then have "bit v k \<longleftrightarrow> k < width \<and> table_bit s sb 0 (stride * unat i + k)" for k
    using get_law [OF assms] by blast
  then show "v = entry s sb 0 (unat i)"
    by (intro bit_word_eqI) (simp add: bit_entry)
qed

lemma put_entry:
  assumes "vol_ok s sb" "sb_type sb = type" "unat i < unat (cluster_count sb) + 2" "unat v < 2 ^ width" "put sb i v s = (r, t)"
  shows "table_frame sb s t"
    "r = Inr () \<Longrightarrow> c < unat (fat_count sb) \<Longrightarrow> j < unat (cluster_count sb) + 2 \<Longrightarrow>
       entry t sb c j = (if j = unat i then v else entry s sb c j)"
proof -
  note l = set_law [OF assms]
  show "table_frame sb s t"
    using l by blast
  assume a: "r = Inr ()" "c < unat (fat_count sb)" "j < unat (cluster_count sb) + 2"
  have v: "bit v k \<Longrightarrow> k < width" for k
    using assms(4) by (metis bit_take_bit_iff take_bit_nat_eq_self unsigned_take_bit_eq word_unat_eq_iff)
  have b: "table_bit t sb c (stride * j + k) = set_bits (stride * unat i) width v (table_bit s sb c) (stride * j + k)" if "k < width" for k
    using l a fits [OF assms(1,2) a(3)] that by simp
  have other: "set_bits (stride * unat i) width v f (stride * j + k) = f (stride * j + k)" if "k < width" "j \<noteq> unat i" for f k
  proof -
    have "stride * Suc j \<le> stride * unat i \<or> stride * Suc (unat i) \<le> stride * j"
      using that(2) by (metis Suc_leI linorder_neqE_nat mult_le_mono2)
    then show ?thesis
      using that(1) sizes(2) by (auto simp: set_bits_def)
  qed
  show "entry t sb c j = (if j = unat i then v else entry s sb c j)"
  proof (rule bit_word_eqI)
    fix k
    show "bit (entry t sb c j) k = bit (if j = unat i then v else entry s sb c j) k"
      using b [of k] other [of k] v [of k] by (auto simp: bit_entry set_bits_def)
  qed
qed

end

section \<open>The three variants\<close>

lemma cluster_count_word:
  assumes "vol_ok s sb"
  shows "unat (cluster_count sb + 2) = unat (cluster_count sb) + 2"
proof -
  have l: "fat_layout sb (bsector_count (bdevs s (sb_bdev sb)))"
    using assms by (simp add: vol_ok_def)
  have "0 < unat (fat_count sb) * unat (fat_sectors sb)" "unat (cluster_count sb) \<le> unat (cluster_count sb) * unat (sectors_per_cluster sb)"
    using l by (simp_all add: fat_layout_def)
  then have "unat (cluster_count sb) + 2 \<le> unat (volume_sectors sb)"
    using l unfolding fat_layout_def by linarith
  then show ?thesis
    using unat_less_32 [of "volume_sectors sb"] by (simp add: unat_word_ariths)
qed

lemma index_ok:
  assumes "vol_ok s sb" "unat i < unat (cluster_count sb) + 2"
  shows "\<not> i \<ge> cluster_count sb + 2"
  using assms cluster_count_word [OF assms(1)] by (simp add: word_le_nat_alt)

lemma entry_in_table:
  assumes "vol_ok s sb" "unat i < unat (cluster_count sb) + 2"
  shows "entry_end (sb_type sb) (unat i) < table_size sb" "table_size sb < 2 ^ 32"
  using vol_okD(4,7) [OF assms(1)] assms(2) by (simp_all add: table_size_def)

subsection \<open>FAT16\<close>

lemma fat16_offset:
  assumes "vol_ok s sb" "sb_type sb = FAT_TYPE_16" "unat i < unat (cluster_count sb) + 2"
  shows "unat (i * 2) = unat i * 2" "unat (i * 2) + 1 < table_size sb" "\<not> i * 2 + 1 \<ge> fat_sectors sb * bps sb"
    "unat i * 2 mod 512 + 1 < 512" "unat i * 2 div 512 * 512 + unat i * 2 mod 512 = unat i * 2"
proof -
  have e: "unat i * 2 + 1 < table_size sb"
    using entry_in_table(1) [OF assms(1,3)] assms(2) by (simp add: entry_end_def)
  then show u: "unat (i * 2) = unat i * 2"
    using entry_in_table(2) [OF assms(1,3)] by (simp add: unat_word_ariths)
  have "unat (i * 2 + 1) = unat i * 2 + 1"
    using u e entry_in_table(2) [OF assms(1,3)] by (simp add: unat_word_ariths)
  then show "\<not> i * 2 + 1 \<ge> fat_sectors sb * bps sb"
    using e table_size_word [OF assms(1)] by (simp add: word_le_nat_alt)
  show "unat (i * 2) + 1 < table_size sb"
    using e u by simp
  have "unat i * 2 mod 512 = 2 * (unat i mod 256)"
    using mod_mult_mult1 [of 2 "unat i" 256] by (simp add: mult.commute)
  then show "unat i * 2 mod 512 + 1 < 512"
    using mod_less_divisor [of 256 "unat i"] by linarith
  show "unat i * 2 div 512 * 512 + unat i * 2 mod 512 = unat i * 2"
    by (rule div_mult_mod_eq)
qed

lemma fat16_get_law:
  assumes "vol_ok s sb" "sb_type sb = FAT_TYPE_16" "unat i < unat (cluster_count sb) + 2" "fat16_get sb i s = (r, t)"
  shows "same_blocks s t \<and> (\<forall>v. r = Inr v \<longrightarrow> (\<forall>k. bit v k \<longleftrightarrow> k < 16 \<and> table_bit s sb 0 (16 * unat i + k)))"
proof -
  note o = fat16_offset [OF assms(1-3)]
  have lt: "unat (i * 2) < table_size sb"
    using o(2) by simp
  note a = table_offset(1) [OF assms(1) lt, of 0] table_offset(2,3) [OF assms(1) lt]
  let ?q = "unat i * 2 div 512" and ?m = "unat i * 2 mod 512"
  have eq: "fat16_get sb i s = bindE (fat_read_sector sb (table_lba sb 0 ?q)) (\<lambda>buf. retE (ucast (buf ! ?m) OR push_bit 8 (ucast (buf ! (?m + 1))))) s"
    using index_ok [OF assms(1,3)] o(1,3) a by (simp add: fat16_get_def Let_def)
  obtain q u where rd: "fat_read_sector sb (table_lba sb 0 ?q) s = (q, u)"
    by (cases "fat_read_sector sb (table_lba sb 0 ?q) s")
  have "t = u" "\<forall>v. r = Inr v \<longrightarrow> (\<exists>buf. q = Inr buf \<and> v = ucast (buf ! ?m) OR push_bit 8 (ucast (buf ! (?m + 1))))"
    using assms(4) rd by (auto simp: eq bindE_def split: sum.splits)
  moreover have "buf ! ?m = table_byte s sb 0 (unat i * 2)" "buf ! (?m + 1) = table_byte s sb 0 (Suc (unat i * 2))" if "q = Inr buf" for buf
  proof -
    have "\<forall>m < 512. buf ! m = table_byte s sb 0 (?q * 512 + m)"
      using read_table_sector(2) [OF assms(1) rd that] by blast
    from spec [OF this, of ?m] spec [OF this, of "?m + 1"] show "buf ! ?m = table_byte s sb 0 (unat i * 2)"
        "buf ! (?m + 1) = table_byte s sb 0 (Suc (unat i * 2))"
      using o(4,5) by simp_all
  qed
  ultimately show ?thesis
    using read_table_sector(1) [OF assms(1) rd] loaded_bits [OF refl refl, of _ "table_byte s sb 0" "unat i * 2"]
    by (auto simp: pair_bits table_bit_def)
qed

text \<open>Reading a sector of the table, changing it and writing it back.\<close>

lemma table_rmw:
  assumes "vol_ok s sb" "c < unat (fat_count sb)" "q < unat (fat_sectors sb)" "\<And>bs. length (g bs) = length bs"
    "bindE (fat_read_sector sb (table_lba sb c q)) (\<lambda>bs. fat_write_sector sb (table_lba sb c q) (g bs)) s = (r, t)"
  shows "table_frame sb s t \<and> (r = Inr () \<longrightarrow> (\<exists>bs. length bs = 512 \<and> (\<forall>m < 512. bs ! m = table_byte s sb c (q * 512 + m)) \<and>
    (\<forall>c' < unat (fat_count sb). \<forall>n < table_size sb.
       table_byte t sb c' n = (if c' = c \<and> n div 512 = q then g bs ! (n mod 512) else table_byte s sb c' n))))"
proof -
  obtain x u where rd: "fat_read_sector sb (table_lba sb c q) s = (x, u)"
    by (cases "fat_read_sector sb (table_lba sb c q) s")
  have su: "same_blocks s u"
    using read_table_sector(1) [OF assms(1) rd] .
  show ?thesis
  proof (cases x)
    case (Inl e)
    then show ?thesis
      using assms(1,5) rd table_frame_same [OF su] by (auto simp: bindE_def)
  next
    case (Inr bs)
    have bs: "length bs = 512" "\<forall>m < 512. bs ! m = table_byte s sb c (q * 512 + m)"
      using read_table_sector(2) [OF assms(1) rd Inr] by blast+
    have wr: "fat_write_sector sb (table_lba sb c q) (g bs) u = (r, t)"
      using assms(5) rd Inr by (simp add: bindE_def)
    note w = write_table_sector [OF same_blocks_vol [OF su assms(1)] assms(2,3) _ wr]
    have len: "length (g bs) = 512"
      using assms(4) bs(1) by simp
    have "table_byte u sb c' n = table_byte s sb c' n" for c' n
      by (simp add: table_byte_def same_blocks_sector [OF su])
    then show ?thesis
      using table_frame_trans [OF table_frame_same [OF su assms(1)] w(1) [OF len]] w(2) [OF len] bs by auto
  qed
qed

text \<open>Storing the bytes of a word at an offset changes the bits of the word's width from there on.\<close>

definition stored :: "fat_super \<Rightarrow> nat \<Rightarrow> nat \<Rightarrow> nat \<Rightarrow> 'a :: len word \<Rightarrow> blk \<Rightarrow> blk \<Rightarrow> bool" where
  "stored sb c off m e s t \<longleftrightarrow> (\<forall>c' < unat (fat_count sb). \<forall>n < table_size sb.
     table_byte t sb c' n = (if c' = c \<and> off \<le> n \<and> n < off + m then ucast (drop_bit (8 * (n - off)) e) else table_byte s sb c' n))"

lemma stored_table_bit:
  fixes e :: "'a :: len word"
  assumes "stored sb c off m e s t" "8 * m \<le> LENGTH('a)" "c' < unat (fat_count sb)" "p < 8 * table_size sb"
  shows "table_bit t sb c' p = (if c' = c \<and> 8 * off \<le> p \<and> p < 8 * off + 8 * m then bit e (p - 8 * off) else table_bit s sb c' p)"
proof -
  have "p div 8 < table_size sb"
    using assms(4) by (simp add: less_mult_imp_div_less mult.commute)
  then have b: "table_byte t sb c' (p div 8) =
      (if c' = c \<and> off \<le> p div 8 \<and> p div 8 < off + m then ucast (drop_bit (8 * (p div 8 - off)) e) else table_byte s sb c' (p div 8))"
    using assms(1,3) unfolding stored_def by blast
  show ?thesis
  proof (cases "c' = c")
    case True
    then show ?thesis
      using stored_bits [OF assms(2), of "table_byte t sb c'" p off e "table_byte s sb c'"] b unfolding table_bit_def by simp
  next
    case False
    then show ?thesis
      using b by (simp add: table_bit_def)
  qed
qed

lemma in_sector:
  fixes n :: nat
  assumes "x + m \<le> 512"
  shows "q * 512 + x \<le> n \<and> n < q * 512 + x + m \<longleftrightarrow> n div 512 = q \<and> x \<le> n mod 512 \<and> n mod 512 < x + m"
proof -
  have n: "n = n div 512 * 512 + n mod 512" "n mod 512 < 512"
    by simp_all
  show ?thesis
  proof
    assume a: "q * 512 + x \<le> n \<and> n < q * 512 + x + m"
    then have "n div 512 = q"
      using assms by (intro div_nat_eqI) auto
    then show "n div 512 = q \<and> x \<le> n mod 512 \<and> n mod 512 < x + m"
      using a n by simp
  next
    assume "n div 512 = q \<and> x \<le> n mod 512 \<and> n mod 512 < x + m"
    then show "q * 512 + x \<le> n \<and> n < q * 512 + x + m"
      using n(1) by auto
  qed
qed

lemma table_rmw_stored:
  fixes e :: "u8 list \<Rightarrow> 'a :: len word"
  assumes "vol_ok s sb" "c < unat (fat_count sb)" "q < unat (fat_sectors sb)" "\<And>bs. length (g bs) = length bs" "x + m \<le> 512"
    "\<And>bs y. length bs = 512 \<Longrightarrow> y < 512 \<Longrightarrow> g bs ! y = (if x \<le> y \<and> y < x + m then ucast (drop_bit (8 * (y - x)) (e bs)) else bs ! y)"
    "bindE (fat_read_sector sb (table_lba sb c q)) (\<lambda>bs. fat_write_sector sb (table_lba sb c q) (g bs)) s = (r, t)"
  shows "table_frame sb s t \<and> (r = Inr () \<longrightarrow> (\<exists>bs. length bs = 512 \<and> (\<forall>m < 512. bs ! m = table_byte s sb c (q * 512 + m)) \<and>
    stored sb c (q * 512 + x) m (e bs) s t))"
proof -
  note w = table_rmw [OF assms(1-3) _ assms(7)]
  have st: "stored sb c (q * 512 + x) m (e bs) s t"
    if bs: "length bs = 512" "\<forall>m < 512. bs ! m = table_byte s sb c (q * 512 + m)"
      and tb: "\<forall>c' < unat (fat_count sb). \<forall>n < table_size sb.
        table_byte t sb c' n = (if c' = c \<and> n div 512 = q then g bs ! (n mod 512) else table_byte s sb c' n)" for bs
    unfolding stored_def
  proof (intro allI impI)
    fix c' n
    assume n: "c' < unat (fat_count sb)" "n < table_size sb"
    have old: "n div 512 = q \<Longrightarrow> bs ! (n mod 512) = table_byte s sb c n"
      using bs(2) div_mult_mod_eq [of n 512] by auto
    have new: "n div 512 = q \<Longrightarrow> x \<le> n mod 512 \<Longrightarrow> n mod 512 - x = n - (q * 512 + x)"
      using div_mult_mod_eq [of n 512] by auto
    show "table_byte t sb c' n =
        (if c' = c \<and> q * 512 + x \<le> n \<and> n < q * 512 + x + m then ucast (drop_bit (8 * (n - (q * 512 + x))) (e bs)) else table_byte s sb c' n)"
      using tb n assms(6) [OF bs(1), of "n mod 512"] old new unfolding in_sector [OF assms(5)] by auto
  qed
  show ?thesis
    using w [OF assms(4)] st by blast
qed

lemma fat16_copy:
  assumes "vol_ok s sb" "sb_type sb = FAT_TYPE_16" "unat i < unat (cluster_count sb) + 2" "c < unat (fat_count sb)"
    "fat16_set_copy sb i v c s = (r, t)"
  shows "table_frame sb s t \<and> (r = Inr () \<longrightarrow> copy_set sb c (16 * unat i) 16 v s t)"
proof -
  note o = fat16_offset [OF assms(1-3)]
  let ?q = "unat i * 2 div 512" and ?m = "unat i * 2 mod 512"
  have lt: "unat (i * 2) < table_size sb"
    using o(2) by simp
  note a = table_offset(1) [OF assms(1) lt, of c, unfolded o(1)] table_offset(2,3) [OF assms(1) lt, unfolded o(1)]
  define g where "g bs = bs[?m := ucast v, ?m + 1 := ucast (drop_bit 8 v)]" for bs :: "u8 list"
  have eq: "fat16_set_copy sb i v c s = bindE (fat_read_sector sb (table_lba sb c ?q)) (\<lambda>bs. fat_write_sector sb (table_lba sb c ?q) (g bs)) s"
    unfolding fat16_set_copy_def Let_def a(1,3) g_def ..
  have g: "g bs ! y = (if ?m \<le> y \<and> y < ?m + 2 then ucast (drop_bit (8 * (y - ?m)) v) else bs ! y)" if "length bs = 512" "y < 512" for bs y
  proof -
    consider "y = ?m" | "y = ?m + 1" | "y < ?m \<or> ?m + 2 \<le> y"
      by linarith
    then show ?thesis
      using that o(4) by cases (auto simp: g_def nth_list_update)
  qed
  have "table_frame sb s t \<and> (r = Inr () \<longrightarrow> (\<exists>bs. length bs = 512 \<and> (\<forall>m < 512. bs ! m = table_byte s sb c (?q * 512 + m)) \<and>
      stored sb c (?q * 512 + ?m) 2 v s t))"
    by (rule table_rmw_stored [OF assms(1,4) a(2), where g = g]) (use g o(4) assms(5) in \<open>auto simp: g_def eq\<close>)
  then have st: "table_frame sb s t" "r = Inr () \<longrightarrow> stored sb c (unat i * 2) 2 v s t"
    unfolding o(5) by blast+
  then show ?thesis
    using stored_table_bit [of sb c "unat i * 2" 2 v s t] by (auto simp: copy_set_def set_bits_def)
qed

lemma fat16_set_law:
  assumes "vol_ok s sb" "sb_type sb = FAT_TYPE_16" "unat i < unat (cluster_count sb) + 2" "unat v < 2 ^ 16" "fat16_set sb i v s = (r, t)"
  shows "table_frame sb s t \<and> (r = Inr () \<longrightarrow> (\<forall>c < unat (fat_count sb). \<forall>p < 8 * table_size sb.
    table_bit t sb c p = set_bits (16 * unat i) 16 v (table_bit s sb c) p))"
proof -
  have "\<not> v > 0xFFFF"
    using assms(4) by (simp add: word_less_nat_alt)
  then have "eachE (fat16_set_copy sb i v) [0..<unat (fat_count sb)] s = (r, t)"
    using assms(5) index_ok [OF assms(1,3)] fat16_offset(3) [OF assms(1-3)] vol_okD(2) [OF assms(1)] by (simp add: fat16_set_def)
  from each_copy [OF fat16_copy [OF _ assms(2,3)] assms(1) this] show ?thesis
    by (auto simp: atLeast0LessThan)
qed

interpretation fat16: fat_variant fat16_get fat16_set FAT_TYPE_16 16 16
proof
  show "16 * j + 16 \<le> 8 * table_size sb" if "vol_ok s sb" "sb_type sb = FAT_TYPE_16" "j < unat (cluster_count sb) + 2" for s sb j
    using vol_okD(7) [OF that(1)] that(2,3) by (auto simp: entry_end_def dest!: spec [of _ j])
qed (simp_all add: fat16_get_law fat16_set_law)

subsection \<open>FAT32\<close>

lemma fat32_offset:
  assumes "vol_ok s sb" "sb_type sb = FAT_TYPE_32" "unat i < unat (cluster_count sb) + 2"
  shows "unat (i * 4) = unat i * 4" "unat (i * 4) + 3 < table_size sb" "\<not> i * 4 + 3 \<ge> fat_sectors sb * bps sb"
    "unat i * 4 mod 512 + 3 < 512" "unat i * 4 div 512 * 512 + unat i * 4 mod 512 = unat i * 4"
proof -
  have e: "unat i * 4 + 3 < table_size sb"
    using entry_in_table(1) [OF assms(1,3)] assms(2) by (simp add: entry_end_def)
  then show u: "unat (i * 4) = unat i * 4"
    using entry_in_table(2) [OF assms(1,3)] by (simp add: unat_word_ariths)
  have "unat (i * 4 + 3) = unat i * 4 + 3"
    using u e entry_in_table(2) [OF assms(1,3)] by (simp add: unat_word_ariths)
  then show "\<not> i * 4 + 3 \<ge> fat_sectors sb * bps sb"
    using e table_size_word [OF assms(1)] by (simp add: word_le_nat_alt)
  show "unat (i * 4) + 3 < table_size sb"
    using e u by simp
  have "unat i * 4 mod 512 = 4 * (unat i mod 128)"
    using mod_mult_mult1 [of 4 "unat i" 128] by (simp add: mult.commute)
  then show "unat i * 4 mod 512 + 3 < 512"
    using mod_less_divisor [of 128 "unat i"] by linarith
  show "unat i * 4 div 512 * 512 + unat i * 4 mod 512 = unat i * 4"
    by (rule div_mult_mod_eq)
qed

lemma quad_bits:
  fixes b0 b1 b2 b3 :: u8
  assumes "b0 = B off" "b1 = B (off + 1)" "b2 = B (off + 2)" "b3 = B (off + 3)" "k < 32"
  shows "bit (ucast b0 OR push_bit 8 (ucast b1) OR push_bit 16 (ucast b2) OR push_bit 24 (ucast b3) :: u32) k =
    bit (B ((8 * off + k) div 8)) ((8 * off + k) mod 8)"
proof -
  have d: "(8 * off + k) div 8 = off + k div 8" "(8 * off + k) mod 8 = k mod 8"
    by simp_all
  consider "k < 8" | "8 \<le> k" "k < 16" | "16 \<le> k" "k < 24" | "24 \<le> k"
    by linarith
  then show ?thesis
  proof cases
    case 1
    then show ?thesis
      unfolding d using assms by (simp add: bit_simps)
  next
    case 2
    then have q: "k div 8 = 1"
      using assms(5) by (intro div_nat_eqI) auto
    then have "k mod 8 = k - 8"
      using div_mult_mod_eq [of k 8] by simp
    with q show ?thesis
      unfolding d using 2 assms by (auto simp: bit_simps dest: bit_imp_le_length)
  next
    case 3
    then have q: "k div 8 = 2"
      using assms(5) by (intro div_nat_eqI) auto
    then have "k mod 8 = k - 16"
      using div_mult_mod_eq [of k 8] by simp
    with q show ?thesis
      unfolding d using 3 assms by (auto simp: bit_simps dest: bit_imp_le_length)
  next
    case 4
    then have q: "k div 8 = 3"
      using assms(5) by (intro div_nat_eqI) auto
    then have "k mod 8 = k - 24"
      using div_mult_mod_eq [of k 8] by simp
    with q show ?thesis
      unfolding d using 4 assms by (auto simp: bit_simps dest: bit_imp_le_length)
  qed
qed

lemma mask28: "(0x0FFFFFFF :: u32) = mask 28"
  by (simp add: mask_eq_exp_minus_1)

lemma fat32_get_law:
  assumes "vol_ok s sb" "sb_type sb = FAT_TYPE_32" "unat i < unat (cluster_count sb) + 2" "fat32_get sb i s = (r, t)"
  shows "same_blocks s t \<and> (\<forall>v. r = Inr v \<longrightarrow> (\<forall>k. bit v k \<longleftrightarrow> k < 28 \<and> table_bit s sb 0 (32 * unat i + k)))"
proof -
  note o = fat32_offset [OF assms(1-3)]
  have lt: "unat (i * 4) < table_size sb"
    using o(2) by simp
  let ?q = "unat i * 4 div 512" and ?m = "unat i * 4 mod 512"
  note a = table_offset(1) [OF assms(1) lt, of 0, unfolded o(1)] table_offset(3) [OF assms(1) lt, unfolded o(1)]
  define val where "val buf = (ucast (buf ! ?m) OR push_bit 8 (ucast (buf ! (?m + 1))) OR push_bit 16 (ucast (buf ! (?m + 2))) OR
      push_bit 24 (ucast (buf ! (?m + 3))) :: u32)" for buf :: "u8 list"
  have eq: "fat32_get sb i s = bindE (fat_read_sector sb (table_lba sb 0 ?q)) (\<lambda>buf. retE (val buf AND 0x0FFFFFFF)) s"
    using index_ok [OF assms(1,3)] o(3) a by (simp add: fat32_get_def Let_def val_def)
  obtain q u where rd: "fat_read_sector sb (table_lba sb 0 ?q) s = (q, u)"
    by (cases "fat_read_sector sb (table_lba sb 0 ?q) s")
  have res: "t = u" "\<forall>v. r = Inr v \<longrightarrow> (\<exists>buf. q = Inr buf \<and> v = val buf AND 0x0FFFFFFF)"
    using assms(4) rd by (auto simp: eq bindE_def split: sum.splits)
  have bits: "bit (val buf) k = table_bit s sb 0 (32 * unat i + k)" if "q = Inr buf" "k < 32" for buf k
  proof -
    have b: "buf ! (?m + j) = table_byte s sb 0 (unat i * 4 + j)" if "j < 4" for j
    proof -
      have "buf ! (?m + j) = table_byte s sb 0 (?q * 512 + (?m + j))"
        using read_table_sector(2) [OF assms(1) rd \<open>q = Inr buf\<close>] o(4) that by simp
      then show ?thesis
        using o(5) by (simp only: add.assoc [symmetric])
    qed
    have "32 * unat i + k = 8 * (unat i * 4) + k"
      by simp
    then show ?thesis
      unfolding val_def table_bit_def using quad_bits [of _ "table_byte s sb 0" "unat i * 4", OF _ _ _ _ that(2)] b [of 0] b [of 1] b [of 2] b [of 3]
      by simp
  qed
  show ?thesis
    using read_table_sector(1) [OF assms(1) rd] res bits by (auto simp: mask28 bit_and_iff bit_mask_iff)
qed

text \<open>What is stored in a copy: the value with the upper four bits the copy already has.\<close>

definition merge32 :: "u32 \<Rightarrow> u8 \<Rightarrow> u32" where
  "merge32 v b = (v AND 0x0FFFFFFF) OR push_bit 24 (ucast b AND 0xF0)"

lemma merge32_bits: "k < 28 \<Longrightarrow> bit (merge32 v b) k = bit v k" "28 \<le> k \<Longrightarrow> k < 32 \<Longrightarrow> bit (merge32 v b) k = bit b (k - 24)"
proof -
  have m: "(0xF0 :: u32) = push_bit 4 (mask 4)"
    by (simp add: mask_eq_exp_minus_1 push_bit_eq_mult)
  show "k < 28 \<Longrightarrow> bit (merge32 v b) k = bit v k" "28 \<le> k \<Longrightarrow> k < 32 \<Longrightarrow> bit (merge32 v b) k = bit b (k - 24)"
    unfolding merge32_def mask28 m by (auto simp: bit_simps)
qed

definition fat32_copy :: "fat_super \<Rightarrow> u32 \<Rightarrow> u32 \<Rightarrow> nat \<Rightarrow> (blk, unit) io" where
  "fat32_copy sb i v c =
     (let lba = fat_start sb + of_nat c * fat_sectors sb + (i * 4) div bps sb; m = unat ((i * 4) mod bps sb)
      in bindE (fat_read_sector sb lba) (\<lambda>bs.
         let e = merge32 v (bs ! (m + 3))
         in fat_write_sector sb lba
              (bs[m := ucast e, m + 1 := ucast (drop_bit 8 e), m + 2 := ucast (drop_bit 16 e), m + 3 := ucast (drop_bit 24 e)])))"

lemma merge32_again [simp]: "merge32 (merge32 v b) b' = merge32 v b'"
proof (rule bit_word_eqI)
  fix k
  assume "k < LENGTH(32)"
  then show "bit (merge32 (merge32 v b) b') k = bit (merge32 v b') k"
    by (cases "k < 28") (simp_all add: merge32_bits)
qed

lemma bindE_assoc: "bindE (bindE m f) g = bindE m (\<lambda>x. bindE (f x) g)"
  by (rule ext) (simp add: bindE_def split: prod.split sum.split)

text \<open>Carrying the merged value from copy to copy makes no difference.\<close>

lemma fat32_set_loop_each: "fat32_set_loop sb i v cs = eachE (fat32_copy sb i v) cs"
proof (induction cs arbitrary: v)
  case (Cons c cs)
  have "fat32_copy sb i (merge32 v b) = fat32_copy sb i v" for b
    by (rule ext) (simp add: fat32_copy_def)
  then have ih: "fat32_set_loop sb i (merge32 v b) cs = eachE (fat32_copy sb i v) cs" for b
    using Cons.IH by simp
  show ?case
    unfolding fat32_set_loop.simps eachE.simps fat32_copy_def [of sb i v c] Let_def bindE_assoc merge32_def [symmetric] ih ..
qed simp

lemma fat32_copy_law:
  assumes "vol_ok s sb" "sb_type sb = FAT_TYPE_32" "unat i < unat (cluster_count sb) + 2" "c < unat (fat_count sb)"
    "fat32_copy sb i v c s = (r, t)"
  shows "table_frame sb s t \<and> (r = Inr () \<longrightarrow> copy_set sb c (32 * unat i) 28 v s t)"
proof -
  note o = fat32_offset [OF assms(1-3)]
  let ?q = "unat i * 4 div 512" and ?m = "unat i * 4 mod 512"
  have lt: "unat (i * 4) < table_size sb"
    using o(2) by simp
  note a = table_offset(1) [OF assms(1) lt, of c, unfolded o(1)] table_offset(2,3) [OF assms(1) lt, unfolded o(1)]
  define e where "e bs = merge32 v (bs ! (?m + 3))" for bs
  define g where "g bs = bs[?m := ucast (e bs), ?m + 1 := ucast (drop_bit 8 (e bs)), ?m + 2 := ucast (drop_bit 16 (e bs)),
      ?m + 3 := ucast (drop_bit 24 (e bs))]" for bs :: "u8 list"
  have eq: "fat32_copy sb i v c s = bindE (fat_read_sector sb (table_lba sb c ?q)) (\<lambda>bs. fat_write_sector sb (table_lba sb c ?q) (g bs)) s"
    unfolding fat32_copy_def Let_def a(1,3) g_def e_def ..
  have g: "g bs ! y = (if ?m \<le> y \<and> y < ?m + 4 then ucast (drop_bit (8 * (y - ?m)) (e bs)) else bs ! y)" if "length bs = 512" "y < 512" for bs y
  proof -
    consider "y = ?m" | "y = ?m + 1" | "y = ?m + 2" | "y = ?m + 3" | "y < ?m \<or> ?m + 4 \<le> y"
      by linarith
    then show ?thesis
      using that o(4) by cases (auto simp: g_def nth_list_update)
  qed
  have st: "table_frame sb s t \<and> (r = Inr () \<longrightarrow> (\<exists>bs. length bs = 512 \<and> (\<forall>m < 512. bs ! m = table_byte s sb c (?q * 512 + m)) \<and>
      stored sb c (?q * 512 + ?m) 4 (e bs) s t))"
  proof (rule table_rmw_stored [OF assms(1,4) a(2), where g = g and x = ?m and m = 4 and e = e])
    show "length (g bs) = length bs" for bs
      by (simp add: g_def)
    show "?m + 4 \<le> 512"
      using o(4) by simp
    show "bindE (fat_read_sector sb (table_lba sb c ?q)) (\<lambda>bs. fat_write_sector sb (table_lba sb c ?q) (g bs)) s = (r, t)"
      using assms(5) eq by simp
  qed (rule g)
  have "copy_set sb c (32 * unat i) 28 v s t"
    if bs: "\<forall>m < 512. bs ! m = table_byte s sb c (?q * 512 + m)" and sto: "stored sb c (unat i * 4) 4 (e bs) s t" for bs
    unfolding copy_set_def
  proof (intro allI impI)
    fix c' p
    assume p: "c' < unat (fat_count sb)" "p < 8 * table_size sb"
    have "bs ! (?m + 3) = table_byte s sb c (?q * 512 + (?m + 3))"
      using bs o(4) by blast
    then have b3: "bs ! (?m + 3) = table_byte s sb c (unat i * 4 + 3)"
      using o(5) by (simp only: add.assoc [symmetric])
    have up: "table_bit s sb c p = bit (e bs) (p - 32 * unat i)" if r: "32 * unat i + 28 \<le> p" "p < 32 * unat i + 32"
    proof -
      have "p div 8 = unat i * 4 + 3"
        using r by (intro div_nat_eqI) auto
      moreover from this have "p mod 8 = p - 32 * unat i - 24"
        using div_mult_mod_eq [of p 8] by simp
      ultimately show ?thesis
        using r b3 by (simp add: table_bit_def e_def merge32_bits(2))
    qed
    show "table_bit t sb c' p = (if c' = c then set_bits (32 * unat i) 28 v (table_bit s sb c) p else table_bit s sb c' p)"
      using stored_table_bit [OF sto _ p] up merge32_bits(1) [of "p - 32 * unat i" v "bs ! (?m + 3)"]
      by (auto simp: set_bits_def e_def)
  qed
  then show ?thesis
    using st unfolding o(5) by blast
qed

lemma fat32_set_law:
  assumes "vol_ok s sb" "sb_type sb = FAT_TYPE_32" "unat i < unat (cluster_count sb) + 2" "unat v < 2 ^ 28" "fat32_set sb i v s = (r, t)"
  shows "table_frame sb s t \<and> (r = Inr () \<longrightarrow> (\<forall>c < unat (fat_count sb). \<forall>p < 8 * table_size sb.
    table_bit t sb c p = set_bits (32 * unat i) 28 v (table_bit s sb c) p))"
proof -
  have "eachE (fat32_copy sb i v) [0..<unat (fat_count sb)] s = (r, t)"
    using assms(5) index_ok [OF assms(1,3)] fat32_offset(3) [OF assms(1-3)] vol_okD(2) [OF assms(1)]
    by (simp add: fat32_set_def fat32_set_loop_each)
  from each_copy [OF fat32_copy_law [OF _ assms(2,3)] assms(1) this] show ?thesis
    by (auto simp: atLeast0LessThan)
qed

interpretation fat32: fat_variant fat32_get fat32_set FAT_TYPE_32 32 28
proof
  show "32 * j + 28 \<le> 8 * table_size sb" if "vol_ok s sb" "sb_type sb = FAT_TYPE_32" "j < unat (cluster_count sb) + 2" for s sb j
    using vol_okD(7) [OF that(1)] that(2,3) by (auto simp: entry_end_def dest!: spec [of _ j])
qed (simp_all add: fat32_get_law fat32_set_law)

subsection \<open>FAT12\<close>

definition offset12 :: "nat \<Rightarrow> nat" where
  "offset12 i = i + i div 2"

lemma offset12_bits: "12 * i = 8 * offset12 i + (if odd i then 4 else 0)"
  by (cases "even i") (auto simp: offset12_def elim!: evenE oddE)

lemma fat12_offset:
  assumes "vol_ok s sb" "sb_type sb = FAT_TYPE_12" "unat i < unat (cluster_count sb) + 2"
  shows "unat (i + i div 2) = offset12 (unat i)" "offset12 (unat i) + 1 < table_size sb" "\<not> i + i div 2 + 1 \<ge> fat_sectors sb * bps sb"
proof -
  show e: "offset12 (unat i) + 1 < table_size sb"
    using entry_in_table(1) [OF assms(1,3)] assms(2) by (simp add: entry_end_def offset12_def)
  show u: "unat (i + i div 2) = offset12 (unat i)"
    using e entry_in_table(2) [OF assms(1,3)] by (simp add: unat_word_ariths unat_div offset12_def)
  have "unat (i + i div 2 + 1) = offset12 (unat i) + 1"
    using u e entry_in_table(2) [OF assms(1,3)] by (simp add: unat_word_ariths)
  then show "\<not> i + i div 2 + 1 \<ge> fat_sectors sb * bps sb"
    using e table_size_word [OF assms(1)] by (simp add: word_le_nat_alt)
qed

lemma odd_index: "(i :: u32) AND 1 \<noteq> 0 \<longleftrightarrow> odd (unat i)"
  by (simp add: and_one_eq word_unat_eq_iff [of "i mod 2"] unat_mod odd_iff_mod_2_eq_one)

lemma table_lba_Suc: "table_lba sb c q + 1 = table_lba sb c (Suc q)"
  by (simp add: table_lba_def)

lemma next_byte:
  assumes "n mod 512 = 511"
  shows "Suc n div 512 = Suc (n div 512)" "Suc n mod 512 = 0"
  using assms by (simp_all add: div_Suc mod_Suc)

lemma mask12: "(0x0FFF :: u16) = mask 12" "(0x0FFF :: u32) = mask 12" "(0xF000 :: u16) = push_bit 12 (mask 4)" "(0x000F :: u16) = mask 4"
  by (simp_all add: mask_eq_exp_minus_1 push_bit_eq_mult)

text \<open>The two bytes from an offset on, wherever the second one lies.\<close>

definition next_sector_byte :: "fat_super \<Rightarrow> u32 \<Rightarrow> u32 \<Rightarrow> u8 list \<Rightarrow> (blk, u8) io" where
  "next_sector_byte sb sector off buf =
     (if off + 1 < bps sb then retE (buf ! unat (off + 1)) else bindE (fat_read_sector sb (sector + 1)) (\<lambda>buf. retE (buf ! 0)))"

lemma in_sector_word:
  fixes off :: u32
  assumes "vol_ok s sb"
  shows "(off mod bps sb) + 1 < bps sb \<longleftrightarrow> unat off mod 512 + 1 < 512" "unat (off mod bps sb + 1) = unat off mod 512 + 1"
    "off mod bps sb = bps sb - 1 \<longleftrightarrow> unat off mod 512 = 511"
proof -
  have m: "unat (off mod bps sb) = unat off mod 512"
    using vol_okD(3) [OF assms] by (simp add: unat_mod)
  then show u: "unat (off mod bps sb + 1) = unat off mod 512 + 1"
    using mod_less_divisor [of 512 "unat off"] by (simp add: unat_word_ariths)
  show "(off mod bps sb) + 1 < bps sb \<longleftrightarrow> unat off mod 512 + 1 < 512"
    using u vol_okD(3) [OF assms] by (simp add: word_less_nat_alt)
  show "off mod bps sb = bps sb - 1 \<longleftrightarrow> unat off mod 512 = 511"
    unfolding vol_okD(3) [OF assms] by (simp add: word_unat_eq_iff unat_mod)
qed

lemma next_sector_byte_spec:
  fixes off :: u32
  assumes "vol_ok s sb" "buf ! (Suc (unat off mod 512)) = table_byte s sb c (Suc (unat off)) \<or> unat off mod 512 = 511"
    "next_sector_byte sb (table_lba sb c (unat off div 512)) (off mod bps sb) buf s = (r, t)"
  shows "same_blocks s t \<and> (\<forall>b. r = Inr b \<longrightarrow> b = table_byte s sb c (Suc (unat off)))"
proof (cases "unat off mod 512 = 511")
  case True
  have "bindE (fat_read_sector sb (table_lba sb c (Suc (unat off div 512)))) (\<lambda>buf. retE (buf ! 0)) s = (r, t)"
    using assms(3) in_sector_word(1) [OF assms(1), of off] True by (simp add: next_sector_byte_def table_lba_Suc)
  then obtain q where rd: "fat_read_sector sb (table_lba sb c (Suc (unat off div 512))) s = (q, t)"
      "\<forall>b. r = Inr b \<longrightarrow> (\<exists>buf. q = Inr buf \<and> b = buf ! 0)"
    by (auto simp: bindE_def split: prod.splits sum.splits)
  have "buf ! 0 = table_byte s sb c (Suc (unat off))" if "q = Inr buf" for buf
  proof -
    have "buf ! 0 = table_byte s sb c (Suc (unat off div 512) * 512 + 0)"
      using read_table_sector(2) [OF assms(1) rd(1) that] by simp
    also have "Suc (unat off div 512) * 512 + 0 = Suc (unat off)"
      using div_mult_mod_eq [of "unat off" 512] True by simp
    finally show ?thesis .
  qed
  then show ?thesis
    using rd(2) read_table_sector(1) [OF assms(1) rd(1)] by blast
next
  case False
  then have "unat off mod 512 + 1 < 512"
    using mod_less_divisor [of 512 "unat off"] by linarith
  then show ?thesis
    using assms(2,3) False in_sector_word(1,2) [OF assms(1), of off] by (auto simp: next_sector_byte_def)
qed

lemma read_bits12:
  assumes "b0 = table_byte s sb c (offset12 i)" "b1 = table_byte s sb c (Suc (offset12 i))"
    "v = (let e = ucast b0 OR push_bit 8 (ucast b1) :: u16 in ucast (if odd i then drop_bit 4 e else e AND 0x0FFF))"
  shows "bit (v :: u32) k \<longleftrightarrow> k < 12 \<and> table_bit s sb c (12 * i + k)"
proof -
  define e where "e = (ucast b0 OR push_bit 8 (ucast b1) :: u16)"
  have e: "bit e m \<longleftrightarrow> m < 16 \<and> table_bit s sb c (8 * offset12 i + m)" for m
    using loaded_bits [OF assms(1,2), of m] by (auto simp: e_def pair_bits table_bit_def)
  have v: "v = ucast (if odd i then drop_bit 4 e else e AND 0x0FFF)"
    unfolding assms(3) Let_def e_def ..
  show ?thesis
  proof (cases "odd i")
    case True
    have "bit v k \<longleftrightarrow> bit e (4 + k)"
      using e [of "4 + k"] unfolding v by (auto simp: True bit_ucast_iff bit_drop_bit_eq)
    then show ?thesis
      using e [of "4 + k"] True by (simp add: offset12_bits add.assoc)
  next
    case False
    have "bit v k \<longleftrightarrow> k < 12 \<and> bit e k"
      using e [of k] unfolding v mask12 by (auto simp: False bit_ucast_iff bit_and_iff bit_mask_iff)
    then show ?thesis
      using e [of k] False by (auto simp: offset12_bits)
  qed
qed

lemma fat12_get_law:
  assumes "vol_ok s sb" "sb_type sb = FAT_TYPE_12" "unat i < unat (cluster_count sb) + 2" "fat12_get sb i s = (r, t)"
  shows "same_blocks s t \<and> (\<forall>v. r = Inr v \<longrightarrow> (\<forall>k. bit v k \<longleftrightarrow> k < 12 \<and> table_bit s sb 0 (12 * unat i + k)))"
proof -
  note o = fat12_offset [OF assms(1-3)]
  let ?off = "i + i div 2" and ?n = "offset12 (unat i)"
  define val :: "u8 \<Rightarrow> u8 \<Rightarrow> u32" where "val b0 b1 = (let e = ucast b0 OR push_bit 8 (ucast b1) :: u16
      in ucast (if odd (unat i) then drop_bit 4 e else e AND 0x0FFF))" for b0 b1
  have lt: "unat ?off < table_size sb"
    using o(1,2) by simp
  have a: "fat_start sb + ?off div bps sb = table_lba sb 0 (unat ?off div 512)" "unat (?off mod bps sb) = unat ?off mod 512"
    using table_offset(1) [OF assms(1) lt, of 0] table_offset(3) [OF assms(1) lt] by simp_all
  have eq: "fat12_get sb i = bindE (fat_read_sector sb (table_lba sb 0 (unat ?off div 512))) (\<lambda>buf.
      bindE (next_sector_byte sb (table_lba sb 0 (unat ?off div 512)) (?off mod bps sb) buf) (\<lambda>b1.
        retE (val (buf ! (unat ?off mod 512)) b1)))"
    unfolding fat12_get_def Let_def next_sector_byte_def val_def odd_index a
    using index_ok [OF assms(1,3)] o(3) by simp
  obtain q u where rd: "fat_read_sector sb (table_lba sb 0 (unat ?off div 512)) s = (q, u)"
    by (cases "fat_read_sector sb (table_lba sb 0 (unat ?off div 512)) s")
  have su: "same_blocks s u"
    using read_table_sector(1) [OF assms(1) rd] .
  show ?thesis
  proof (cases q)
    case (Inl e)
    then show ?thesis
      using assms(4) rd su by (auto simp: eq bindE_def)
  next
    case (Inr buf)
    have buf: "buf ! m = table_byte s sb 0 (unat ?off div 512 * 512 + m)" if "m < 512" for m
      using read_table_sector(2) [OF assms(1) rd Inr] that by blast
    obtain q' where nb: "next_sector_byte sb (table_lba sb 0 (unat ?off div 512)) (?off mod bps sb) buf u = (q', t)"
        "\<forall>v. r = Inr v \<longrightarrow> (\<exists>b1. q' = Inr b1 \<and> v = val (buf ! (unat ?off mod 512)) b1)"
      using assms(4) rd Inr by (auto simp: eq bindE_def split: prod.splits sum.splits)
    have same: "table_byte u sb 0 n = table_byte s sb 0 n" for n
      by (simp add: table_byte_def same_blocks_sector [OF su])
    have "buf ! Suc (unat ?off mod 512) = table_byte u sb 0 (Suc (unat ?off)) \<or> unat ?off mod 512 = 511"
      using buf [of "Suc (unat ?off mod 512)"] mod_less_divisor [of 512 "unat ?off"] unfolding same by fastforce
    note n = next_sector_byte_spec [OF same_blocks_vol [OF su assms(1)] this nb(1), unfolded same]
    have "buf ! (unat ?off mod 512) = table_byte s sb 0 ?n"
      using buf [of "unat ?off mod 512"] o(1) by simp
    then show ?thesis
      using nb(2) n same_blocks_trans [OF su] read_bits12 [of "buf ! (unat ?off mod 512)" s sb 0 "unat i"] o(1) by (auto simp: val_def)
  qed
qed

text \<open>The two bytes with the bits of an entry replaced.\<close>

definition new12 :: "bool \<Rightarrow> u32 \<Rightarrow> u8 \<Rightarrow> u8 \<Rightarrow> u16" where
  "new12 upper v low high =
     (let e = ucast low OR push_bit 8 (ucast high)
      in if upper then (e AND 0x000F) OR ucast (push_bit 4 (v AND 0x0FFF)) else (e AND 0xF000) OR ucast (v AND 0x0FFF))"

lemma new12_bits:
  assumes "k < 16"
  shows "bit (new12 upper v low high) k =
    (if upper then (if k < 4 then bit low k else bit v (k - 4)) else (if k < 12 then bit v k else bit high (k - 8)))"
proof -
  define e where "e = (ucast low OR push_bit 8 (ucast high) :: u16)"
  have e: "bit e k \<longleftrightarrow> (if k < 8 then bit low k else bit high (k - 8))"
    using assms by (simp add: e_def pair_bits)
  have n: "new12 upper v low high = (if upper then (e AND 0x000F) OR ucast (push_bit 4 (v AND 0x0FFF)) else (e AND 0xF000) OR ucast (v AND 0x0FFF))"
    unfolding new12_def Let_def e_def ..
  show ?thesis
    unfolding n mask12 using assms e
    by (cases upper) (auto simp: bit_or_iff bit_and_iff bit_mask_iff bit_ucast_iff bit_push_bit_iff)
qed

lemma copy12:
  assumes "stored sb c (offset12 i) 2 (new12 (odd i) v (table_byte s sb c (offset12 i)) (table_byte s sb c (Suc (offset12 i)))) s t"
  shows "copy_set sb c (12 * i) 12 v s t"
  unfolding copy_set_def
proof (intro allI impI)
  fix c' p
  assume p: "c' < unat (fat_count sb)" "p < 8 * table_size sb"
  let ?o = "offset12 i"
  let ?e = "new12 (odd i) v (table_byte s sb c ?o) (table_byte s sb c (Suc ?o))"
  have st: "table_bit t sb c' p = (if c' = c \<and> 8 * ?o \<le> p \<and> p < 8 * ?o + 16 then bit ?e (p - 8 * ?o) else table_bit s sb c' p)"
    using stored_table_bit [OF assms _ p] by simp
  have old: "table_bit s sb c p = (if p - 8 * ?o < 8 then bit (table_byte s sb c ?o) (p - 8 * ?o) else bit (table_byte s sb c (Suc ?o)) (p - 8 * ?o - 8))"
    if "8 * ?o \<le> p" "p < 8 * ?o + 16"
    using loaded_bits [OF refl refl, of "p - 8 * ?o" "table_byte s sb c" ?o] that by (simp add: table_bit_def)
  show "table_bit t sb c' p = (if c' = c then set_bits (12 * i) 12 v (table_bit s sb c) p else table_bit s sb c' p)"
  proof (cases "c' = c \<and> 8 * ?o \<le> p \<and> p < 8 * ?o + 16")
    case True
    have d: "p - 8 * ?o < 16" "p = 8 * ?o + (p - 8 * ?o)"
      using True by auto
    show ?thesis
      unfolding st set_bits_def offset12_bits new12_bits [OF d(1)] using True old d by (cases "odd i") auto
  next
    case False
    then show ?thesis
      unfolding st set_bits_def offset12_bits by (cases "odd i") auto
  qed
qed

lemma fat12_copy_inside:
  assumes "vol_ok s sb" "c < unat (fat_count sb)" "unat off mod 512 \<noteq> 511" "Suc (unat off) < table_size sb"
    "fat12_set_copy sb i v c s = (r, t)" "off = i + i div 2"
  shows "table_frame sb s t \<and>
    (r = Inr () \<longrightarrow> stored sb c (unat off) 2 (new12 (odd (unat i)) v (table_byte s sb c (unat off)) (table_byte s sb c (Suc (unat off)))) s t)"
proof -
  let ?q = "unat off div 512" and ?m = "unat off mod 512"
  have lt: "unat off < table_size sb" and m: "?m + 1 < 512"
    using assms(3,4) mod_less_divisor [of 512 "unat off"] by linarith+
  note a = table_offset(1) [OF assms(1) lt, of c] table_offset(2,3) [OF assms(1) lt]
  note w = in_sector_word [OF assms(1), of off]
  define e where "e bs = new12 (odd (unat i)) v (bs ! ?m) (bs ! (?m + 1))" for bs
  define g where "g bs = bs[?m := ucast (e bs), ?m + 1 := ucast (drop_bit 8 (e bs))]" for bs :: "u8 list"
  have cond: "off mod bps sb + 1 < bps sb" "off mod bps sb \<noteq> bps sb - 1"
    using w m assms(3) by simp_all
  have eq: "fat12_set_copy sb i v c = bindE (fat_read_sector sb (table_lba sb c ?q)) (\<lambda>bs. fat_write_sector sb (table_lba sb c ?q) (g bs))"
    unfolding fat12_set_copy_def Let_def assms(6) [symmetric] a(1,3) w(2) g_def e_def new12_def odd_index using cond
    by (simp add: bindE_def fun_eq_iff split: prod.split sum.split)
  have st: "table_frame sb s t \<and> (r = Inr () \<longrightarrow> (\<exists>bs. length bs = 512 \<and> (\<forall>m < 512. bs ! m = table_byte s sb c (?q * 512 + m)) \<and>
      stored sb c (?q * 512 + ?m) 2 (e bs) s t))"
  proof (rule table_rmw_stored [OF assms(1,2) a(2), where g = g and x = ?m and m = 2 and e = e])
    show "length (g bs) = length bs" for bs
      by (simp add: g_def)
    show "?m + 2 \<le> 512"
      using m by simp
    show "bindE (fat_read_sector sb (table_lba sb c ?q)) (\<lambda>bs. fat_write_sector sb (table_lba sb c ?q) (g bs)) s = (r, t)"
      using assms(5) eq by simp
    show "g bs ! y = (if ?m \<le> y \<and> y < ?m + 2 then ucast (drop_bit (8 * (y - ?m)) (e bs)) else bs ! y)" if "length bs = 512" "y < 512" for bs y
    proof -
      consider "y = ?m" | "y = ?m + 1" | "y < ?m \<or> ?m + 2 \<le> y"
        by linarith
      then show ?thesis
        using that m by cases (auto simp: g_def nth_list_update)
    qed
  qed
  have dm: "?q * 512 + ?m = unat off"
    by (rule div_mult_mod_eq)
  have "e bs = new12 (odd (unat i)) v (table_byte s sb c (unat off)) (table_byte s sb c (Suc (unat off)))"
    if "\<forall>m < 512. bs ! m = table_byte s sb c (?q * 512 + m)" for bs
  proof -
    have "bs ! ?m = table_byte s sb c (?q * 512 + ?m)" "bs ! (?m + 1) = table_byte s sb c (?q * 512 + (?m + 1))"
      using that m by auto
    then show ?thesis
      unfolding e_def using dm by (simp only: add.assoc [symmetric]) simp
  qed
  then show ?thesis
    using st unfolding dm by metis
qed

text \<open>The two bytes lie in neighbouring sectors.\<close>

lemma stored_across:
  fixes e :: u16
  assumes "n0 mod 512 = 511" "length bs0 = 512" "length bs1 = 512"
    "\<forall>m < 512. bs0 ! m = table_byte s sb c (n0 div 512 * 512 + m)" "\<forall>m < 512. bs1 ! m = table_byte s sb c (Suc (n0 div 512) * 512 + m)"
    "\<forall>c' < unat (fat_count sb). \<forall>n < table_size sb.
       table_byte u sb c' n = (if c' = c \<and> n div 512 = n0 div 512 then bs0[511 := ucast e] ! (n mod 512) else table_byte s sb c' n)"
    "\<forall>c' < unat (fat_count sb). \<forall>n < table_size sb.
       table_byte t sb c' n = (if c' = c \<and> n div 512 = Suc (n0 div 512) then bs1[0 := ucast (drop_bit 8 e)] ! (n mod 512) else table_byte u sb c' n)"
  shows "stored sb c n0 2 e s t"
  unfolding stored_def
proof (intro allI impI)
  fix c' n
  assume n: "c' < unat (fat_count sb)" "n < table_size sb"
  have dm: "n div 512 * 512 + n mod 512 = n" "n0 div 512 * 512 + 511 = n0" "n mod 512 < 512"
    using div_mult_mod_eq [of n0 512] assms(1) by simp_all
  have o0: "n div 512 = n0 div 512 \<Longrightarrow> bs0 ! (n mod 512) = table_byte s sb c n"
    using assms(4) dm by auto
  have o1: "n div 512 = Suc (n0 div 512) \<Longrightarrow> bs1 ! (n mod 512) = table_byte s sb c n"
    using assms(5) dm by auto
  have tb: "table_byte t sb c' n =
      (if c' = c \<and> n div 512 = Suc (n0 div 512) then bs1[0 := ucast (drop_bit 8 e)] ! (n mod 512)
       else if c' = c \<and> n div 512 = n0 div 512 then bs0[511 := ucast e] ! (n mod 512) else table_byte s sb c' n)"
    using assms(6,7) n by simp
  consider "n = n0" | "n = Suc n0" | "n \<noteq> n0" "n \<noteq> Suc n0"
    by blast
  then show "table_byte t sb c' n = (if c' = c \<and> n0 \<le> n \<and> n < n0 + 2 then ucast (drop_bit (8 * (n - n0)) e) else table_byte s sb c' n)"
  proof cases
    case 1
    then show ?thesis
      using assms(1,2) unfolding tb by simp
  next
    case 2
    then show ?thesis
      using next_byte [OF assms(1)] assms(3) unfolding tb by (simp add: nth_list_update)
  next
    case 3
    have k: "n = a * 512 + b" if "n div 512 = a" "n mod 512 = b" for a b
      using that by (metis div_mult_mod_eq)
    have "\<not> (n div 512 = n0 div 512 \<and> n mod 512 = 511)" "\<not> (n div 512 = Suc (n0 div 512) \<and> n mod 512 = 0)"
      using 3 dm(2) k [of "n0 div 512" 511] k [of "Suc (n0 div 512)" 0] by auto
    then show ?thesis
      using 3 o0 o1 unfolding tb by (auto simp: nth_list_update assms(2,3))
  qed
qed

lemma bindE_cases:
  assumes "bindE m f s = (r, t)"
  obtains e where "m s = (Inl e, t)" "r = Inl e" | x u where "m s = (Inr x, u)" "f x u = (r, t)"
proof (cases "m s")
  case (Pair q u)
  then show thesis
    using assms that by (cases q) (simp_all add: bindE_def)
qed

lemma fat12_copy_across:
  assumes "vol_ok s sb" "c < unat (fat_count sb)" "unat off mod 512 = 511" "Suc (unat off) < table_size sb"
    "fat12_set_copy sb i v c s = (r, t)" "off = i + i div 2"
  shows "table_frame sb s t \<and>
    (r = Inr () \<longrightarrow> stored sb c (unat off) 2 (new12 (odd (unat i)) v (table_byte s sb c (unat off)) (table_byte s sb c (Suc (unat off)))) s t)"
proof -
  let ?q = "unat off div 512"
  have lt: "unat off < table_size sb"
    using assms(4) by simp
  note a = table_offset(1) [OF assms(1) lt, of c] table_offset(2,3) [OF assms(1) lt]
  note w = in_sector_word [OF assms(1), of off]
  have q1: "Suc ?q < unat (fat_sectors sb)"
    using assms(4) next_byte(1) [OF assms(3)] less_mult_imp_div_less [of "Suc (unat off)" "unat (fat_sectors sb)" 512] by (simp add: table_size_def)
  define e where "e bs0 bs1 = new12 (odd (unat i)) v (bs0 ! 511) (bs1 ! 0)" for bs0 bs1
  have cond: "\<not> off mod bps sb + 1 < bps sb" "off mod bps sb = bps sb - 1"
    using w assms(3) by simp_all
  have eq: "fat12_set_copy sb i v c =
      bindE (fat_read_sector sb (table_lba sb c ?q)) (\<lambda>bs0. bindE (fat_read_sector sb (table_lba sb c (Suc ?q))) (\<lambda>bs1.
        bindE (fat_write_sector sb (table_lba sb c ?q) (bs0[511 := ucast (e bs0 bs1)])) (\<lambda>_.
          fat_write_sector sb (table_lba sb c (Suc ?q)) (bs1[0 := ucast (drop_bit 8 (e bs0 bs1))]))))"
    unfolding fat12_set_copy_def Let_def assms(6) [symmetric] a(1,3) e_def new12_def odd_index table_lba_Suc assms(3)
    using cond by (simp only: if_True if_False simp_thms)
  from assms(5) [unfolded eq] show ?thesis
  proof (cases rule: bindE_cases)
    case (1 e)
    then show ?thesis
      using table_frame_same [OF read_table_sector(1) [OF assms(1)] assms(1)] by auto
  next
    case (2 bs0 u1)
    have s1: "same_blocks s u1" and b0: "length bs0 = 512" "\<forall>m < 512. bs0 ! m = table_byte s sb c (?q * 512 + m)"
      using read_table_sector [OF assms(1) 2(1)] by auto
    have v1: "vol_ok u1 sb"
      using same_blocks_vol [OF s1 assms(1)] .
    from 2(2) show ?thesis
    proof (cases rule: bindE_cases)
      case (1 e)
      then show ?thesis
        using table_frame_same [OF same_blocks_trans [OF s1 read_table_sector(1) [OF v1]] assms(1)] by auto
    next
      case (2 bs1 u2)
      have s2: "same_blocks s u2" and b1: "length bs1 = 512" "\<forall>m < 512. bs1 ! m = table_byte s sb c (Suc ?q * 512 + m)"
        using read_table_sector [OF v1 2(1)] same_blocks_trans [OF s1] same_blocks_sector [OF s1] by (auto simp: table_byte_def)
      have v2: "vol_ok u2 sb" and f2: "table_frame sb s u2" and tb2: "table_byte u2 sb c' n = table_byte s sb c' n" for c' n
        using same_blocks_vol [OF s2 assms(1)] table_frame_same [OF s2 assms(1)] by (auto simp: table_byte_def same_blocks_sector [OF s2])
      note w1 = write_table_sector [OF v2 assms(2) a(2), of "bs0[511 := ucast (e bs0 bs1)]"]
      from 2(2) show ?thesis
      proof (cases rule: bindE_cases)
        case (1 e)
        then show ?thesis
          using w1(1) b0(1) table_frame_trans [OF f2] by auto
      next
        case (2 x u3)
        have f3: "table_frame sb u2 u3" and v3: "vol_ok u3 sb"
          using w1(1) [OF _ 2(1)] b0(1) by (auto simp: table_frame_def)
        note w2 = write_table_sector [OF v3 assms(2) q1 _ 2(2)]
        have tb3: "\<forall>c' < unat (fat_count sb). \<forall>n < table_size sb.
            table_byte u3 sb c' n = (if c' = c \<and> n div 512 = ?q then bs0[511 := ucast (e bs0 bs1)] ! (n mod 512) else table_byte s sb c' n)"
          using w1(2) [OF _ 2(1)] b0(1) unfolding tb2 by simp
        have "stored sb c (unat off) 2 (e bs0 bs1) s t" if "r = Inr ()"
          by (rule stored_across [OF assms(3) b0(1) b1(1) b0(2) b1(2) tb3]) (use w2(2) b1(1) that in simp)
        moreover have "e bs0 bs1 = new12 (odd (unat i)) v (table_byte s sb c (unat off)) (table_byte s sb c (Suc (unat off)))"
        proof -
          have h: "?q * 512 + 511 = unat off" "Suc ?q * 512 + 0 = Suc (unat off)"
            using div_mult_mod_eq [of "unat off" 512] assms(3) by simp_all
          have "bs0 ! 511 = table_byte s sb c (?q * 512 + 511)" "bs1 ! 0 = table_byte s sb c (Suc ?q * 512 + 0)"
            by (rule b0(2) [rule_format], simp) (rule b1(2) [rule_format], simp)
          then show ?thesis
            unfolding e_def h by simp
        qed
        ultimately show ?thesis
          using table_frame_trans [OF table_frame_trans [OF f2 f3] w2(1)] b1(1) by auto
      qed
    qed
  qed
qed

lemma fat12_copy:
  assumes "vol_ok s sb" "sb_type sb = FAT_TYPE_12" "unat i < unat (cluster_count sb) + 2" "c < unat (fat_count sb)"
    "fat12_set_copy sb i v c s = (r, t)"
  shows "table_frame sb s t \<and> (r = Inr () \<longrightarrow> copy_set sb c (12 * unat i) 12 v s t)"
proof -
  note o = fat12_offset [OF assms(1-3)]
  have lt: "Suc (unat (i + i div 2)) < table_size sb"
    using o(1,2) by simp
  have "table_frame sb s t \<and> (r = Inr () \<longrightarrow> stored sb c (unat (i + i div 2)) 2
      (new12 (odd (unat i)) v (table_byte s sb c (unat (i + i div 2))) (table_byte s sb c (Suc (unat (i + i div 2))))) s t)"
    using fat12_copy_inside [OF assms(1,4) _ lt assms(5) refl] fat12_copy_across [OF assms(1,4) _ lt assms(5) refl] by blast
  then show ?thesis
    unfolding o(1) using copy12 by blast
qed

lemma fat12_set_law:
  assumes "vol_ok s sb" "sb_type sb = FAT_TYPE_12" "unat i < unat (cluster_count sb) + 2" "unat v < 2 ^ 12" "fat12_set sb i v s = (r, t)"
  shows "table_frame sb s t \<and> (r = Inr () \<longrightarrow> (\<forall>c < unat (fat_count sb). \<forall>p < 8 * table_size sb.
    table_bit t sb c p = set_bits (12 * unat i) 12 v (table_bit s sb c) p))"
proof -
  have "\<not> v > 0x0FFF"
    using assms(4) by (simp add: word_less_nat_alt)
  then have "eachE (fat12_set_copy sb i v) [0..<unat (fat_count sb)] s = (r, t)"
    using assms(5) index_ok [OF assms(1,3)] fat12_offset(3) [OF assms(1-3)] vol_okD(2) [OF assms(1)] by (simp add: fat12_set_def)
  from each_copy [OF fat12_copy [OF _ assms(2,3)] assms(1) this] show ?thesis
    by (auto simp: atLeast0LessThan)
qed

interpretation fat12: fat_variant fat12_get fat12_set FAT_TYPE_12 12 12
proof
  show "12 * j + 12 \<le> 8 * table_size sb" if "vol_ok s sb" "sb_type sb = FAT_TYPE_12" "j < unat (cluster_count sb) + 2" for s sb j
  proof -
    have "offset12 j + 1 < table_size sb"
      using vol_okD(7) [OF that(1)] that(2,3) by (auto simp: entry_end_def offset12_def dest!: spec [of _ j])
    then show ?thesis
      using offset12_bits [of j] by (simp split: if_splits)
  qed
qed (simp_all add: fat12_get_law fat12_set_law)

section \<open>The table of a volume\<close>

definition entry_stride :: "fat_type \<Rightarrow> nat" where
  "entry_stride type = (case type of FAT_TYPE_12 \<Rightarrow> 12 | FAT_TYPE_16 \<Rightarrow> 16 | FAT_TYPE_32 \<Rightarrow> 32)"

definition entry_width :: "fat_type \<Rightarrow> nat" where
  "entry_width type = (case type of FAT_TYPE_12 \<Rightarrow> 12 | FAT_TYPE_16 \<Rightarrow> 16 | FAT_TYPE_32 \<Rightarrow> 28)"

definition fat_entry :: "blk \<Rightarrow> fat_super \<Rightarrow> nat \<Rightarrow> nat \<Rightarrow> u32" where
  "fat_entry s sb = table_entry (entry_stride (sb_type sb)) (entry_width (sb_type sb)) s sb"

lemma fat_get:
  assumes "vol_ok s sb" "unat i < unat (cluster_count sb) + 2" "get_fat_entry (fat_var sb) sb i s = (r, t)"
  shows "same_blocks s t" "r = Inr v \<Longrightarrow> v = fat_entry s sb 0 (unat i)"
  using assms fat12.get_entry [OF assms(1) _ assms(2)] fat16.get_entry [OF assms(1) _ assms(2)] fat32.get_entry [OF assms(1) _ assms(2)]
  by (auto simp: fat_var_def fat12_ops_def fat16_ops_def fat32_ops_def fat_entry_def entry_stride_def entry_width_def split: fat_type.splits)

lemma fat_set:
  assumes "vol_ok s sb" "unat i < unat (cluster_count sb) + 2" "unat v < 2 ^ entry_width (sb_type sb)"
    "set_fat_entry (fat_var sb) sb i v s = (r, t)"
  shows "table_frame sb s t"
    "r = Inr () \<Longrightarrow> c < unat (fat_count sb) \<Longrightarrow> j < unat (cluster_count sb) + 2 \<Longrightarrow>
       fat_entry t sb c j = (if j = unat i then v else fat_entry s sb c j)"
proof -
  consider (a) "sb_type sb = FAT_TYPE_12" | (b) "sb_type sb = FAT_TYPE_16" | (c) "sb_type sb = FAT_TYPE_32"
    by (cases "sb_type sb")
  then have "table_frame sb s t \<and> (\<forall>c j. r = Inr () \<and> c < unat (fat_count sb) \<and> j < unat (cluster_count sb) + 2 \<longrightarrow>
      fat_entry t sb c j = (if j = unat i then v else fat_entry s sb c j))"
  proof cases
    case a
    then show ?thesis
      using fat12.put_entry [OF assms(1) a assms(2), of v r t] assms(3,4)
      by (simp add: fat_var_def fat12_ops_def fat_entry_def entry_stride_def entry_width_def)
  next
    case b
    then show ?thesis
      using fat16.put_entry [OF assms(1) b assms(2), of v r t] assms(3,4)
      by (simp add: fat_var_def fat16_ops_def fat_entry_def entry_stride_def entry_width_def)
  next
    case c
    then show ?thesis
      using fat32.put_entry [OF assms(1) c assms(2), of v r t] assms(3,4)
      by (simp add: fat_var_def fat32_ops_def fat_entry_def entry_stride_def entry_width_def)
  qed
  then show "table_frame sb s t"
    "r = Inr () \<Longrightarrow> c < unat (fat_count sb) \<Longrightarrow> j < unat (cluster_count sb) + 2 \<Longrightarrow>
       fat_entry t sb c j = (if j = unat i then v else fat_entry s sb c j)"
    by blast+
qed

text \<open>
  C10: the file allocation table is an array of entries, for all three variants. Setting an entry to a value of the variant's width, when it
  succeeds, changes that entry in every copy of the table and no other entry, and reading gives the entries of the first copy; whether
  it succeeds or not, no sector outside the table changes.
\<close>

theorem fat_table_array:
  assumes "vol_ok s sb" "unat i < unat (cluster_count sb) + 2" "unat v < 2 ^ entry_width (sb_type sb)"
    "set_fat_entry (fat_var sb) sb i v s = (r, t)"
  shows "table_frame sb s t \<and> (r = Inr () \<longrightarrow> (\<forall>j. unat j < unat (cluster_count sb) + 2 \<longrightarrow>
    (\<forall>c < unat (fat_count sb). fat_entry t sb c (unat j) = (if j = i then v else fat_entry s sb c (unat j))) \<and>
    (\<forall>w u. get_fat_entry (fat_var sb) sb j t = (Inr w, u) \<longrightarrow> w = (if j = i then v else fat_entry s sb 0 (unat j)))))"
proof (intro conjI impI allI)
  note f = fat_set [OF assms]
  show "table_frame sb s t"
    by (rule f(1))
  then have vt: "vol_ok t sb"
    by (simp add: table_frame_def)
  have c0: "0 < unat (fat_count sb)"
    using assms(1) by (simp add: vol_ok_def fat_layout_def)
  fix j :: u32
  assume r: "r = Inr ()" and j: "unat j < unat (cluster_count sb) + 2"
  show e: "fat_entry t sb c (unat j) = (if j = i then v else fat_entry s sb c (unat j))" if "c < unat (fat_count sb)" for c
    using f(2) [OF r that j] by (auto simp: word_unat_eq_iff)
  show "w = (if j = i then v else fat_entry s sb 0 (unat j))" if "get_fat_entry (fat_var sb) sb j t = (Inr w, u)" for w u
    using fat_get(2) [OF vt j that refl] e [OF c0] by simp
qed

text \<open>The floppy disk in a drive that is always ready.\<close>

definition floppy_disk :: blk where
  "floppy_disk = small_disk\<lparr>ata := ready_drive\<lparr>ata_sectors := 2880\<rparr>,
     bdevs := (bdevs small_disk)(HD0 := (bdevs small_disk HD0)\<lparr>bsector_count := 2880\<rparr>)\<rparr>"

lemma floppy_vol: "vol_ok floppy_disk floppy_probed"
proof -
  have "fat_layout floppy_probed 2880"
  proof -
    have "\<forall>i < 2849. i + i div 2 + 1 < (4608 :: nat)"
      by auto
    then show ?thesis
      by (simp add: fat_layout_def floppy_probed_def floppy_def entry_end_def)
  qed
  moreover have "dev_ok floppy_disk HD0" "bsector_count (bdevs floppy_disk HD0) = 2880"
    by (simp_all add: dev_ok_def disk_ok_def ata_wf_def floppy_disk_def small_disk_def ready_drive_def ATA_SECTOR_SIZE_def ATA_LBA28_SECTOR_LIMIT_def)
  moreover have "sb_bdev floppy_probed = HD0" "fat_sectors floppy_probed = 9"
    by (simp_all add: floppy_probed_def floppy_def HD0_def)
  ultimately show ?thesis
    by (simp add: vol_ok_def)
qed

definition ready_floppy :: "blk \<Rightarrow> bool" where
  "ready_floppy s \<longleftrightarrow> vol_ok s floppy_probed \<and> status (ata s) = (\<lambda>_. 0x48) \<and> bdevs s = bdevs floppy_disk \<and> ata_sectors (ata s) = 2880"

lemma floppy_dev: "sb_bdev floppy_probed = HD0" "bdevs floppy_disk HD0 = \<lparr>bname = Some ''hd0'', bops = Some ATA_OPS, bsector_size = 512, bsector_count = 2880, bprivate = None\<rparr>"
  by (simp_all add: floppy_probed_def floppy_def HD0_def floppy_disk_def small_disk_def)

lemma one_in_range:
  fixes lba total :: u32
  assumes "lba < total"
  shows "\<not> total \<le> lba" "\<not> total - lba < 1" "total \<noteq> 0"
  using assms by (auto simp: word_less_nat_alt unat_sub word_le_nat_alt)

lemma ready_transfers:
  assumes "status a = (\<lambda>_. 0x48)" "lba < ata_sectors a"
  shows "\<exists>bs t. ata_read28 lba True 1 a = (Inr bs, t) \<and> status t = (\<lambda>_. 0x48)"
    "\<exists>t. ata_write28 lba (Some bytes) 1 a = (Inr (), t) \<and> status t = (\<lambda>_. 0x48)"
proof -
  note g = one_in_range [OF assms(2)]
  have one: "[0..<unat (1 :: u32)] = [0]"
    by simp
  show "\<exists>bs t. ata_read28 lba True 1 a = (Inr bs, t) \<and> status t = (\<lambda>_. 0x48)"
    unfolding ata_read28_def one using g assms(1) by (simp add: read_sector_def bindE_def ready_waits)
  show "\<exists>t. ata_write28 lba (Some bytes) 1 a = (Inr (), t) \<and> status t = (\<lambda>_. 0x48)"
    unfolding ata_write28_def one using g assms(1) by (simp add: write_sector_def bindE_def ready_waits)
qed

lemma ready_floppy_dev:
  assumes "ready_floppy s" "lba < 2880"
  shows "dev_ok s HD0" "dev_base s HD0 = 0" "valid_range s HD0 lba 1" "lba < ata_sectors (ata s)" "status (ata s) = (\<lambda>_. 0x48)"
  using assms by (simp_all add: ready_floppy_def vol_ok_def floppy_dev dev_base_def)

lemma ready_floppy_read:
  assumes "ready_floppy s" "lba < 2880"
  shows "\<exists>bs t. fat_read_sector floppy_probed lba s = (Inr bs, t) \<and> length bs = 512 \<and> ready_floppy t"
proof -
  note d = ready_floppy_dev [OF assms]
  obtain bs a where a: "ata_read28 lba True 1 (ata s) = (Inr bs, a)" "status a = (\<lambda>_. 0x48)"
    using ready_transfers(1) [OF d(5,4)] by blast
  then have rd: "fat_read_sector floppy_probed lba s = (Inr bs, s\<lparr>ata := a\<rparr>)"
    using d dev_read [OF d(1)] by (simp add: fat_read_sector_def floppy_dev on_ata_def partE_def)
  have "same_blocks s (s\<lparr>ata := a\<rparr>)" "bs = dev_sector s HD0 lba"
    using read_sector_spec [OF _ rd] d(1) by (auto simp: floppy_dev)
  moreover have "vol_ok (s\<lparr>ata := a\<rparr>) floppy_probed"
    using same_blocks_vol [OF calculation(1)] assms(1) by (simp add: ready_floppy_def)
  ultimately show ?thesis
    using rd a(2) assms(1) length_dev_sector [OF d(1)] by (auto simp: ready_floppy_def same_blocks_def same_devs_def)
qed

lemma ready_floppy_write:
  assumes "ready_floppy s" "lba < 2880" "length bytes = 512"
  shows "\<exists>t. fat_write_sector floppy_probed lba bytes s = (Inr (), t) \<and> ready_floppy t"
proof -
  note d = ready_floppy_dev [OF assms(1,2)]
  obtain a where a: "ata_write28 lba (Some bytes) 1 (ata s) = (Inr (), a)" "status a = (\<lambda>_. 0x48)"
    using ready_transfers(2) [OF d(5,4)] by blast
  then have wr: "fat_write_sector floppy_probed lba bytes s = (Inr (), s\<lparr>ata := a\<rparr>)"
    using d dev_write [OF d(1)] by (simp add: fat_write_sector_def floppy_dev on_ata_def partE_def)
  have "same_devs s (s\<lparr>ata := a\<rparr>)" "dev_ok (s\<lparr>ata := a\<rparr>) HD0"
    using write_sector_spec(1,2) [OF _ wr assms(3)] d(1) by (auto simp: floppy_dev)
  then show ?thesis
    using wr a(2) assms(1) vol_ok_devs [of s floppy_probed] by (auto simp: ready_floppy_def same_devs_def floppy_dev)
qed

lemma ready_floppy_copy:
  assumes "ready_floppy s" "c < 2"
  shows "\<exists>t. fat12_set_copy floppy_probed 5 0x0FFF c s = (Inr (), t) \<and> ready_floppy t"
proof -
  have lba: "fat_start floppy_probed + of_nat c * fat_sectors floppy_probed + (5 + 5 div 2) div bps floppy_probed < 2880"
    using assms(2) by (auto simp: floppy_probed_def floppy_def less_2_cases_iff)
  obtain bs u where rd: "fat_read_sector floppy_probed (fat_start floppy_probed + of_nat c * fat_sectors floppy_probed + (5 + 5 div 2) div bps floppy_probed) s = (Inr bs, u)"
      "length bs = 512" "ready_floppy u"
    using ready_floppy_read [OF assms(1) lba] by blast
  have b: "bps floppy_probed = 512"
    by (simp add: floppy_probed_def floppy_def)
  show ?thesis
    using rd ready_floppy_write [OF rd(3) lba] unfolding fat12_set_copy_def Let_def b
    by (auto simp: bindE_def split: prod.splits sum.splits) (metis length_list_update prod.inject sum.distinct(1))+
qed

lemma ready_floppy_set:
  "\<exists>t. set_fat_entry (fat_var floppy_probed) floppy_probed 5 0x0FFF floppy_disk = (Inr (), t)"
proof -
  have r0: "ready_floppy floppy_disk"
    using floppy_vol by (simp add: ready_floppy_def floppy_disk_def ready_drive_def)
  obtain t where t: "fat12_set_copy floppy_probed 5 0x0FFF 0 floppy_disk = (Inr (), t)" "ready_floppy t"
    using ready_floppy_copy [OF r0, of 0] by auto
  obtain u where u: "fat12_set_copy floppy_probed 5 0x0FFF 1 t = (Inr (), u)"
    using ready_floppy_copy [OF t(2), of 1] by auto
  have "[0..<unat (fat_count floppy_probed)] = [0, 1]"
    by (simp add: floppy_probed_def floppy_def upt_rec)
  moreover have "set_fat_entry (fat_var floppy_probed) = fat12_set"
    by (simp add: fat_var_def fat12_ops_def floppy_probed_def floppy_def)
  moreover have "cluster_count floppy_probed = 2847" "bytes_per_sector floppy_probed = 512" "fat_sectors floppy_probed = 9"
    by (simp_all add: floppy_probed_def floppy_def)
  ultimately show ?thesis
    using t u by (simp add: fat12_set_def bindE_def)
qed

theorem fat_table_array_witness:
  "\<exists>t. set_fat_entry (fat_var floppy_probed) floppy_probed 5 0x0FFF floppy_disk = (Inr (), t) \<and> fat_entry t floppy_probed 1 5 = 0x0FFF \<and>
     fat_entry t floppy_probed 0 6 = fat_entry floppy_disk floppy_probed 0 6"
proof -
  obtain t where t: "set_fat_entry (fat_var floppy_probed) floppy_probed 5 0x0FFF floppy_disk = (Inr (), t)"
    using ready_floppy_set by blast
  have f: "cluster_count floppy_probed = 2847" "sb_type floppy_probed = FAT_TYPE_12" "fat_count floppy_probed = 2"
    by (simp_all add: floppy_probed_def floppy_def)
  have "\<forall>j :: u32. unat j < 2849 \<longrightarrow> (\<forall>c < 2. fat_entry t floppy_probed c (unat j) =
      (if j = 5 then 0x0FFF else fat_entry floppy_disk floppy_probed c (unat j)))"
    using fat_table_array [OF floppy_vol _ _ t] by (simp add: f entry_width_def)
  from this [rule_format, of 5 1] this [rule_format, of 6 0] show ?thesis
    using t by simp
qed

end
