(* ===== verification/Spec2Isabelle.thy ===== *)
theory Spec2Isabelle
  imports Signal Heap Usercopy Fd_Props Mount Net_Dev Ipc Fat_Variants
begin

text \<open>
  A verification of the Clearfall kernel, a 32-bit x86 operating system written in C.

  \<^bold>\<open>The program.\<close> The kernel proper lives in \<^verbatim>\<open>src/src/kernel\<close> with its headers in \<^verbatim>\<open>src/include/kernel\<close>. Memory is
  managed in layers: a bitmap of physical frames (\<^verbatim>\<open>mm/pmm.c\<close>), page tables (\<^verbatim>\<open>mm/paging.c\<close>, \<^verbatim>\<open>mm/vmm.c\<close>), a heap of
  linked chunks on top of both (\<^verbatim>\<open>mm/heap.c\<close>), and copying to and from user memory (\<^verbatim>\<open>mm/usercopy.c\<close>), through which system
  calls reach their arguments. Files are reached through path lookup (\<^verbatim>\<open>fs/vfs/lookup.c\<close>), the calls of \<^verbatim>\<open>fs/vfs/vfs.c\<close>, open files
  with reference counts (\<^verbatim>\<open>fs/vfs/file.c\<close>, \<^verbatim>\<open>vnode.c\<close>), descriptor tables (\<^verbatim>\<open>fd.c\<close>) and the mount table
  (\<^verbatim>\<open>mount.c\<close>); the memory file system (\<^verbatim>\<open>fs/ramfs\<close>) is the file system of the root. Signals are queued per thread
  (\<^verbatim>\<open>syscall/signal\<close>). Ports carry messages between services (\<^verbatim>\<open>ipc/ipc.c\<close>). The network code (\<^verbatim>\<open>net\<close>) makes and checks packets, keeps
  the addresses of neighbours and moves packets between devices and sockets. Disks are reached through the driver (\<^verbatim>\<open>fs/block/ata.c\<close>), the
  registry of block devices (\<^verbatim>\<open>blockdev.c\<close>) and the partition table (\<^verbatim>\<open>partition.c\<close>), on which the FAT file system (\<^verbatim>\<open>fs/fat\<close>) is built.

  \<^bold>\<open>Theories.\<close>
  \<^item> \<open>Prelude\<close>: the integer types of \<^verbatim>\<open>libc/types.h\<close>, the error codes of \<^verbatim>\<open>libc/errno.h\<close>, generic lemmas on lists and words.
  \<^item> \<open>Link_List\<close>: the intrusive lists of \<^verbatim>\<open>list.h\<close> over an explicit store of links; a list segment predicate and the effect of each operation on it.
  \<^item> \<open>Fifo_Spec\<close>, \<open>Rt_Queue\<close>, \<open>Signal\<close>: the contract of a bounded queue as a locale; \<^verbatim>\<open>syscall/signal/queue.c\<close>, shown to implement it; and
    \<^verbatim>\<open>syscall/signal/signal.c\<close>, shown to implement a specification on sets and lists of signals.
  \<^item> \<open>Frame_Spec\<close>, \<open>Pmm\<close>: the contract of a frame allocator; \<^verbatim>\<open>mm/pmm.c\<close> with the assembly helpers \<open>align_up\<close> and \<open>align_down\<close>, its
    invariant (the counter is the number of used frames) and its interpretation as an allocator.
  \<^item> \<open>Paging\<close>: \<^verbatim>\<open>mm/paging.c\<close> and \<^verbatim>\<open>mm/vmm.c\<close> over the physical memory as a function; well-formed address spaces, and mapping
    as the change of one translation.
  \<^item> \<open>Block_Spec\<close>, \<open>Heap\<close>: the contract of a block allocator towards its users; \<^verbatim>\<open>mm/heap.c\<close>, whose chunk list is a chain of
    disjoint segments, interpreted as such an allocator.
  \<^item> \<open>Usercopy\<close>: \<^verbatim>\<open>mm/usercopy.c\<close> over the translation of the loaded page directory.
  \<^item> \<open>Kfs\<close>, \<open>Vfs_Path\<close>, \<open>Vfs\<close>, \<open>Vnode_Fs\<close>: vnodes and open files with their reference counts; path lookup as a walk along components; the
    calls of \<^verbatim>\<open>vfs.c\<close> over a table of vnode operations; and the contract of a file system towards these calls.
  \<^item> \<open>Ramfs\<close>, \<open>Ramfs_Inv\<close>, \<open>Ramfs_Fs\<close>: \<^verbatim>\<open>fs/ramfs\<close>, its invariant (the nodes form trees, cached vnodes and nodes refer to each other, every
    reference count is the number of references), and its interpretation as a file system.
  \<^item> \<open>Fd\<close>, \<open>Fd_Props\<close>: \<^verbatim>\<open>fs/vfs/fd.c\<close>, a step relation of descriptor operations, and the exactness of reference counts over all tables.
  \<^item> \<open>Mount\<close>: \<^verbatim>\<open>fs/vfs/mount.c\<close> and mounting the memory file system.
  \<^item> \<open>Ipc\<close>: \<^verbatim>\<open>ipc/ipc.c\<close>; every sequence of operations keeps the ports and the registry well formed, and messages arrive in order.
  \<^item> \<open>Net_Checksum\<close>, \<open>Net\<close>, \<open>Net_Dev\<close>: the Internet checksum and IPv4 headers; Ethernet addresses and the ARP cache as a bounded map; devices, the
    loopback device as a queue, and sockets with a step relation of all calls.
  \<^item> \<open>Fallible\<close>: operations that fail with an error code, with the sequencing and the rules that the disk components use.
  \<^item> \<open>Ata\<close>, \<open>Blockdev\<close>: \<^verbatim>\<open>fs/block/ata.c\<close> over a drive with arbitrary status values, whose writes are read back; \<^verbatim>\<open>blockdev.c\<close> and
    \<^verbatim>\<open>partition.c\<close>, where every device is an array of sectors and partitions are shown to be isolated.
  \<^item> \<open>Fat_Table\<close>: the superblock, the three variants of the allocation table and the functions on clusters of \<^verbatim>\<open>fs/fat\<close>; the layout that
    probing accepts, and the table as a sequence of bits.
  \<^item> \<open>Fat_Variants\<close>: the contract of \<^verbatim>\<open>struct fat_variant_ops\<close> as a locale, interpreted for FAT12, FAT16 and FAT32; the table as an
    array of entries that is kept in several copies.

  \<^bold>\<open>Conventions.\<close> A machine integer is a word of its width; a C \<open>int\<close> that carries an error code or a count is an \<open>int\<close>. A pointer
  that the code compares with \<open>NULL\<close> is an option or an address with 0 for \<open>NULL\<close>; objects live in maps from identifiers, or in a store indexed
  by addresses where the code computes with them. A result of \<open>None\<close> of an operation is an access the C code must not make: a wild pointer,
  an index out of range, a page fault. Memory allocation in the file system components is an arbitrary sequence of successes and failures.
  The polling loops of the disk driver count down from their limit of a million rounds, and the loop that frees a chain from the number of clusters,
  as in the code. Unbounded loops are \<open>partial_function\<close>s whose termination is part of the theorems; no fuel is used.

  \<^bold>\<open>Not modelled.\<close> Assembly code other than the two alignment helpers, and code that only drives hardware (ports, interrupt controllers,
  descriptor tables, keyboard, serial line, display), whose effect is outside the machine model; the scheduler and processes, which depend on
  it, and with them the dispatch of system calls; directories, files and mounting of the FAT file system, the ext2 file system, the loaders
  of executables and archives, the terminal and the line editor, and formatted output, which have not been translated; the font
  and other tables of data; user programs.
\<close>

end
